(* ===== verification/Prelude.thy ===== *)
theory Prelude
  imports Main "HOL-Library.Word"
begin

text \<open>
  The vocabulary the component theories share: machine integer types, byte
  buffers with the little-endian accessors of \<^verbatim>\<open>src/page_buf.h\<close>, the result codes
  of \<^verbatim>\<open>include/ixsphere/vfs.h\<close>, and the generic facts on lists, words and byte
  buffers the proofs of the components are carried by.

  The collection \<open>buf_simps\<close> holds the read-over-write laws of byte buffers.
\<close>

unbundle bit_operations_syntax

named_theorems buf_simps \<open>read-over-write laws of byte buffers\<close>

section \<open>Machine types and result codes\<close>

type_synonym u8 = "8 word"
type_synonym u16 = "16 word"
type_synonym u32 = "32 word"
type_synonym u64 = "64 word"
type_synonym bytes = "u8 list"

text \<open>
  \<^verbatim>\<open>vfs_error_t\<close>: the result codes of the public interface.
\<close>

datatype vfs_error_t =
    VFS_OK
  | VFS_ERR_IO
  | VFS_ERR_NOTFOUND
  | VFS_ERR_EXISTS
  | VFS_ERR_NOTDIR
  | VFS_ERR_NOTEMPTY
  | VFS_ERR_CONFLICT
  | VFS_ERR_FULL
  | VFS_ERR_NOMEM
  | VFS_ERR_EPOCH
  | VFS_ERR_NAMETOOLONG
  | VFS_ERR_NOTIMPL

section \<open>Little-endian words\<close>

text \<open>
  \<open>memcpy\<close> between an integer variable and a byte buffer: on the supported
  targets (x86\_64 and aarch64) the bytes are in little-endian order.
\<close>

primrec le_bytes :: "nat \<Rightarrow> 'a::len word \<Rightarrow> bytes" where
  "le_bytes 0 w = []"
| "le_bytes (Suc n) w = ucast w # le_bytes n (drop_bit 8 w)"

primrec le_word :: "bytes \<Rightarrow> 'a::len word" where
  "le_word [] = 0"
| "le_word (b # bs) = ucast b OR push_bit 8 (le_word bs)"

lemma length_le_bytes [simp]: "length (le_bytes n w) = n"
  by (induction n arbitrary: w) auto

lemma le_word_le_bytes:
  fixes w :: "'a::len word"
  shows "le_word (le_bytes n w) = take_bit (8 * n) w"
proof (induction n arbitrary: w)
  case (Suc n)
  show ?case
    unfolding le_bytes.simps le_word.simps Suc.IH
    by (rule bit_word_eqI) (auto simp: bit_simps)
qed simp

lemma bit_le_word_imp_less:
  "bit (le_word cs :: 'a::len word) n \<Longrightarrow> n < 8 * length cs"
proof (induction cs arbitrary: n)
  case (Cons c cs)
  show ?case
  proof (cases "n < 8")
    case False
    then have "\<not> bit c n" by (auto dest: bit_imp_le_length)
    with Cons.prems False have "bit (le_word cs :: 'a word) (n - 8)"
      by (auto simp: bit_simps)
    from Cons.IH [OF this] show ?thesis using False by simp
  qed simp
qed simp

lemma le_bytes_le_word:
  assumes "8 * length bs \<le> LENGTH('a::len)"
  shows "le_bytes (length bs) (le_word bs :: 'a word) = bs"
  using assms
proof (induction bs)
  case (Cons b bs)
  have hd: "ucast (ucast b OR push_bit 8 (le_word bs) :: 'a word) = b"
    using Cons.prems by (intro bit_word_eqI) (auto simp: bit_simps)
  have "drop_bit 8 (ucast b OR push_bit 8 (le_word bs) :: 'a word) = le_word bs"
    using Cons.prems
    by (intro bit_word_eqI)
       (auto simp: bit_simps dest: bit_imp_le_length bit_le_word_imp_less)
  with Cons hd show ?case by simp
qed simp

section \<open>Byte buffers\<close>

text \<open>
  \<open>blit buf off src\<close> is \<open>memcpy(buf + off, src, length src)\<close>, \<open>chunk buf off n\<close>
  the \<open>n\<close> bytes \<open>memcpy\<close> reads from \<open>buf + off\<close>.
\<close>

definition chunk :: "'a list \<Rightarrow> nat \<Rightarrow> nat \<Rightarrow> 'a list" where
  "chunk buf off n = take n (drop off buf)"

definition blit :: "'a list \<Rightarrow> nat \<Rightarrow> 'a list \<Rightarrow> 'a list" where
  "blit buf off src = take off buf @ src @ drop (off + length src) buf"

abbreviation zero_bytes :: "nat \<Rightarrow> bytes" where
  "zero_bytes n \<equiv> replicate n 0"

lemma length_chunk [simp]: "length (chunk buf off n) = min n (length buf - off)"
  by (simp add: chunk_def)

lemma length_blit [simp]:
  "off + length src \<le> length buf \<Longrightarrow> length (blit buf off src) = length buf"
  by (simp add: blit_def)

lemma nth_blit:
  assumes "off + length src \<le> length buf" "i < length buf"
  shows "blit buf off src ! i
       = (if off \<le> i \<and> i < off + length src then src ! (i - off) else buf ! i)"
  using assms by (auto simp: blit_def nth_append min_def)

lemma nth_chunk: "i < n \<Longrightarrow> off + n \<le> length buf \<Longrightarrow> chunk buf off n ! i = buf ! (off + i)"
  by (simp add: chunk_def)

lemma chunk_blit_same [buf_simps]:
  "off + length src \<le> length buf \<Longrightarrow> n = length src \<Longrightarrow> chunk (blit buf off src) off n = src"
  by (simp add: chunk_def blit_def)

lemma chunk_blit_disjoint [buf_simps]:
  assumes "o2 + length src \<le> length buf" "o1 + n \<le> o2 \<or> o2 + length src \<le> o1"
  shows "chunk (blit buf o2 src) o1 n = chunk buf o1 n"
proof (rule nth_equalityI)
  fix i assume "i < length (chunk (blit buf o2 src) o1 n)"
  then have "i < n" "o1 + i < length buf" using assms(1) by auto
  then show "chunk (blit buf o2 src) o1 n ! i = chunk buf o1 n ! i"
    using assms by (auto simp: chunk_def nth_blit)
qed (use assms in simp)

lemma chunk_blit_inside:
  assumes "o2 + length src \<le> length buf" "o2 \<le> o1" "o1 + n \<le> o2 + length src"
  shows "chunk (blit buf o2 src) o1 n = chunk src (o1 - o2) n"
proof (rule nth_equalityI)
  fix i assume "i < length (chunk (blit buf o2 src) o1 n)"
  then have "i < n" using assms(1) by auto
  then show "chunk (blit buf o2 src) o1 n ! i = chunk src (o1 - o2) n ! i"
    using assms by (auto simp: chunk_def nth_blit)
qed (use assms in auto)

lemma chunk_full [simp]: "chunk buf 0 (length buf) = buf"
  by (simp add: chunk_def)

lemma chunk_all: "n = length buf \<Longrightarrow> chunk buf 0 n = buf"
  by (simp add: chunk_def)

lemma blit_chunk_id:
  "off + n \<le> length buf \<Longrightarrow> blit buf off (chunk buf off n) = buf"
  by (rule nth_equalityI) (auto simp: nth_blit nth_chunk)

subsection \<open>The accessors of page\_buf.h\<close>

text \<open>
  \<^verbatim>\<open>vfs_rd8_s\<close> \<dots> \<^verbatim>\<open>vfs_wr2_s\<close>. The page-size argument of the C functions only
  feeds a debug-build assertion; the assertion appears here as the in-bounds
  hypothesis of the laws.
\<close>

definition rd8 :: "bytes \<Rightarrow> nat \<Rightarrow> u64" where
  "rd8 buf off = le_word (chunk buf off 8)"

definition rd4 :: "bytes \<Rightarrow> nat \<Rightarrow> u32" where
  "rd4 buf off = le_word (chunk buf off 4)"

definition rd2 :: "bytes \<Rightarrow> nat \<Rightarrow> u16" where
  "rd2 buf off = le_word (chunk buf off 2)"

definition wr8 :: "bytes \<Rightarrow> nat \<Rightarrow> u64 \<Rightarrow> bytes" where
  "wr8 buf off v = blit buf off (le_bytes 8 v)"

definition wr4 :: "bytes \<Rightarrow> nat \<Rightarrow> u32 \<Rightarrow> bytes" where
  "wr4 buf off v = blit buf off (le_bytes 4 v)"

definition wr2 :: "bytes \<Rightarrow> nat \<Rightarrow> u16 \<Rightarrow> bytes" where
  "wr2 buf off v = blit buf off (le_bytes 2 v)"

definition wr1 :: "bytes \<Rightarrow> nat \<Rightarrow> u8 \<Rightarrow> bytes" where
  "wr1 buf off v = blit buf off [v]"

definition rd1 :: "bytes \<Rightarrow> nat \<Rightarrow> u8" where
  "rd1 buf off = buf ! off"

lemma length_wr [simp]:
  "off + 8 \<le> length buf \<Longrightarrow> length (wr8 buf off v8) = length buf"
  "off + 4 \<le> length buf \<Longrightarrow> length (wr4 buf off v4) = length buf"
  "off + 2 \<le> length buf \<Longrightarrow> length (wr2 buf off v2) = length buf"
  "off + 1 \<le> length buf \<Longrightarrow> length (wr1 buf off v1) = length buf"
  by (simp_all add: wr8_def wr4_def wr2_def wr1_def)

lemma rd_wr_same [buf_simps]:
  "off + 8 \<le> length buf \<Longrightarrow> rd8 (wr8 buf off v8) off = v8"
  "off + 4 \<le> length buf \<Longrightarrow> rd4 (wr4 buf off v4) off = v4"
  "off + 2 \<le> length buf \<Longrightarrow> rd2 (wr2 buf off v2) off = v2"
  by (simp_all add: rd8_def wr8_def rd4_def wr4_def rd2_def wr2_def chunk_blit_same
      le_word_le_bytes del: le_bytes.simps)
     (simp_all add: take_bit_word_eq_self)

lemma rd1_wr1_same [buf_simps]: "off < length buf \<Longrightarrow> rd1 (wr1 buf off v) off = v"
  by (simp add: rd1_def wr1_def nth_blit)

lemma rd_blit_disjoint [buf_simps]:
  assumes "o2 + length src \<le> length buf"
  shows "o1 + 8 \<le> o2 \<or> o2 + length src \<le> o1 \<Longrightarrow> rd8 (blit buf o2 src) o1 = rd8 buf o1"
    and "o1 + 4 \<le> o2 \<or> o2 + length src \<le> o1 \<Longrightarrow> rd4 (blit buf o2 src) o1 = rd4 buf o1"
    and "o1 + 2 \<le> o2 \<or> o2 + length src \<le> o1 \<Longrightarrow> rd2 (blit buf o2 src) o1 = rd2 buf o1"
  using assms by (simp_all add: rd8_def rd4_def rd2_def chunk_blit_disjoint)

lemma rd8_wr_disjoint [buf_simps]:
  "o2 + 8 \<le> length buf \<Longrightarrow> o1 + 8 \<le> o2 \<or> o2 + 8 \<le> o1 \<Longrightarrow> rd8 (wr8 buf o2 v8) o1 = rd8 buf o1"
  "o2 + 4 \<le> length buf \<Longrightarrow> o1 + 8 \<le> o2 \<or> o2 + 4 \<le> o1 \<Longrightarrow> rd8 (wr4 buf o2 v4) o1 = rd8 buf o1"
  "o2 + 2 \<le> length buf \<Longrightarrow> o1 + 8 \<le> o2 \<or> o2 + 2 \<le> o1 \<Longrightarrow> rd8 (wr2 buf o2 v2) o1 = rd8 buf o1"
  "o2 + 1 \<le> length buf \<Longrightarrow> o1 + 8 \<le> o2 \<or> o2 + 1 \<le> o1 \<Longrightarrow> rd8 (wr1 buf o2 v1) o1 = rd8 buf o1"
  by (simp_all add: wr8_def wr4_def wr2_def wr1_def rd_blit_disjoint del: le_bytes.simps)

lemma rd4_wr_disjoint [buf_simps]:
  "o2 + 8 \<le> length buf \<Longrightarrow> o1 + 4 \<le> o2 \<or> o2 + 8 \<le> o1 \<Longrightarrow> rd4 (wr8 buf o2 v8) o1 = rd4 buf o1"
  "o2 + 4 \<le> length buf \<Longrightarrow> o1 + 4 \<le> o2 \<or> o2 + 4 \<le> o1 \<Longrightarrow> rd4 (wr4 buf o2 v4) o1 = rd4 buf o1"
  "o2 + 2 \<le> length buf \<Longrightarrow> o1 + 4 \<le> o2 \<or> o2 + 2 \<le> o1 \<Longrightarrow> rd4 (wr2 buf o2 v2) o1 = rd4 buf o1"
  "o2 + 1 \<le> length buf \<Longrightarrow> o1 + 4 \<le> o2 \<or> o2 + 1 \<le> o1 \<Longrightarrow> rd4 (wr1 buf o2 v1) o1 = rd4 buf o1"
  by (simp_all add: wr8_def wr4_def wr2_def wr1_def rd_blit_disjoint del: le_bytes.simps)

lemma rd2_wr_disjoint [buf_simps]:
  "o2 + 8 \<le> length buf \<Longrightarrow> o1 + 2 \<le> o2 \<or> o2 + 8 \<le> o1 \<Longrightarrow> rd2 (wr8 buf o2 v8) o1 = rd2 buf o1"
  "o2 + 4 \<le> length buf \<Longrightarrow> o1 + 2 \<le> o2 \<or> o2 + 4 \<le> o1 \<Longrightarrow> rd2 (wr4 buf o2 v4) o1 = rd2 buf o1"
  "o2 + 2 \<le> length buf \<Longrightarrow> o1 + 2 \<le> o2 \<or> o2 + 2 \<le> o1 \<Longrightarrow> rd2 (wr2 buf o2 v2) o1 = rd2 buf o1"
  "o2 + 1 \<le> length buf \<Longrightarrow> o1 + 2 \<le> o2 \<or> o2 + 1 \<le> o1 \<Longrightarrow> rd2 (wr1 buf o2 v1) o1 = rd2 buf o1"
  by (simp_all add: wr8_def wr4_def wr2_def wr1_def rd_blit_disjoint del: le_bytes.simps)

lemma rd1_wr_disjoint [buf_simps]:
  "o2 + 8 \<le> length buf \<Longrightarrow> o1 < length buf \<Longrightarrow> o1 < o2 \<or> o2 + 8 \<le> o1 \<Longrightarrow> rd1 (wr8 buf o2 v8) o1 = rd1 buf o1"
  "o2 + 4 \<le> length buf \<Longrightarrow> o1 < length buf \<Longrightarrow> o1 < o2 \<or> o2 + 4 \<le> o1 \<Longrightarrow> rd1 (wr4 buf o2 v4) o1 = rd1 buf o1"
  "o2 + 2 \<le> length buf \<Longrightarrow> o1 < length buf \<Longrightarrow> o1 < o2 \<or> o2 + 2 \<le> o1 \<Longrightarrow> rd1 (wr2 buf o2 v2) o1 = rd1 buf o1"
  "o2 + 1 \<le> length buf \<Longrightarrow> o1 < length buf \<Longrightarrow> o1 < o2 \<or> o2 + 1 \<le> o1 \<Longrightarrow> rd1 (wr1 buf o2 v1) o1 = rd1 buf o1"
  by (auto simp: wr8_def wr4_def wr2_def wr1_def rd1_def nth_blit simp del: le_bytes.simps)

lemma le_word_zero: "le_word (zero_bytes n) = 0"
  by (induction n) auto

lemma rd_zero_bytes [simp]:
  "off + 8 \<le> n \<Longrightarrow> rd8 (zero_bytes n) off = 0"
  "off + 4 \<le> n \<Longrightarrow> rd4 (zero_bytes n) off = 0"
  "off + 2 \<le> n \<Longrightarrow> rd2 (zero_bytes n) off = 0"
  by (simp_all add: rd8_def rd4_def rd2_def chunk_def le_word_zero)

text \<open>Signed views: an \<^verbatim>\<open>int64_t\<close> or \<^verbatim>\<open>int32_t\<close> field read into arithmetic.\<close>

abbreviation rd8i :: "bytes \<Rightarrow> nat \<Rightarrow> int" where
  "rd8i buf off \<equiv> sint (rd8 buf off)"

abbreviation wr8i :: "bytes \<Rightarrow> nat \<Rightarrow> int \<Rightarrow> bytes" where
  "wr8i buf off v \<equiv> wr8 buf off (word_of_int v)"

abbreviation rd4i :: "bytes \<Rightarrow> nat \<Rightarrow> int" where
  "rd4i buf off \<equiv> sint (rd4 buf off)"

abbreviation wr4i :: "bytes \<Rightarrow> nat \<Rightarrow> int \<Rightarrow> bytes" where
  "wr4i buf off v \<equiv> wr4 buf off (word_of_int v)"

definition i64 :: "int \<Rightarrow> bool" where
  "i64 v \<longleftrightarrow> - (2 ^ 63) \<le> v \<and> v < 2 ^ 63"

definition i32 :: "int \<Rightarrow> bool" where
  "i32 v \<longleftrightarrow> - (2 ^ 31) \<le> v \<and> v < 2 ^ 31"

lemma sint_word_of_int_64 [simp]: "i64 v \<Longrightarrow> sint (word_of_int v :: u64) = v"
  by (simp add: i64_def sint_sbintrunc' signed_take_bit_int_eq_self)

lemma sint_word_of_int_32 [simp]: "i32 v \<Longrightarrow> sint (word_of_int v :: u32) = v"
  by (simp add: i32_def sint_sbintrunc' signed_take_bit_int_eq_self)

lemma i64_sint [simp]: "i64 (sint (w :: u64))"
  using sint_ge [of w] sint_lt [of w] by (simp add: i64_def)

end
