(* ===== verification/Crc32c.thy ===== *)
theory Crc32c
  imports Prelude
begin

text \<open>
  The page checksum, \<^verbatim>\<open>src/crc32c.c\<close>. Three implementations are in the source:
  the table-driven fallback and two hardware paths with the same chunking, over
  CPU intrinsics. The intrinsics are parameters here; what is assumed of them is
  the documented effect of the instructions: shift the xor of register and
  operand through the reflected Castagnoli polynomial, one bit at a time.

  The reference definition \<open>crc32c_spec\<close> is the bit-serial register. The lemmas
  show that both paths compute it, and what the checksum detects.
\<close>

section \<open>The bit-serial reference\<close>

definition crc_poly :: "'a::len word" where
  "crc_poly = 0x82F63B78"

definition crc_step :: "'a::len word \<Rightarrow> 'a word" where
  "crc_step crc = drop_bit 1 crc XOR (if odd crc then crc_poly else 0)"

definition crc_byte :: "u32 \<Rightarrow> u8 \<Rightarrow> u32" where
  "crc_byte crc b = (crc_step ^^ 8) (crc XOR ucast b)"

definition crc32c_spec :: "bytes \<Rightarrow> u32" where
  "crc32c_spec data = foldl crc_byte 0xFFFFFFFF data XOR 0xFFFFFFFF"

section \<open>The table-driven path\<close>

definition crc32c_table_entry :: "u32 \<Rightarrow> u32" where
  "crc32c_table_entry i = fold (\<lambda>_ crc. drop_bit 1 crc XOR (if odd crc then 0x82F63B78 else 0)) [0..<8] i"

definition s_crc32c_table :: "u32 list" where
  "s_crc32c_table = map (\<lambda>i. crc32c_table_entry (of_nat i)) [0..<256]"

definition vfs_crc32c_sw :: "bytes \<Rightarrow> u32" where
  "vfs_crc32c_sw data =
     foldl (\<lambda>crc b. drop_bit 8 crc XOR s_crc32c_table ! unat ((crc XOR ucast b) AND 0xFF))
       0xFFFFFFFF data XOR 0xFFFFFFFF"

section \<open>The hardware path\<close>

text \<open>
  \<open>vfs_crc32c_hw_x86\<close> and \<open>vfs_crc32c_hw_arm\<close> differ only in the names of the
  intrinsics (\<^verbatim>\<open>_mm_crc32_u64\<close>, \<^verbatim>\<open>__crc32cd\<close>, \<dots>), which are the three parameters.
\<close>

fun hw_loop8 :: "(u32 \<Rightarrow> u64 \<Rightarrow> u32) \<Rightarrow> u32 \<Rightarrow> bytes \<Rightarrow> u32 \<times> bytes" where
  "hw_loop8 c64 crc data =
     (if 8 \<le> length data then hw_loop8 c64 (c64 crc (le_word (take 8 data))) (drop 8 data)
      else (crc, data))"

fun hw_loop4 :: "(u32 \<Rightarrow> u32 \<Rightarrow> u32) \<Rightarrow> u32 \<Rightarrow> bytes \<Rightarrow> u32 \<times> bytes" where
  "hw_loop4 c32 crc data =
     (if 4 \<le> length data then hw_loop4 c32 (c32 crc (le_word (take 4 data))) (drop 4 data)
      else (crc, data))"

declare hw_loop8.simps [simp del] hw_loop4.simps [simp del]

definition vfs_crc32c_hw ::
  "(u32 \<Rightarrow> u64 \<Rightarrow> u32) \<Rightarrow> (u32 \<Rightarrow> u32 \<Rightarrow> u32) \<Rightarrow> (u32 \<Rightarrow> u8 \<Rightarrow> u32) \<Rightarrow> bytes \<Rightarrow> u32" where
  "vfs_crc32c_hw c64 c32 c8 data =
     (let (crc, rest) = hw_loop8 c64 0xFFFFFFFF data;
          (crc, rest) = hw_loop4 c32 crc rest
      in foldl c8 crc rest XOR 0xFFFFFFFF)"

text \<open>
  The public entry point; \<open>None\<close> is a \<^verbatim>\<open>NULL\<close> pointer, \<open>impl\<close> the path the build
  selects.
\<close>

definition vfs_crc32c :: "(bytes \<Rightarrow> u32) \<Rightarrow> bytes option \<Rightarrow> u32" where
  "vfs_crc32c impl data =
     (case data of None \<Rightarrow> 0 | Some d \<Rightarrow> if length d = 0 then 0 else impl d)"

section \<open>Linearity of the register\<close>

lemma xor_left_cancel [simp]: "x XOR y = x XOR z \<longleftrightarrow> y = z" for x :: "'a::len word"
proof
  assume "x XOR y = x XOR z"
  then have "x XOR (x XOR y) = x XOR (x XOR z)" by simp
  then show "y = z" by (simp flip: xor.assoc)
qed simp

lemma xor_right_cancel [simp]: "y XOR x = z XOR x \<longleftrightarrow> y = z" for x :: "'a::len word"
  using xor_left_cancel [of x y z] by (simp only: xor.commute)

lemma xor_eq_0_iff: "x XOR y = 0 \<longleftrightarrow> x = y" for x :: "'a::len word"
  using xor_left_cancel [of x y x] by auto

lemma odd_xor_word: "odd (x XOR y :: 'a::len word) \<longleftrightarrow> odd x \<noteq> odd y"
  by (simp flip: bit_0 add: bit_xor_iff)

lemma crc_step_xor: "crc_step (x XOR y) = crc_step x XOR crc_step y"
proof -
  have "drop_bit 1 (x XOR y) = drop_bit 1 x XOR drop_bit 1 y"
    by (rule drop_bit_xor)
  then show ?thesis
    by (simp add: crc_step_def odd_xor_word ac_simps)
qed

lemma crc_step_pow_xor: "(crc_step ^^ n) (x XOR y) = (crc_step ^^ n) x XOR (crc_step ^^ n) y"
  by (induction n) (simp_all add: crc_step_xor)

text \<open>Bits above the ones being shifted out only move.\<close>

lemma crc_step_pow_high:
  assumes "take_bit n x = 0"
  shows "(crc_step ^^ n) x = drop_bit n x"
  using assms
proof (induction n)
  case (Suc n)
  have "take_bit n x = take_bit n (take_bit (Suc n) x)" by simp
  then have z: "take_bit n x = 0" using Suc.prems by simp
  have "\<not> bit x n"
    using Suc.prems by (metis bit_take_bit_iff lessI bit_0_eq bot_apply bot_bool_def)
  then have "even (drop_bit n x)"
    by (simp add: bit_iff_odd_drop_bit)
  then show ?case using Suc.IH [OF z] by (simp add: crc_step_def)
qed simp

lemma split_low_high: "x = take_bit n x XOR (x AND NOT (mask n))" for x :: "'a::len word"
  by (rule bit_word_eqI) (auto simp: bit_simps)

lemma crc_step_pow_split:
  "(crc_step ^^ n) x = (crc_step ^^ n) (take_bit n x) XOR drop_bit n x"
proof -
  have "take_bit n (x AND NOT (mask n)) = 0"
    by (rule bit_word_eqI) (auto simp: bit_simps)
  moreover have "drop_bit n (x AND NOT (mask n)) = drop_bit n x"
    by (rule bit_word_eqI) (auto simp: bit_simps dest: bit_imp_le_length)
  ultimately have "(crc_step ^^ n) (x AND NOT (mask n)) = drop_bit n x"
    by (simp add: crc_step_pow_high)
  then show ?thesis
    using crc_step_pow_xor [of n "take_bit n x" "x AND NOT (mask n)"] split_low_high [of x n]
    by simp
qed

section \<open>The table-driven path computes the reference\<close>

lemma crc32c_table_entry_eq: "crc32c_table_entry i = (crc_step ^^ 8) i"
proof -
  have "fold (\<lambda>_. crc_step) [0..<n] i = (crc_step ^^ n) i" for n
    by (induction n) auto
  moreover have "(\<lambda>crc :: u32. drop_bit 1 crc XOR (if odd crc then 0x82F63B78 else 0)) = crc_step"
    by (rule ext) (simp add: crc_step_def crc_poly_def)
  ultimately show ?thesis by (simp only: crc32c_table_entry_def)
qed

lemma s_crc32c_table_nth: "unat w < 256 \<Longrightarrow> s_crc32c_table ! unat w = (crc_step ^^ 8) w"
  by (simp add: s_crc32c_table_def crc32c_table_entry_eq)

lemma ucast8_drop8 [simp]: "drop_bit 8 (ucast (b :: u8) :: u32) = 0"
  by (rule bit_word_eqI) (auto simp: bit_simps dest: bit_imp_le_length)

lemma and_255: "x AND 0xFF = take_bit 8 x" for x :: u32
  by (simp add: take_bit_eq_mask mask_eq_exp_minus_1)

lemma sw_round:
  "drop_bit 8 crc XOR s_crc32c_table ! unat ((crc XOR ucast b) AND 0xFF) = crc_byte crc b"
proof -
  let ?x = "crc XOR ucast b :: u32"
  have "unat (take_bit 8 ?x) < 256"
    by (simp add: take_bit_eq_mod unat_mod)
  then have "s_crc32c_table ! unat (?x AND 0xFF) = (crc_step ^^ 8) (take_bit 8 ?x)"
    by (simp only: and_255 s_crc32c_table_nth)
  moreover have "drop_bit 8 ?x = drop_bit 8 crc" by (simp add: drop_bit_xor)
  ultimately show ?thesis
    using crc_step_pow_split [of 8 ?x] by (simp only: crc_byte_def xor.commute)
qed

lemma crc32c_sw_eq_spec: "vfs_crc32c_sw data = crc32c_spec data"
  by (simp only: vfs_crc32c_sw_def crc32c_spec_def sw_round)

section \<open>The hardware path computes the reference\<close>

lemma crc_step_ucast:
  assumes "32 \<le> LENGTH('a::len)"
  shows "crc_step (ucast (x :: u32) :: 'a word) = ucast (crc_step x)"
proof -
  have "odd (ucast x :: 'a word) = odd x"
    by (simp flip: bit_0 add: bit_simps)
  moreover have "(ucast (crc_poly :: u32) :: 'a word) = crc_poly"
    using assms by (simp add: crc_poly_def unsigned_ucast_eq)
  moreover have "drop_bit 1 (ucast x :: 'a word) = ucast (drop_bit 1 x)"
    using assms by (intro bit_word_eqI) (auto simp: bit_simps dest: bit_imp_le_length)
  ultimately show ?thesis
    by (auto simp: crc_step_def unsigned_xor_eq)
qed

lemma crc_step_pow_ucast:
  assumes "32 \<le> LENGTH('a::len)"
  shows "(crc_step ^^ n) (ucast (x :: u32) :: 'a word) = ucast ((crc_step ^^ n) x)"
  by (induction n) (simp_all add: crc_step_ucast [OF assms])

lemma crc_step_bytes:
  assumes "32 \<le> LENGTH('a::len)" "8 * length bs \<le> LENGTH('a)"
  shows "(crc_step ^^ (8 * length bs)) (ucast c XOR le_word bs :: 'a word)
       = ucast (foldl crc_byte c bs)"
  using assms(2)
proof (induction bs arbitrary: c)
  case (Cons b bs)
  let ?w = "le_word bs :: 'a word"
  have sp: "le_word (b # bs) = ucast b XOR push_bit 8 ?w"
    by (rule bit_word_eqI) (auto simp: bit_simps dest: bit_imp_le_length)
  have hi: "(crc_step ^^ 8) (push_bit 8 ?w) = ?w"
  proof -
    have "drop_bit 8 (push_bit 8 ?w) = ?w"
      using Cons.prems
      by (intro bit_word_eqI) (auto simp: bit_simps dest: bit_imp_le_length bit_le_word_imp_less)
    moreover have "take_bit 8 (push_bit 8 ?w) = 0"
      by (rule bit_word_eqI) (auto simp: bit_simps)
    ultimately show ?thesis by (simp add: crc_step_pow_high)
  qed
  have lo: "ucast c XOR ucast b = (ucast (c XOR ucast b) :: 'a word)"
    using assms(1) by (intro bit_word_eqI) (auto simp: bit_simps dest: bit_imp_le_length)
  have "(crc_step ^^ 8) (ucast c XOR le_word (b # bs) :: 'a word)
      = (crc_step ^^ 8) (ucast (c XOR ucast b) XOR push_bit 8 ?w)"
    by (simp only: sp lo [symmetric] xor.assoc)
  also have "\<dots> = ucast (crc_byte c b) XOR ?w"
    by (simp only: crc_step_pow_xor hi crc_step_pow_ucast [OF assms(1)] crc_byte_def)
  finally have "(crc_step ^^ (8 * length bs + 8)) (ucast c XOR le_word (b # bs) :: 'a word)
      = (crc_step ^^ (8 * length bs)) (ucast (crc_byte c b) XOR ?w)"
    by (simp only: funpow_add comp_apply)
  then show ?case using Cons by (simp add: add.commute)
qed simp

text \<open>
  What the instruction references document: the operand is xored into the
  register and shifted out bit by bit.
\<close>

definition crc_intrinsics ::
  "(u32 \<Rightarrow> u64 \<Rightarrow> u32) \<Rightarrow> (u32 \<Rightarrow> u32 \<Rightarrow> u32) \<Rightarrow> (u32 \<Rightarrow> u8 \<Rightarrow> u32) \<Rightarrow> bool" where
  "crc_intrinsics c64 c32 c8 \<longleftrightarrow>
     (\<forall>c w. c64 c w = ucast ((crc_step ^^ 64) (ucast c XOR w))) \<and>
     (\<forall>c w. c32 c w = (crc_step ^^ 32) (c XOR w)) \<and>
     (\<forall>c b. c8 c b = (crc_step ^^ 8) (c XOR ucast b))"

lemma c64_bytes:
  assumes "crc_intrinsics c64 c32 c8" "length bs = 8"
  shows "c64 c (le_word bs) = foldl crc_byte c bs"
proof -
  have "(crc_step ^^ 64) (ucast c XOR le_word bs :: u64) = ucast (foldl crc_byte c bs)"
    using crc_step_bytes [where 'a = 64, of bs c] assms(2) by simp
  then show ?thesis
    using assms(1) by (simp add: crc_intrinsics_def unsigned_ucast_eq take_bit_word_eq_self)
qed

lemma c32_bytes:
  assumes "crc_intrinsics c64 c32 c8" "length bs = 4"
  shows "c32 c (le_word bs) = foldl crc_byte c bs"
  using crc_step_bytes [where 'a = 32, of bs c] assms
  by (simp add: crc_intrinsics_def)

lemma hw_loop8_fold:
  assumes "crc_intrinsics c64 c32 c8" "hw_loop8 c64 c data = (c', rest)"
  shows "foldl crc_byte c' rest = foldl crc_byte c data"
  using assms(2)
proof (induction data arbitrary: c rule: length_induct)
  case (1 data)
  show ?case
  proof (cases "8 \<le> length data")
    case True
    have "hw_loop8 c64 (foldl crc_byte c (take 8 data)) (drop 8 data) = (c', rest)"
      using 1(2) True c64_bytes [OF assms(1), of "take 8 data"]
      by (simp add: hw_loop8.simps [of c64 c])
    with 1(1) True have "foldl crc_byte c' rest
        = foldl crc_byte (foldl crc_byte c (take 8 data)) (drop 8 data)" by simp
    then show ?thesis by (simp only: foldl_append [symmetric] append_take_drop_id)
  next
    case False
    with 1(2) show ?thesis by (simp add: hw_loop8.simps [of c64 c])
  qed
qed

lemma hw_loop4_fold:
  assumes "crc_intrinsics c64 c32 c8" "hw_loop4 c32 c data = (c', rest)"
  shows "foldl crc_byte c' rest = foldl crc_byte c data"
  using assms(2)
proof (induction data arbitrary: c rule: length_induct)
  case (1 data)
  show ?case
  proof (cases "4 \<le> length data")
    case True
    have "hw_loop4 c32 (foldl crc_byte c (take 4 data)) (drop 4 data) = (c', rest)"
      using 1(2) True c32_bytes [OF assms(1), of "take 4 data"]
      by (simp add: hw_loop4.simps [of c32 c])
    with 1(1) True have "foldl crc_byte c' rest
        = foldl crc_byte (foldl crc_byte c (take 4 data)) (drop 4 data)" by simp
    then show ?thesis by (simp only: foldl_append [symmetric] append_take_drop_id)
  next
    case False
    with 1(2) show ?thesis by (simp add: hw_loop4.simps [of c32 c])
  qed
qed

lemma crc32c_hw_eq_spec:
  assumes "crc_intrinsics c64 c32 c8"
  shows "vfs_crc32c_hw c64 c32 c8 data = crc32c_spec data"
proof -
  obtain c1 r1 where l8: "hw_loop8 c64 0xFFFFFFFF data = (c1, r1)" by fastforce
  obtain c2 r2 where l4: "hw_loop4 c32 c1 r1 = (c2, r2)" by fastforce
  have "c8 = crc_byte"
    using assms by (intro ext) (simp add: crc_intrinsics_def crc_byte_def)
  then show ?thesis
    using hw_loop8_fold [OF assms l8] hw_loop4_fold [OF assms l4]
    by (simp add: vfs_crc32c_hw_def crc32c_spec_def l8 l4)
qed

section \<open>What the checksum detects\<close>

lemma crc_step_eq_0: "crc_step (z :: u32) = 0 \<Longrightarrow> z = 0"
proof (rule ccontr)
  assume z: "crc_step z = 0" "z \<noteq> 0"
  show False
  proof (cases "odd z")
    case True
    then have "drop_bit 1 z XOR crc_poly = 0" using z(1) by (simp add: crc_step_def)
    then have "drop_bit 1 z = crc_poly" by (simp only: xor_eq_0_iff)
    then have "bit (drop_bit 1 z) 31" by (simp add: crc_poly_def)
    then show False by (auto simp: bit_simps dest: bit_imp_le_length)
  next
    case False
    have "drop_bit 1 z = 0" using z(1) False by (simp add: crc_step_def)
    then have "\<not> bit z (Suc m)" for m
      using bit_drop_bit_eq [of 1 z] by (simp add: fun_eq_iff)
    moreover have "\<not> bit z 0" using False by (simp add: bit_0)
    ultimately have "\<not> bit z n" for n by (cases n) auto
    then have "z = 0" by (intro bit_word_eqI) simp
    with z(2) show False by simp
  qed
qed

lemma crc_step_pow_inj: "(crc_step ^^ n) x = (crc_step ^^ n) y \<Longrightarrow> x = (y :: u32)"
proof (induction n)
  case (Suc n)
  have "crc_step ((crc_step ^^ n) x XOR (crc_step ^^ n) y) = 0"
    using Suc.prems by (simp add: crc_step_xor)
  then have "(crc_step ^^ n) x XOR (crc_step ^^ n) y = 0" by (rule crc_step_eq_0)
  then have "(crc_step ^^ n) x = (crc_step ^^ n) y" by (simp only: xor_eq_0_iff)
  then show ?case by (rule Suc.IH)
qed simp

lemma crc_byte_inj: "crc_byte c b = crc_byte c' b \<Longrightarrow> c = c'"
  unfolding crc_byte_def
  by (drule crc_step_pow_inj) (simp only: xor_right_cancel)

lemma foldl_crc_byte_inj: "foldl crc_byte c bs = foldl crc_byte c' bs \<Longrightarrow> c = c'"
  by (induction bs arbitrary: c c') (auto dest: crc_byte_inj)

lemma foldl_crc_byte_window:
  assumes "length bs = length bs'" "length bs \<le> 4"
    and "foldl crc_byte c bs = foldl crc_byte c bs'"
  shows "bs = bs'"
proof -
  have "(crc_step ^^ (8 * length bs)) (c XOR le_word bs)
      = (crc_step ^^ (8 * length bs)) (c XOR le_word bs' :: u32)"
    using crc_step_bytes [where 'a = 32, of bs c] crc_step_bytes [where 'a = 32, of bs' c] assms
    by simp
  then have "c XOR le_word bs = c XOR (le_word bs' :: u32)" by (rule crc_step_pow_inj)
  then have "le_word bs = (le_word bs' :: u32)" by (simp only: xor_left_cancel)
  moreover have "le_bytes (length bs) (le_word bs :: u32) = bs"
    using assms(2) by (intro le_bytes_le_word) simp
  moreover have "le_bytes (length bs) (le_word bs' :: u32) = bs'"
    using assms(1,2) le_bytes_le_word [where 'a = 32, of bs'] by simp
  ultimately show ?thesis by metis
qed

lemma crc32c_spec_burst:
  assumes "length b = length b'" "length b \<le> 4" "b \<noteq> b'"
  shows "crc32c_spec (pre @ b @ post) \<noteq> crc32c_spec (pre @ b' @ post)"
proof
  assume "crc32c_spec (pre @ b @ post) = crc32c_spec (pre @ b' @ post)"
  then have "foldl crc_byte 0xFFFFFFFF (pre @ b @ post) = foldl crc_byte 0xFFFFFFFF (pre @ b' @ post)"
    by (simp only: crc32c_spec_def xor_right_cancel)
  then have "foldl crc_byte (foldl crc_byte 0xFFFFFFFF pre) b
           = foldl crc_byte (foldl crc_byte 0xFFFFFFFF pre) b'"
    by (auto dest: foldl_crc_byte_inj)
  with assms show False by (blast dest: foldl_crc_byte_window)
qed

section \<open>Properties\<close>

text \<open>C1: the table-driven checksum computes the bit-serial CRC-32C register on every buffer.\<close>

theorem vfs_crc32c_sw_correct: "vfs_crc32c vfs_crc32c_sw (Some data) = (if data = [] then 0 else crc32c_spec data)"
  by (simp add: vfs_crc32c_def crc32c_sw_eq_spec)

text \<open>C2: on a CPU whose CRC instructions do what their references document, the chunked
  hardware path (8 bytes, then 4, then single bytes) returns the same checksum as the
  table-driven path, for every buffer.\<close>

theorem vfs_crc32c_hw_correct:
  assumes "crc_intrinsics c64 c32 c8"
  shows "vfs_crc32c (vfs_crc32c_hw c64 c32 c8) data = vfs_crc32c vfs_crc32c_sw data"
  using crc32c_hw_eq_spec [OF assms] by (simp add: vfs_crc32c_def crc32c_sw_eq_spec split: option.split)

theorem vfs_crc32c_hw_correct_witness:
  "vfs_crc32c (vfs_crc32c_hw (\<lambda>c w. ucast ((crc_step ^^ 64) (ucast c XOR w)))
      (\<lambda>c w. (crc_step ^^ 32) (c XOR w)) (\<lambda>c b. (crc_step ^^ 8) (c XOR ucast b)))
      (Some [1, 2, 3, 4, 5, 6, 7, 8, 9, 10, 11, 12, 13])
   = vfs_crc32c vfs_crc32c_sw (Some [1, 2, 3, 4, 5, 6, 7, 8, 9, 10, 11, 12, 13])"
  by (rule vfs_crc32c_hw_correct) (simp add: crc_intrinsics_def)

text \<open>C3: the checksum detects every corruption confined to four adjacent bytes, wherever it
  is in the buffer.\<close>

theorem vfs_crc32c_burst:
  assumes "length b = length b'" "length b \<le> 4" "b \<noteq> b'"
  shows "vfs_crc32c vfs_crc32c_sw (Some (pre @ b @ post)) \<noteq> vfs_crc32c vfs_crc32c_sw (Some (pre @ b' @ post))"
proof -
  have "b \<noteq> []" "b' \<noteq> []" using assms by auto
  with crc32c_spec_burst [OF assms] show ?thesis by (simp add: vfs_crc32c_def crc32c_sw_eq_spec)
qed

theorem vfs_crc32c_burst_witness:
  "vfs_crc32c vfs_crc32c_sw (Some ([7] @ [1, 2, 3, 4] @ [9])) \<noteq> vfs_crc32c vfs_crc32c_sw (Some ([7] @ [0, 2, 3, 5] @ [9]))"
  by (rule vfs_crc32c_burst) simp_all

end
