(* ===== verification/Storage.thy ===== *)
theory Storage
  imports Crc32c "HOL-Library.Monad_Syntax"
begin

text \<open>
  The state of the page store and its two in-memory tables:

  \<^item> the handle \<^verbatim>\<open>StorageBackend\<close> of \<^verbatim>\<open>src/storage.h\<close>, with the backing file as a
    byte list and the outcomes of system calls and heap allocations as streams
    the calls consume;
  \<^item> the page cache of \<^verbatim>\<open>src/page_cache.c\<close>;
  \<^item> the indirection table of \<^verbatim>\<open>src/indirection.c\<close>, inline in the header page and
    continued in overflow pages.

  The lemmas show the read-over-write laws of both tables, that every operation
  keeps their well-formedness, and that growing the indirection table keeps the
  entries it already has.
\<close>

section \<open>Data\<close>

subsection \<open>Page cache (storage.h)\<close>

record CacheEntry =
  ce_page :: int
  ce_payload :: bytes
  ce_priority :: nat
  ce_dirty :: bool
  ce_timestamp :: u64

text \<open>
  Bucket chains are lists, head first. \<open>evict_due\<close> records that an insert
  reached the budget, where the code runs \<^verbatim>\<open>cache_evict_batch\<close>; eviction is not
  modelled and the entries stay.
\<close>

record PageCache =
  buckets :: "CacheEntry list list"
  entry_count :: int
  max_entries :: int
  dirty_count :: int
  lru_clock :: u64
  evict_due :: bool

subsection \<open>Storage backend (storage.h)\<close>

text \<open>
  \<open>sb_io\<close> is the fate of the coming \<^verbatim>\<open>pread\<close>/\<^verbatim>\<open>pwrite\<close> calls: \<open>Some k\<close> transfers at
  most \<open>k\<close> bytes (an error, a short transfer or a crash in the middle of the
  call), \<open>None\<close> and the end of the list transfer everything. \<open>sb_heap\<close> is the fate of the coming
  heap allocations: \<open>False\<close> is a \<^verbatim>\<open>NULL\<close> result.
\<close>

record StorageBackend =
  sb_file :: bytes
  sb_io :: "nat option list"
  sb_heap :: "bool list"
  page_size :: nat
  total_pages :: int
  segment_size :: u32
  physical_tail :: int
  indirection_head :: int
  header_buf :: bytes
  overflow_pages :: "bytes list"
  overflow_logical :: "int list"
  overflow_cap :: nat
  sb_cache :: PageCache
  deferred_queue :: "int list option"

record PageHeader =
  ph_flags :: u32
  ph_checksum :: u32
  ph_generation :: u32
  ph_mirror_page :: u32

abbreviation (input) PAGE_HEADER_SIZE :: nat where "PAGE_HEADER_SIZE \<equiv> 16"
abbreviation (input) XVFS_MAGIC :: u32 where "XVFS_MAGIC \<equiv> 0x56585346"

abbreviation (input) HDR_OFF_TOTAL_PAGES :: nat where "HDR_OFF_TOTAL_PAGES \<equiv> 0"
abbreviation (input) HDR_OFF_PAGE_SIZE :: nat where "HDR_OFF_PAGE_SIZE \<equiv> 8"
abbreviation (input) HDR_OFF_SEGMENT_SIZE :: nat where "HDR_OFF_SEGMENT_SIZE \<equiv> 16"
abbreviation (input) HDR_OFF_PHYS_TAIL :: nat where "HDR_OFF_PHYS_TAIL \<equiv> 24"
abbreviation (input) HDR_OFF_INDIR_HEAD :: nat where "HDR_OFF_INDIR_HEAD \<equiv> 32"
abbreviation (input) HDR_OFF_FREE_LIST_HEAD :: nat where "HDR_OFF_FREE_LIST_HEAD \<equiv> 40"
abbreviation (input) HDR_OFF_FREE_LIST_TAIL :: nat where "HDR_OFF_FREE_LIST_TAIL \<equiv> 48"
abbreviation (input) HDR_OFF_FREE_LIST_COUNT :: nat where "HDR_OFF_FREE_LIST_COUNT \<equiv> 56"
abbreviation (input) HDR_OFF_BIN_HEAD :: nat where "HDR_OFF_BIN_HEAD \<equiv> 64"
abbreviation (input) HDR_OFF_BIN_TAIL :: nat where "HDR_OFF_BIN_TAIL \<equiv> 72"
abbreviation (input) HDR_OFF_BIN_COUNT :: nat where "HDR_OFF_BIN_COUNT \<equiv> 80"
abbreviation (input) HDR_OFF_RESERVED :: nat where "HDR_OFF_RESERVED \<equiv> 88"
abbreviation (input) HDR_OFF_ENTRIES :: nat where "HDR_OFF_ENTRIES \<equiv> 96"

abbreviation (input) FLUSH_PRIO_DATA :: nat where "FLUSH_PRIO_DATA \<equiv> 0"
abbreviation (input) FLUSH_PRIO_POOL :: nat where "FLUSH_PRIO_POOL \<equiv> 1"
abbreviation (input) FLUSH_PRIO_INDIR :: nat where "FLUSH_PRIO_INDIR \<equiv> 2"
abbreviation (input) FLUSH_PRIO_SUPERBLOCK :: nat where "FLUSH_PRIO_SUPERBLOCK \<equiv> 3"

definition ph_bytes :: "PageHeader \<Rightarrow> bytes" where
  "ph_bytes ph = le_bytes 4 (ph_flags ph) @ le_bytes 4 (ph_checksum ph)
     @ le_bytes 4 (ph_generation ph) @ le_bytes 4 (ph_mirror_page ph)"

definition ph_parse :: "bytes \<Rightarrow> PageHeader" where
  "ph_parse b = \<lparr>ph_flags = rd4 b 0, ph_checksum = rd4 b 4, ph_generation = rd4 b 8,
     ph_mirror_page = rd4 b 12\<rparr>"

definition phys_record_size :: "StorageBackend \<Rightarrow> int" where
  "phys_record_size sb = int (page_size sb) + int PAGE_HEADER_SIZE"

definition inline_entry_count :: "nat \<Rightarrow> int" where
  "inline_entry_count ps = (int ps - int HDR_OFF_ENTRIES) div 8"

section \<open>System calls and heap\<close>

definition io_limit :: "StorageBackend \<Rightarrow> bytes \<Rightarrow> bytes" where
  "io_limit sb data = (case sb_io sb of Some k # _ \<Rightarrow> take k data | _ \<Rightarrow> data)"

definition pread :: "StorageBackend \<Rightarrow> nat \<Rightarrow> int \<Rightarrow> bytes \<times> StorageBackend" where
  "pread sb n off =
     (if off < 0 then [] else io_limit sb (chunk (sb_file sb) (nat off) n),
      sb\<lparr>sb_io := tl (sb_io sb)\<rparr>)"

definition file_write :: "bytes \<Rightarrow> nat \<Rightarrow> bytes \<Rightarrow> bytes" where
  "file_write f off data =
     (if data = [] then f
      else blit (f @ zero_bytes (off + length data - length f)) off data)"

definition pwrite :: "StorageBackend \<Rightarrow> bytes \<Rightarrow> int \<Rightarrow> nat \<times> StorageBackend" where
  "pwrite sb data off =
     (let d = (if off < 0 then [] else io_limit sb data)
      in (length d, sb\<lparr>sb_file := file_write (sb_file sb) (nat off) d, sb_io := tl (sb_io sb)\<rparr>))"

definition malloc :: "StorageBackend \<Rightarrow> bool \<times> StorageBackend" where
  "malloc sb = (case sb_heap sb of [] \<Rightarrow> (True, sb) | ok # r \<Rightarrow> (ok, sb\<lparr>sb_heap := r\<rparr>))"

section \<open>Page cache (page\_cache.c)\<close>

definition hash_page :: "int \<Rightarrow> u64" where
  "hash_page page =
     (let x = word_of_int page;
          x = x XOR drop_bit 30 x;
          x = x * 0xBF58476D1CE4E5B9;
          x = x XOR drop_bit 27 x;
          x = x * 0x94D049BB133111EB
      in x XOR drop_bit 31 x)"

definition bucket_index :: "PageCache \<Rightarrow> int \<Rightarrow> nat" where
  "bucket_index c page = unat (hash_page page AND word_of_int (int (length (buckets c)) - 1))"

text \<open>The first entry of a chain for a page, and its in-place update.\<close>

fun chain_find :: "int \<Rightarrow> CacheEntry list \<Rightarrow> CacheEntry option" where
  "chain_find page [] = None"
| "chain_find page (e # es) = (if ce_page e = page then Some e else chain_find page es)"

fun chain_update :: "int \<Rightarrow> (CacheEntry \<Rightarrow> CacheEntry) \<Rightarrow> CacheEntry list \<Rightarrow> CacheEntry list" where
  "chain_update page f [] = []"
| "chain_update page f (e # es) =
     (if ce_page e = page then f e # es else e # chain_update page f es)"

fun chain_unlink :: "int \<Rightarrow> CacheEntry list \<Rightarrow> CacheEntry list" where
  "chain_unlink page [] = []"
| "chain_unlink page (e # es) = (if ce_page e = page then es else e # chain_unlink page es)"

definition bucket_of :: "PageCache \<Rightarrow> int \<Rightarrow> CacheEntry list" where
  "bucket_of c page = buckets c ! bucket_index c page"

definition set_bucket :: "PageCache \<Rightarrow> int \<Rightarrow> CacheEntry list \<Rightarrow> PageCache" where
  "set_bucket c page es = c\<lparr>buckets := (buckets c)[bucket_index c page := es]\<rparr>"

definition cache_peek :: "PageCache \<Rightarrow> int \<Rightarrow> CacheEntry option" where
  "cache_peek c page = chain_find page (bucket_of c page)"

definition cache_modify :: "PageCache \<Rightarrow> int \<Rightarrow> (CacheEntry \<Rightarrow> CacheEntry) \<Rightarrow> PageCache" where
  "cache_modify c page f = set_bucket c page (chain_update page f (bucket_of c page))"

definition lru_promote :: "PageCache \<Rightarrow> int \<Rightarrow> PageCache" where
  "lru_promote c page =
     (let t = lru_clock c + 1
      in cache_modify (c\<lparr>lru_clock := t\<rparr>) page (\<lambda>e. e\<lparr>ce_timestamp := t\<rparr>))"

definition cache_find :: "PageCache \<Rightarrow> int \<Rightarrow> CacheEntry option \<times> PageCache" where
  "cache_find c page =
     (case cache_peek c page of
        None \<Rightarrow> (None, c)
      | Some e \<Rightarrow> (let c' = lru_promote c page in (cache_peek c' page, c')))"

definition cache_invalidate :: "PageCache \<Rightarrow> int \<Rightarrow> bool \<times> PageCache" where
  "cache_invalidate c page =
     (case cache_peek c page of
        None \<Rightarrow> (False, c)
      | Some e \<Rightarrow>
          (True, (set_bucket c page (chain_unlink page (bucket_of c page)))
             \<lparr>dirty_count := dirty_count c - (if ce_dirty e then 1 else 0),
              entry_count := entry_count c - 1\<rparr>))"

definition cache_mark_dirty :: "PageCache \<Rightarrow> int \<Rightarrow> nat \<Rightarrow> PageCache" where
  "cache_mark_dirty c page prio =
     (case cache_peek c page of
        None \<Rightarrow> c
      | Some e \<Rightarrow>
          lru_promote
            ((cache_modify c page (\<lambda>e. e\<lparr>ce_dirty := True, ce_priority := prio\<rparr>))
               \<lparr>dirty_count := dirty_count c + (if ce_dirty e then 0 else 1)\<rparr>) page)"

text \<open>
  \<^verbatim>\<open>cache_insert\<close>. A clean insert takes over the caller's buffer, a dirty one
  allocates a copy, so it needs a second heap block.
\<close>

definition cache_insert :: "StorageBackend \<Rightarrow> int \<Rightarrow> bytes \<Rightarrow> nat \<Rightarrow> bool \<Rightarrow> StorageBackend" where
  "cache_insert sb page payload prio dirty =
     (let c = sb_cache sb in
      case cache_peek c page of
        Some e \<Rightarrow>
          sb\<lparr>sb_cache := lru_promote
            ((cache_modify c page
                (\<lambda>e. e\<lparr>ce_payload := payload, ce_priority := prio, ce_dirty := dirty \<or> ce_dirty e\<rparr>))
               \<lparr>dirty_count := dirty_count c + (if dirty \<and> \<not> ce_dirty e then 1 else 0)\<rparr>) page\<rparr>
      | None \<Rightarrow>
          (let (ok, sb) = malloc sb in
           if \<not> ok then sb
           else
             let (ok, sb) = (if dirty then malloc sb else (True, sb)) in
             if \<not> ok then sb
             else
               let t = lru_clock c + 1;
                   e = \<lparr>ce_page = page, ce_payload = payload, ce_priority = prio,
                        ce_dirty = dirty, ce_timestamp = t\<rparr>;
                   n = entry_count c + 1
               in sb\<lparr>sb_cache := (set_bucket c page (e # bucket_of c page))
                      \<lparr>lru_clock := t, entry_count := n,
                       dirty_count := dirty_count c + (if dirty then 1 else 0),
                       evict_due := evict_due c \<or> n \<ge> max_entries c\<rparr>\<rparr>))"

text \<open>Writes the code makes through the payload pointer of a cached page.\<close>

definition cache_poke :: "StorageBackend \<Rightarrow> int \<Rightarrow> (bytes \<Rightarrow> bytes) \<Rightarrow> StorageBackend" where
  "cache_poke sb page f =
     sb\<lparr>sb_cache := cache_modify (sb_cache sb) page (\<lambda>e. e\<lparr>ce_payload := f (ce_payload e)\<rparr>)\<rparr>"

abbreviation sb_mark_dirty :: "StorageBackend \<Rightarrow> int \<Rightarrow> nat \<Rightarrow> StorageBackend" where
  "sb_mark_dirty sb page prio \<equiv> sb\<lparr>sb_cache := cache_mark_dirty (sb_cache sb) page prio\<rparr>"

section \<open>Indirection table (indirection.c)\<close>

abbreviation inline_count :: "StorageBackend \<Rightarrow> int" where
  "inline_count sb \<equiv> inline_entry_count (page_size sb)"

definition entries_per_overflow :: "StorageBackend \<Rightarrow> int" where
  "entries_per_overflow sb = int (page_size sb) div 8 - 1"

abbreviation overflow_count :: "StorageBackend \<Rightarrow> int" where
  "overflow_count sb \<equiv> int (length (overflow_pages sb))"

definition overflow_idx :: "StorageBackend \<Rightarrow> int \<Rightarrow> int" where
  "overflow_idx sb p = (p - inline_count sb) div entries_per_overflow sb"

definition entry_idx :: "StorageBackend \<Rightarrow> int \<Rightarrow> int" where
  "entry_idx sb p = (p - inline_count sb) mod entries_per_overflow sb"

definition indir_lookup :: "StorageBackend \<Rightarrow> int \<Rightarrow> int" where
  "indir_lookup sb p =
     (if p < inline_count sb then rd8i (header_buf sb) (nat (int HDR_OFF_ENTRIES + 8 * p))
      else if overflow_idx sb p \<ge> overflow_count sb then 0
      else rd8i (overflow_pages sb ! nat (overflow_idx sb p)) (nat (8 + 8 * entry_idx sb p)))"

text \<open>The plain store into the slot of a page, shared by the operations below.\<close>

definition put_entry :: "StorageBackend \<Rightarrow> int \<Rightarrow> int \<Rightarrow> StorageBackend" where
  "put_entry sb p v =
     (if p < inline_count sb
      then sb\<lparr>header_buf := wr8i (header_buf sb) (nat (int HDR_OFF_ENTRIES + 8 * p)) v\<rparr>
      else if overflow_idx sb p < overflow_count sb
      then let k = nat (overflow_idx sb p) in
           sb\<lparr>overflow_pages := (overflow_pages sb)[k := wr8i (overflow_pages sb ! k)
                (nat (8 + 8 * entry_idx sb p)) v]\<rparr>
      else sb)"

definition indir_set :: "StorageBackend \<Rightarrow> int \<Rightarrow> int \<Rightarrow> StorageBackend" where
  "indir_set sb p v =
     (if p < inline_count sb then sb_mark_dirty (put_entry sb p v) 0 FLUSH_PRIO_SUPERBLOCK
      else if overflow_idx sb p < overflow_count sb
      then let l = overflow_logical sb ! nat (overflow_idx sb p);
               sb' = put_entry sb p v
           in if l > 0 then sb_mark_dirty sb' l FLUSH_PRIO_INDIR else sb'
      else sb)"

definition total_entries :: "StorageBackend \<Rightarrow> int" where
  "total_entries sb = inline_count sb + overflow_count sb * entries_per_overflow sb"

text \<open>
  One round of the allocation loop of \<^verbatim>\<open>indir_ensure_capacity\<close>: reserve a record,
  a zeroed buffer, store the self-reference, grow the arrays, link the chain,
  register the page. The flag is \<open>False\<close> on the out-of-memory returns.
\<close>

definition grow_overflow :: "StorageBackend \<Rightarrow> bool \<times> StorageBackend" where
  "grow_overflow sb =
     (let phys = physical_tail sb;
          sb = sb\<lparr>physical_tail := phys + phys_record_size sb\<rparr>;
          (ok, sb) = malloc sb in
      if \<not> ok then (False, sb)
      else
        let new_logical = inline_count sb - 1 + overflow_count sb * entries_per_overflow sb;
            buf = zero_bytes (page_size sb);
            inside = new_logical < inline_count sb \<or> overflow_idx sb new_logical < overflow_count sb;
            buf = (if inside then buf else wr8i buf (nat (8 + 8 * entry_idx sb new_logical)) phys);
            sb = put_entry sb new_logical phys;
            full = length (overflow_pages sb) \<ge> overflow_cap sb;
            (ok1, sb) = (if full then malloc sb else (True, sb));
            (ok2, sb) = (if full then malloc sb else (True, sb)) in
        if \<not> (ok1 \<and> ok2) then (False, sb)
        else
          let sb = (if full then sb\<lparr>overflow_cap := (if overflow_cap sb = 0 then 8 else 2 * overflow_cap sb)\<rparr> else sb);
              n = length (overflow_pages sb);
              sb = (if n > 0
                    then sb\<lparr>overflow_pages := (overflow_pages sb)[n - 1 := wr8i (overflow_pages sb ! (n - 1)) 0 new_logical]\<rparr>
                    else sb\<lparr>indirection_head := new_logical\<rparr>)
          in (True, sb\<lparr>overflow_pages := overflow_pages sb @ [buf],
                       overflow_logical := overflow_logical sb @ [new_logical]\<rparr>))"

text \<open>
  The loop. Every round adds \<open>entries_per_overflow\<close> entries; the second conjunct
  of the guard only excludes page sizes below 16, which the mount code rejects.
\<close>

function ensure_loop :: "int \<Rightarrow> StorageBackend \<Rightarrow> bool \<times> StorageBackend" where
  "ensure_loop required sb =
     (if required \<ge> total_entries sb \<and> 0 < entries_per_overflow sb
      then let (ok, sb') = grow_overflow sb in if ok then ensure_loop required sb' else (False, sb')
      else (True, sb))"
  by pat_completeness auto

definition indir_ensure_capacity :: "StorageBackend \<Rightarrow> int \<Rightarrow> bool \<times> StorageBackend" where
  "indir_ensure_capacity sb needed = ensure_loop (total_pages sb + needed) sb"

section \<open>Cache laws\<close>

subsection \<open>Chains\<close>

lemma chain_find_update:
  "(\<And>e. ce_page (f e) = ce_page e) \<Longrightarrow>
   chain_find q (chain_update p f es) = (if q = p then map_option f (chain_find q es) else chain_find q es)"
  by (induction es) auto

lemma chain_find_unlink_other: "q \<noteq> p \<Longrightarrow> chain_find q (chain_unlink p es) = chain_find q es"
  by (induction es) auto

lemma chain_find_None: "chain_find p es = None \<longleftrightarrow> p \<notin> ce_page ` set es"
  by (induction es) auto

lemma chain_find_Some: "chain_find p es = Some e \<Longrightarrow> e \<in> set es \<and> ce_page e = p"
  by (induction es) (auto split: if_splits)

lemma chain_find_unlink_same:
  "distinct (map ce_page es) \<Longrightarrow> chain_find p (chain_unlink p es) = None"
  by (induction es) (auto simp: chain_find_None)

lemma set_chain_unlink: "set (chain_unlink p es) \<subseteq> set es"
  by (induction es) auto

lemma pages_chain_update [simp]:
  "(\<And>e. ce_page (f e) = ce_page e) \<Longrightarrow> map ce_page (chain_update p f es) = map ce_page es"
  by (induction es) auto

lemma length_chain_update [simp]: "length (chain_update p f es) = length es"
  by (induction es) auto

lemma distinct_chain_unlink:
  "distinct (map ce_page es) \<Longrightarrow> distinct (map ce_page (chain_unlink p es))"
  by (induction es) (use set_chain_unlink in fastforce)+

subsection \<open>Well-formedness\<close>

text \<open>
  The number of buckets is positive and representable, every entry is in the
  bucket its page hashes to, no page occurs twice, and the two counters count.
\<close>

definition count_dirty :: "CacheEntry list \<Rightarrow> int" where
  "count_dirty es = int (length (filter ce_dirty es))"

definition cache_shape :: "PageCache \<Rightarrow> bool" where
  "cache_shape c \<longleftrightarrow> 0 < length (buckets c) \<and> length (buckets c) \<le> 2 ^ 31
     \<and> (\<forall>b < length (buckets c). distinct (map ce_page (buckets c ! b))
          \<and> (\<forall>e \<in> set (buckets c ! b). bucket_index c (ce_page e) = b))"

definition cache_counts :: "PageCache \<Rightarrow> bool" where
  "cache_counts c \<longleftrightarrow> entry_count c = (\<Sum>es \<leftarrow> buckets c. int (length es))
     \<and> dirty_count c = (\<Sum>es \<leftarrow> buckets c. count_dirty es)"

definition cache_wf :: "PageCache \<Rightarrow> bool" where
  "cache_wf c \<longleftrightarrow> cache_shape c \<and> cache_counts c"

lemma bucket_index_less:
  assumes "0 < length (buckets c)" "length (buckets c) \<le> 2 ^ 31"
  shows "bucket_index c p < length (buckets c)"
proof -
  let ?m = "word_of_int (int (length (buckets c)) - 1) :: u64"
  have "hash_page p AND ?m \<le> ?m" by (rule word_and_le1)
  then have "unat (hash_page p AND ?m) \<le> unat ?m" by (simp add: word_le_nat_alt)
  moreover have "unat ?m = length (buckets c) - 1"
  proof -
    have "int (length (buckets c)) - 1 = int (length (buckets c) - 1)"
      using assms(1) by (simp add: of_nat_diff Suc_le_eq)
    then have "?m = of_nat (length (buckets c) - 1)" by (simp only: of_int_of_nat_eq)
    moreover have "length (buckets c) - 1 < 2 ^ LENGTH(64)" using assms(2) by simp
    ultimately show ?thesis by (simp add: unat_of_nat)
  qed
  ultimately have "bucket_index c p \<le> length (buckets c) - 1" by (simp only: bucket_index_def)
  with assms(1) show ?thesis by linarith
qed

lemma bucket_index_cong: "length (buckets c') = length (buckets c) \<Longrightarrow> bucket_index c' p = bucket_index c p"
  by (simp add: bucket_index_def)

lemma bucket_index_set_bucket [simp]: "bucket_index (set_bucket c p es) q = bucket_index c q"
  by (rule bucket_index_cong) (simp add: set_bucket_def)

lemma bucket_index_upd [simp]:
  "bucket_index (c\<lparr>entry_count := a\<rparr>) q = bucket_index c q"
  "bucket_index (c\<lparr>dirty_count := b\<rparr>) q = bucket_index c q"
  "bucket_index (c\<lparr>lru_clock := t\<rparr>) q = bucket_index c q"
  "bucket_index (c\<lparr>evict_due := d\<rparr>) q = bucket_index c q"
  by (simp_all add: bucket_index_def)

lemma cache_peek_upd [simp]:
  "cache_peek (c\<lparr>entry_count := a\<rparr>) = cache_peek c"
  "cache_peek (c\<lparr>dirty_count := b\<rparr>) = cache_peek c"
  "cache_peek (c\<lparr>lru_clock := t\<rparr>) = cache_peek c"
  "cache_peek (c\<lparr>evict_due := d\<rparr>) = cache_peek c"
  by (auto simp: cache_peek_def bucket_of_def)

lemma cache_shape_upd [simp]:
  "cache_shape (c\<lparr>entry_count := a\<rparr>) = cache_shape c"
  "cache_shape (c\<lparr>dirty_count := b\<rparr>) = cache_shape c"
  "cache_shape (c\<lparr>lru_clock := t\<rparr>) = cache_shape c"
  "cache_shape (c\<lparr>evict_due := d\<rparr>) = cache_shape c"
  by (simp_all add: cache_shape_def)

lemma bucket_index_shape [simp, intro]: "cache_shape c \<Longrightarrow> bucket_index c p < length (buckets c)"
  by (simp add: cache_shape_def bucket_index_less)

lemma bucket_of_set_bucket:
  "cache_shape c \<Longrightarrow>
   bucket_of (set_bucket c p es) q = (if bucket_index c q = bucket_index c p then es else bucket_of c q)"
  by (auto simp: bucket_of_def) (auto simp: set_bucket_def)

lemma cache_peek_set_bucket:
  "cache_shape c \<Longrightarrow>
   cache_peek (set_bucket c p es) q
     = (if bucket_index c q = bucket_index c p then chain_find q es else cache_peek c q)"
  by (simp add: cache_peek_def bucket_of_set_bucket)

lemma cache_peek_modify:
  assumes "cache_shape c" "\<And>e. ce_page (f e) = ce_page e"
  shows "cache_peek (cache_modify c p f) q
       = (if q = p then map_option f (cache_peek c q) else cache_peek c q)"
  using assms by (auto simp: cache_modify_def cache_peek_set_bucket chain_find_update)
                 (auto simp: cache_peek_def bucket_of_def)

lemma cache_shape_set_bucket:
  assumes "cache_shape c" "distinct (map ce_page es)"
    and "\<And>e. e \<in> set es \<Longrightarrow> bucket_index c (ce_page e) = bucket_index c p"
  shows "cache_shape (set_bucket c p es)"
proof -
  have *: "buckets (set_bucket c p es) = (buckets c)[bucket_index c p := es]"
    by (simp add: set_bucket_def)
  show ?thesis
    using assms bucket_index_shape [OF assms(1), of p]
    unfolding cache_shape_def bucket_index_set_bucket *
    by (auto simp: nth_list_update split: if_splits)
qed

lemma cache_shape_bucket_of:
  assumes "cache_shape c"
  shows "distinct (map ce_page (bucket_of c p))"
    and "e \<in> set (bucket_of c p) \<Longrightarrow> bucket_index c (ce_page e) = bucket_index c p"
  using assms bucket_index_shape [OF assms, of p]
  unfolding cache_shape_def bucket_of_def by auto

lemma cache_shape_modify [simp]:
  assumes "cache_shape c" "\<And>e. ce_page (f e) = ce_page e"
  shows "cache_shape (cache_modify c p f)"
  unfolding cache_modify_def
proof (rule cache_shape_set_bucket [OF assms(1)])
  show "distinct (map ce_page (chain_update p f (bucket_of c p)))"
    using assms by (simp add: cache_shape_bucket_of)
  fix e assume "e \<in> set (chain_update p f (bucket_of c p))"
  then have "ce_page e \<in> set (map ce_page (chain_update p f (bucket_of c p)))" by simp
  then have "ce_page e \<in> ce_page ` set (bucket_of c p)"
    using pages_chain_update [of f p "bucket_of c p"] assms(2) by simp
  then show "bucket_index c (ce_page e) = bucket_index c p"
    using assms(1) by (auto simp: cache_shape_bucket_of)
qed

lemma sum_list_update_int:
  "k < length xs \<Longrightarrow> (\<Sum>x \<leftarrow> xs[k := y]. g x) = (\<Sum>x \<leftarrow> xs. g x) + g y - (g (xs ! k) :: int)"
  by (induction xs arbitrary: k) (auto split: nat.splits)

lemma sums_set_bucket:
  assumes "cache_shape c"
  shows "(\<Sum>x \<leftarrow> buckets (set_bucket c p es). int (length x))
       = (\<Sum>x \<leftarrow> buckets c. int (length x)) + int (length es) - int (length (bucket_of c p))"
    and "(\<Sum>x \<leftarrow> buckets (set_bucket c p es). count_dirty x)
       = (\<Sum>x \<leftarrow> buckets c. count_dirty x) + count_dirty es - count_dirty (bucket_of c p)"
  using assms by (simp_all add: set_bucket_def sum_list_update_int bucket_of_def)

lemma counters_set_bucket [simp]:
  "entry_count (set_bucket c p es) = entry_count c"
  "dirty_count (set_bucket c p es) = dirty_count c"
  "entry_count (cache_modify c p f) = entry_count c"
  "dirty_count (cache_modify c p f) = dirty_count c"
  by (simp_all add: set_bucket_def cache_modify_def)

lemma count_dirty_Cons [simp]: "count_dirty (e # es) = of_bool (ce_dirty e) + count_dirty es"
  by (simp add: count_dirty_def)

lemma count_dirty_update:
  "chain_find p es = Some e \<Longrightarrow>
   count_dirty (chain_update p f es) = count_dirty es + of_bool (ce_dirty (f e)) - of_bool (ce_dirty e)"
  by (induction es) (auto simp: count_dirty_def split: if_splits)

lemma count_dirty_update_None: "chain_find p es = None \<Longrightarrow> chain_update p f es = es"
  by (induction es) (auto split: if_splits)

lemma count_dirty_unlink:
  "chain_find p es = Some e \<Longrightarrow>
   count_dirty (chain_unlink p es) = count_dirty es - of_bool (ce_dirty e)
   \<and> int (length (chain_unlink p es)) = int (length es) - 1"
  by (induction es) (auto simp: count_dirty_def split: if_splits)

lemma cache_counts_modify:
  assumes "cache_counts c" "cache_shape c" "cache_peek c p = Some e"
    and "d = dirty_count c + of_bool (ce_dirty (f e)) - of_bool (ce_dirty e)"
  shows "cache_counts ((cache_modify c p f)\<lparr>dirty_count := d\<rparr>)"
  using assms count_dirty_update [of p "bucket_of c p" e f]
  by (simp add: cache_counts_def cache_modify_def sums_set_bucket cache_peek_def del: of_bool_eq_iff)

lemma cache_counts_modify_clean:
  assumes "cache_counts c" "cache_shape c" "\<And>e. ce_dirty (f e) = ce_dirty e"
  shows "cache_counts (cache_modify c p f)"
proof (cases "cache_peek c p")
  case None
  with assms(1,2) show ?thesis
    by (simp add: cache_counts_def cache_modify_def sums_set_bucket cache_peek_def count_dirty_update_None)
next
  case (Some e)
  with assms count_dirty_update [of p "bucket_of c p" e f] show ?thesis
    by (simp add: cache_counts_def cache_modify_def sums_set_bucket cache_peek_def)
qed

lemma cache_counts_upd [simp]:
  "cache_counts (c\<lparr>lru_clock := t\<rparr>) = cache_counts c"
  "cache_counts (c\<lparr>evict_due := d\<rparr>) = cache_counts c"
  by (simp_all add: cache_counts_def)

subsection \<open>The operations keep the cache well formed\<close>

lemma cache_shape_lru [simp]: "cache_shape c \<Longrightarrow> cache_shape (lru_promote c p)"
  by (simp add: lru_promote_def Let_def)

lemma cache_wf_lru [simp]: "cache_wf c \<Longrightarrow> cache_wf (lru_promote c p)"
  by (simp add: cache_wf_def lru_promote_def Let_def cache_counts_modify_clean)

lemma cache_wf_modify:
  assumes "cache_wf c" "cache_peek c p = Some e" "\<And>e. ce_page (f e) = ce_page e"
    and "d = dirty_count c + of_bool (ce_dirty (f e)) - of_bool (ce_dirty e)"
  shows "cache_wf ((cache_modify c p f)\<lparr>dirty_count := d\<rparr>)"
  using assms cache_counts_modify [of c p e d f] by (simp add: cache_wf_def)

lemma cache_wf_find: "cache_wf c \<Longrightarrow> cache_wf (snd (cache_find c p))"
  by (simp add: cache_find_def Let_def split: option.splits)

lemma cache_wf_mark_dirty:
  assumes "cache_wf c"
  shows "cache_wf (cache_mark_dirty c p n)"
proof (cases "cache_peek c p")
  case (Some e)
  let ?c = "(cache_modify c p (\<lambda>e. e\<lparr>ce_dirty := True, ce_priority := n\<rparr>))
               \<lparr>dirty_count := dirty_count c + (if ce_dirty e then 0 else 1)\<rparr>"
  have "cache_wf ?c"
    by (rule cache_wf_modify [OF assms Some]) simp_all
  with Some show ?thesis by (simp add: cache_mark_dirty_def)
qed (use assms in \<open>simp add: cache_mark_dirty_def\<close>)

lemma cache_wf_invalidate:
  assumes "cache_wf c"
  shows "cache_wf (snd (cache_invalidate c p))"
proof (cases "cache_peek c p")
  case (Some e)
  have "cache_shape (set_bucket c p (chain_unlink p (bucket_of c p)))"
    using assms set_chain_unlink [of p "bucket_of c p"]
    by (intro cache_shape_set_bucket)
       (auto simp: cache_wf_def cache_shape_bucket_of distinct_chain_unlink)
  with assms Some count_dirty_unlink [of p "bucket_of c p" e] show ?thesis
    by (simp add: cache_invalidate_def cache_wf_def cache_counts_def sums_set_bucket cache_peek_def)
qed (use assms in \<open>simp add: cache_invalidate_def\<close>)

lemma cache_wf_poke: "cache_wf (sb_cache sb) \<Longrightarrow> cache_wf (sb_cache (cache_poke sb p f))"
  by (simp add: cache_poke_def cache_wf_def cache_counts_modify_clean)

lemma cache_wf_push:
  assumes "cache_wf c" "cache_peek c (ce_page e) = None"
  shows "cache_wf ((set_bucket c (ce_page e) (e # bucket_of c (ce_page e)))
           \<lparr>lru_clock := t, entry_count := entry_count c + 1,
            dirty_count := dirty_count c + (if ce_dirty e then 1 else 0), evict_due := d\<rparr>)"
proof -
  have "cache_shape (set_bucket c (ce_page e) (e # bucket_of c (ce_page e)))"
    using assms
    by (intro cache_shape_set_bucket)
       (auto simp: cache_wf_def cache_shape_bucket_of cache_peek_def chain_find_None)
  with assms(1) show ?thesis
    by (simp add: cache_wf_def cache_counts_def sums_set_bucket)
qed

lemma malloc_cache [simp]: "sb_cache (snd (malloc sb)) = sb_cache sb"
  by (auto simp: malloc_def split: list.splits)

lemma cache_wf_insert:
  assumes "cache_wf (sb_cache sb)"
  shows "cache_wf (sb_cache (cache_insert sb p payload prio dirty))"
proof (cases "cache_peek (sb_cache sb) p")
  case None
  obtain ok1 sb1 where m1: "malloc sb = (ok1, sb1)" by fastforce
  obtain ok2 sb2 where m2: "malloc sb1 = (ok2, sb2)" by fastforce
  have c: "sb_cache sb1 = sb_cache sb" "sb_cache sb2 = sb_cache sb"
    using malloc_cache [of sb] malloc_cache [of sb1] m1 m2 by auto
  note push = cache_wf_push [of "sb_cache sb" "\<lparr>ce_page = p, ce_payload = payload,
      ce_priority = prio, ce_dirty = dirty, ce_timestamp = lru_clock (sb_cache sb) + 1\<rparr>",
      simplified, OF assms None]
  show ?thesis
  proof (cases "ok1 \<and> (dirty \<longrightarrow> ok2)")
    case True
    with push None show ?thesis
      by (cases dirty) (simp_all add: cache_insert_def Let_def m1 m2 del: if_split)
  next
    case False
    with assms None c show ?thesis
      by (cases ok1; cases dirty) (simp_all add: cache_insert_def Let_def m1 m2 del: if_split)
  qed
next
  case (Some e)
  let ?f = "\<lambda>e. e\<lparr>ce_payload := payload, ce_priority := prio, ce_dirty := dirty \<or> ce_dirty e\<rparr>"
  have "cache_wf ((cache_modify (sb_cache sb) p ?f)
          \<lparr>dirty_count := dirty_count (sb_cache sb) + (if dirty \<and> \<not> ce_dirty e then 1 else 0)\<rparr>)"
    by (rule cache_wf_modify [OF assms Some]) simp_all
  with Some show ?thesis by (simp add: cache_insert_def Let_def del: if_split)
qed

subsection \<open>The cached payloads\<close>

definition cached :: "PageCache \<Rightarrow> int \<Rightarrow> bytes option" where
  "cached c p = map_option ce_payload (cache_peek c p)"

lemma cached_upd [simp]:
  "cached (c\<lparr>entry_count := a\<rparr>) = cached c"
  "cached (c\<lparr>dirty_count := b\<rparr>) = cached c"
  "cached (c\<lparr>lru_clock := t\<rparr>) = cached c"
  "cached (c\<lparr>evict_due := d\<rparr>) = cached c"
  by (auto simp: cached_def)

lemma cached_modify:
  assumes "cache_shape c" "\<And>e. ce_page (f e) = ce_page e" "\<And>e. ce_payload (f e) = g (ce_payload e)"
  shows "cached (cache_modify c p f) = (cached c)(p := map_option g (cached c p))"
  using assms by (auto simp: cached_def cache_peek_modify fun_eq_iff option.map_comp comp_def)

lemma cached_modify_same:
  assumes "cache_shape c" "\<And>e. ce_page (f e) = ce_page e" "\<And>e. ce_payload (f e) = ce_payload e"
  shows "cached (cache_modify c p f) = cached c"
  using assms by (auto simp: cached_def cache_peek_modify fun_eq_iff option.map_comp comp_def)

lemma cached_lru [simp]: "cache_shape c \<Longrightarrow> cached (lru_promote c p) = cached c"
  by (simp add: lru_promote_def Let_def cached_modify_same)

lemma cached_find:
  assumes "cache_shape c"
  shows "map_option ce_payload (fst (cache_find c p)) = cached c p"
    and "cached (snd (cache_find c p)) = cached c"
proof -
  have "cached (lru_promote c p) p = cached c p" using assms by simp
  then show "map_option ce_payload (fst (cache_find c p)) = cached c p"
    by (auto simp: cache_find_def Let_def cached_def split: option.splits)
qed (use assms in \<open>simp add: cache_find_def Let_def split: option.splits\<close>)

lemma cached_mark_dirty [simp]: "cache_shape c \<Longrightarrow> cached (cache_mark_dirty c p n) = cached c"
  by (auto simp: cache_mark_dirty_def cached_modify_same split: option.splits)

lemma cached_invalidate:
  assumes "cache_shape c"
  shows "cached (snd (cache_invalidate c p)) = (cached c)(p := None)"
proof (cases "cache_peek c p")
  case None
  then show ?thesis by (auto simp: cache_invalidate_def cached_def)
next
  case (Some e)
  have "chain_find p (chain_unlink p (bucket_of c p)) = None"
    using assms by (simp add: chain_find_unlink_same cache_shape_bucket_of)
  moreover have "chain_find q (chain_unlink p (bucket_of c p)) = chain_find q (bucket_of c p)"
    if "q \<noteq> p" for q using that by (rule chain_find_unlink_other)
  moreover have "cache_peek c q = chain_find q (bucket_of c p)" if "bucket_index c q = bucket_index c p" for q
    using that by (simp add: cache_peek_def bucket_of_def)
  ultimately show ?thesis
    using Some assms by (auto simp: cache_invalidate_def cached_def fun_eq_iff cache_peek_set_bucket)
qed

lemma cached_poke:
  "cache_shape (sb_cache sb) \<Longrightarrow>
   cached (sb_cache (cache_poke sb p f)) = (cached (sb_cache sb))(p := map_option f (cached (sb_cache sb) p))"
  by (simp add: cache_poke_def cached_modify [where g = f])

lemma cached_push:
  assumes "cache_shape c"
  shows "cached (set_bucket c (ce_page e) (e # bucket_of c (ce_page e)))
       = (cached c)(ce_page e \<mapsto> ce_payload e)"
  using assms
  by (auto simp: cached_def fun_eq_iff cache_peek_set_bucket) (auto simp: cache_peek_def bucket_of_def)

text \<open>With the heap available, an insert is a map update of the payloads.\<close>

lemma cached_insert:
  assumes "cache_shape (sb_cache sb)" "sb_heap sb = []"
  shows "cached (sb_cache (cache_insert sb p payload prio dirty))
       = (cached (sb_cache sb))(p \<mapsto> payload)"
proof (cases "cache_peek (sb_cache sb) p")
  case None
  have "malloc sb = (True, sb)" using assms(2) by (simp add: malloc_def)
  with None show ?thesis
    using cached_push [OF assms(1), of "\<lparr>ce_page = p, ce_payload = payload,
      ce_priority = prio, ce_dirty = dirty, ce_timestamp = lru_clock (sb_cache sb) + 1\<rparr>"]
    by (cases dirty) (simp_all add: cache_insert_def Let_def)
next
  case (Some e)
  then have "cached (sb_cache sb) p = Some (ce_payload e)" by (simp add: cached_def)
  moreover have "cached (cache_modify (sb_cache sb) p
      (\<lambda>e. e\<lparr>ce_payload := payload, ce_priority := prio, ce_dirty := dirty \<or> ce_dirty e\<rparr>))
    = (cached (sb_cache sb))(p := map_option (\<lambda>_. payload) (cached (sb_cache sb) p))"
    using assms(1) by (intro cached_modify) simp_all
  ultimately show ?thesis
    using assms(1) Some by (simp add: cache_insert_def Let_def del: fun_upd_apply if_split)
qed

section \<open>System calls on a healthy machine\<close>

definition healthy :: "StorageBackend \<Rightarrow> bool" where
  "healthy sb \<longleftrightarrow> sb_io sb = [] \<and> sb_heap sb = []"

lemma healthy_malloc [simp]: "healthy sb \<Longrightarrow> malloc sb = (True, sb)"
  by (simp add: healthy_def malloc_def)

lemma healthy_pread [simp]:
  "healthy sb \<Longrightarrow> 0 \<le> off \<Longrightarrow> pread sb n off = (chunk (sb_file sb) (nat off) n, sb)"
  by (simp add: healthy_def pread_def io_limit_def)

lemma healthy_pwrite [simp]:
  "healthy sb \<Longrightarrow> 0 \<le> off \<Longrightarrow>
   pwrite sb data off = (length data, sb\<lparr>sb_file := file_write (sb_file sb) (nat off) data\<rparr>)"
  by (simp add: healthy_def pwrite_def io_limit_def)

lemma length_file_write: "length (file_write f off d) = (if d = [] then length f else max (length f) (off + length d))"
  by (auto simp: file_write_def)

lemma chunk_file_write_same:
  "chunk (file_write f off d) off (length d) = d"
  by (auto simp: file_write_def chunk_blit_same) (simp add: chunk_def)

lemma chunk_file_write_inside:
  assumes "off \<le> o1" "o1 + n \<le> off + length d"
  shows "chunk (file_write f off d) o1 n = chunk d (o1 - off) n"
proof (cases "d = []")
  case True
  with assms show ?thesis by (simp add: file_write_def chunk_def)
next
  case False
  with assms show ?thesis by (simp add: file_write_def chunk_blit_inside)
qed

lemma chunk_file_write_disjoint:
  assumes "o1 + n \<le> length f" "o1 + n \<le> off \<or> off + length d \<le> o1"
  shows "chunk (file_write f off d) o1 n = chunk f o1 n"
proof (cases "d = []")
  case False
  have "chunk (file_write f off d) o1 n = chunk (f @ zero_bytes (off + length d - length f)) o1 n"
    unfolding file_write_def using False assms(2) by (simp add: chunk_blit_disjoint)
  also have "\<dots> = chunk f o1 n" using assms(1) by (simp add: chunk_def)
  finally show ?thesis .
qed (simp add: file_write_def)

lemma ph_parse_bytes [simp]: "ph_parse (ph_bytes ph) = ph"
  by (simp add: ph_parse_def ph_bytes_def rd4_def chunk_def le_word_le_bytes take_bit_word_eq_self
      del: le_bytes.simps)

lemma length_ph_bytes [simp]: "length (ph_bytes ph) = 16"
  by (simp add: ph_bytes_def)

section \<open>Indirection laws\<close>

definition indir_wf :: "StorageBackend \<Rightarrow> bool" where
  "indir_wf sb \<longleftrightarrow> 128 \<le> page_size sb \<and> length (header_buf sb) = page_size sb
     \<and> (\<forall>b \<in> set (overflow_pages sb). length b = page_size sb)
     \<and> length (overflow_logical sb) = length (overflow_pages sb)"

definition in_table :: "StorageBackend \<Rightarrow> int \<Rightarrow> bool" where
  "in_table sb p \<longleftrightarrow> 0 \<le> p \<and> p < total_entries sb"

lemma inline_count_bounds:
  "128 \<le> ps \<Longrightarrow> 4 \<le> inline_entry_count ps \<and> 96 + 8 * inline_entry_count ps \<le> int ps"
  unfolding inline_entry_count_def by presburger

lemma epo_bounds:
  "128 \<le> page_size sb \<Longrightarrow> 15 \<le> entries_per_overflow sb \<and> 8 + 8 * entries_per_overflow sb \<le> int (page_size sb)"
  unfolding entries_per_overflow_def by presburger

lemma zdiv_less_mult_iff: "0 < e \<Longrightarrow> a div e < k \<longleftrightarrow> a < k * e" for a e k :: int
proof
  assume e: "0 < e" and "a div e < k"
  then have "(a div e + 1) * e \<le> k * e" by (intro mult_right_mono) auto
  moreover have "a < (a div e + 1) * e"
  proof -
    have "a mod e < e" "a div e * e + a mod e = a" using e by (simp_all add: div_mult_mod_eq)
    then show ?thesis by (simp only: distrib_right)
  qed
  ultimately show "a < k * e" by linarith
next
  assume e: "0 < e" and a: "a < k * e"
  show "a div e < k"
  proof (rule ccontr)
    assume "\<not> a div e < k"
    then have "k * e \<le> a div e * e" using e by (intro mult_right_mono) auto
    then show False using a e pos_mod_sign [of e a] div_mult_mod_eq [of a e] by linarith
  qed
qed

lemma overflow_split:
  assumes "128 \<le> page_size sb"
  shows "p = inline_count sb + overflow_idx sb p * entries_per_overflow sb + entry_idx sb p"
    and "0 \<le> entry_idx sb p" "entry_idx sb p < entries_per_overflow sb"
    and "inline_count sb \<le> p \<Longrightarrow> 0 \<le> overflow_idx sb p"
  using epo_bounds [OF assms]
  by (simp_all add: overflow_idx_def entry_idx_def pos_imp_zdiv_nonneg_iff)

lemma overflow_idx_less:
  assumes "128 \<le> page_size sb"
  shows "overflow_idx sb p < overflow_count sb \<longleftrightarrow> p < total_entries sb"
proof -
  let ?e = "entries_per_overflow sb"
  have e: "0 < ?e" using epo_bounds [OF assms] by linarith
  have "overflow_idx sb p < overflow_count sb \<longleftrightarrow> p - inline_count sb < overflow_count sb * ?e"
    unfolding overflow_idx_def using e by (rule zdiv_less_mult_iff)
  then show ?thesis by (simp add: total_entries_def algebra_simps)
qed

lemma overflow_idx_inj:
  assumes "128 \<le> page_size sb" "overflow_idx sb p = overflow_idx sb q" "entry_idx sb p = entry_idx sb q"
  shows "p = q"
  using overflow_split(1) [OF assms(1), of p] overflow_split(1) [OF assms(1), of q] assms(2,3) by simp

lemma idx_upd [simp]:
  "overflow_idx (sb\<lparr>header_buf := h\<rparr>) = overflow_idx sb"
  "overflow_idx (sb\<lparr>overflow_pages := o1\<rparr>) = overflow_idx sb"
  "overflow_idx (sb\<lparr>physical_tail := t\<rparr>) = overflow_idx sb"
  "entry_idx (sb\<lparr>header_buf := h\<rparr>) = entry_idx sb"
  "entry_idx (sb\<lparr>overflow_pages := o1\<rparr>) = entry_idx sb"
  "entry_idx (sb\<lparr>physical_tail := t\<rparr>) = entry_idx sb"
  "entries_per_overflow (sb\<lparr>header_buf := h\<rparr>) = entries_per_overflow sb"
  "entries_per_overflow (sb\<lparr>overflow_pages := o1\<rparr>) = entries_per_overflow sb"
  "entries_per_overflow (sb\<lparr>physical_tail := t\<rparr>) = entries_per_overflow sb"
  by (auto simp: overflow_idx_def entry_idx_def entries_per_overflow_def fun_eq_iff)

lemma indir_lookup_upd [simp]:
  "indir_lookup (sb\<lparr>sb_file := f\<rparr>) = indir_lookup sb"
  "indir_lookup (sb\<lparr>sb_io := io\<rparr>) = indir_lookup sb"
  "indir_lookup (sb\<lparr>sb_heap := h\<rparr>) = indir_lookup sb"
  "indir_lookup (sb\<lparr>total_pages := t\<rparr>) = indir_lookup sb"
  "indir_lookup (sb\<lparr>physical_tail := t\<rparr>) = indir_lookup sb"
  "indir_lookup (sb\<lparr>indirection_head := t\<rparr>) = indir_lookup sb"
  "indir_lookup (sb\<lparr>overflow_logical := l\<rparr>) = indir_lookup sb"
  "indir_lookup (sb\<lparr>overflow_cap := n\<rparr>) = indir_lookup sb"
  "indir_lookup (sb\<lparr>sb_cache := c\<rparr>) = indir_lookup sb"
  by (auto simp: indir_lookup_def fun_eq_iff overflow_idx_def entry_idx_def entries_per_overflow_def)

lemma total_entries_upd [simp]:
  "total_entries (sb\<lparr>sb_file := f\<rparr>) = total_entries sb"
  "total_entries (sb\<lparr>sb_io := io\<rparr>) = total_entries sb"
  "total_entries (sb\<lparr>sb_heap := h\<rparr>) = total_entries sb"
  "total_entries (sb\<lparr>total_pages := t\<rparr>) = total_entries sb"
  "total_entries (sb\<lparr>physical_tail := t\<rparr>) = total_entries sb"
  "total_entries (sb\<lparr>sb_cache := c\<rparr>) = total_entries sb"
  "total_entries (sb\<lparr>header_buf := h'\<rparr>) = total_entries sb"
  by (simp_all add: total_entries_def entries_per_overflow_def)

lemma put_entry_fields [simp]:
  "page_size (put_entry sb p v) = page_size sb"
  "sb_file (put_entry sb p v) = sb_file sb"
  "sb_io (put_entry sb p v) = sb_io sb"
  "sb_heap (put_entry sb p v) = sb_heap sb"
  "total_pages (put_entry sb p v) = total_pages sb"
  "segment_size (put_entry sb p v) = segment_size sb"
  "physical_tail (put_entry sb p v) = physical_tail sb"
  "indirection_head (put_entry sb p v) = indirection_head sb"
  "sb_cache (put_entry sb p v) = sb_cache sb"
  "overflow_logical (put_entry sb p v) = overflow_logical sb"
  "overflow_cap (put_entry sb p v) = overflow_cap sb"
  "deferred_queue (put_entry sb p v) = deferred_queue sb"
  "length (overflow_pages (put_entry sb p v)) = length (overflow_pages sb)"
  by (simp_all add: put_entry_def Let_def)

lemma overflow_pages_put_Nil [simp]: "overflow_pages (put_entry sb p v) = [] \<longleftrightarrow> overflow_pages sb = []"
  using put_entry_fields(13) [of sb p v] by (metis length_0_conv)

lemma total_entries_put [simp]: "total_entries (put_entry sb p v) = total_entries sb"
  by (simp add: total_entries_def entries_per_overflow_def)

lemma inline_offset:
  assumes "indir_wf sb" "0 \<le> p" "p < inline_count sb"
  shows "nat (96 + 8 * p) + 8 \<le> length (header_buf sb)" "96 \<le> nat (96 + 8 * p)"
  using assms inline_count_bounds [of "page_size sb"] by (auto simp: indir_wf_def)

lemma overflow_offset:
  assumes "indir_wf sb" "inline_count sb \<le> p" "overflow_idx sb p < overflow_count sb"
  shows "nat (overflow_idx sb p) < length (overflow_pages sb)"
    and "nat (8 + 8 * entry_idx sb p) + 8 \<le> length (overflow_pages sb ! nat (overflow_idx sb p))"
proof -
  have ps: "128 \<le> page_size sb" using assms(1) by (simp add: indir_wf_def)
  show *: "nat (overflow_idx sb p) < length (overflow_pages sb)"
    using assms(3) overflow_split(4) [OF ps assms(2)] by linarith
  then have "length (overflow_pages sb ! nat (overflow_idx sb p)) = page_size sb"
    using assms(1) by (simp add: indir_wf_def)
  then show "nat (8 + 8 * entry_idx sb p) + 8 \<le> length (overflow_pages sb ! nat (overflow_idx sb p))"
    using overflow_split(2,3) [OF ps, of p] epo_bounds [OF ps] by linarith
qed

lemma indir_wf_put:
  assumes "indir_wf sb" "0 \<le> p"
  shows "indir_wf (put_entry sb p v)"
proof (cases "p < inline_count sb")
  case True
  with inline_offset(1) [OF assms True] assms(1) show ?thesis
    by (auto simp: put_entry_def indir_wf_def)
next
  case False
  show ?thesis
  proof (cases "overflow_idx sb p < overflow_count sb")
    case True
    from overflow_offset [OF assms(1) _ True] False
    have "length (wr8i (overflow_pages sb ! nat (overflow_idx sb p)) (nat (8 + 8 * entry_idx sb p)) v)
        = length (overflow_pages sb ! nat (overflow_idx sb p))"
      and "overflow_pages sb ! nat (overflow_idx sb p) \<in> set (overflow_pages sb)" by auto
    with assms(1) False True show ?thesis
      by (auto simp: put_entry_def indir_wf_def Let_def dest!: set_update_subset_insert [THEN subsetD])
  qed (use assms False in \<open>simp add: put_entry_def\<close>)
qed

lemma indir_lookup_put:
  assumes wf: "indir_wf sb" and p: "in_table sb p" and q: "0 \<le> q" and v: "i64 v"
  shows "indir_lookup (put_entry sb p v) q = (if q = p then v else indir_lookup sb q)"
proof -
  have ps: "128 \<le> page_size sb" using wf by (simp add: indir_wf_def)
  have idx [simp]: "overflow_idx (put_entry sb p v) = overflow_idx sb"
      "entry_idx (put_entry sb p v) = entry_idx sb"
    by (auto simp: overflow_idx_def entry_idx_def entries_per_overflow_def)
  show ?thesis
  proof (cases "p < inline_count sb")
    case True
    have "0 \<le> p" using p by (simp add: in_table_def)
    note op = inline_offset [OF wf this True]
    show ?thesis
    proof (cases "q < inline_count sb")
      case qin: True
      note oq = inline_offset [OF wf q qin]
      have "q \<noteq> p \<Longrightarrow> nat (96 + 8 * q) + 8 \<le> nat (96 + 8 * p) \<or> nat (96 + 8 * p) + 8 \<le> nat (96 + 8 * q)"
        using q \<open>0 \<le> p\<close> by linarith
      with op oq True qin v show ?thesis
        by (auto simp: indir_lookup_def put_entry_def buf_simps)
    qed (use True in \<open>auto simp: indir_lookup_def put_entry_def\<close>)
  next
    case False
    then have pin: "overflow_idx sb p < overflow_count sb"
      using p overflow_idx_less [OF ps] by (simp add: in_table_def)
    note op = overflow_offset [OF wf _ pin]
    show ?thesis
    proof (cases "q < inline_count sb")
      case True
      with False pin show ?thesis by (auto simp: indir_lookup_def put_entry_def Let_def)
    next
      case qout: False
      show ?thesis
      proof (cases "overflow_idx sb q < overflow_count sb")
        case qin: True
        note oq = overflow_offset [OF wf _ qin]
        have inj: "q \<noteq> p \<Longrightarrow> nat (overflow_idx sb q) = nat (overflow_idx sb p) \<Longrightarrow>
            entry_idx sb q + 1 \<le> entry_idx sb p \<or> entry_idx sb p + 1 \<le> entry_idx sb q"
        proof -
          assume ne: "q \<noteq> p" and eq: "nat (overflow_idx sb q) = nat (overflow_idx sb p)"
          have "overflow_idx sb q = overflow_idx sb p"
            using eq overflow_split(4) [OF ps, of p] overflow_split(4) [OF ps, of q] False qout
            by linarith
          with ne overflow_idx_inj [OF ps, of q p] have "entry_idx sb q \<noteq> entry_idx sb p" by auto
          then show ?thesis by linarith
        qed
        have "q \<noteq> p \<Longrightarrow> nat (overflow_idx sb q) = nat (overflow_idx sb p) \<Longrightarrow>
            nat (8 + 8 * entry_idx sb q) + 8 \<le> nat (8 + 8 * entry_idx sb p)
          \<or> nat (8 + 8 * entry_idx sb p) + 8 \<le> nat (8 + 8 * entry_idx sb q)"
          using inj overflow_split(2) [OF ps, of p] overflow_split(2) [OF ps, of q] by linarith
        with op oq False qout pin qin v show ?thesis
          by (auto simp: indir_lookup_def put_entry_def Let_def nth_list_update buf_simps)
      next
        case qnot: False
        with pin have "q \<noteq> p" by auto
        with qnot qout False pin show ?thesis by (auto simp: indir_lookup_def put_entry_def Let_def)
      qed
    qed
  qed
qed

subsection \<open>Growing the table\<close>

lemma lookup_link:
  assumes "indir_wf sb" "0 \<le> q" "n < length (overflow_pages sb)"
  shows "indir_lookup (sb\<lparr>overflow_pages := (overflow_pages sb)[n := wr8i (overflow_pages sb ! n) 0 v]\<rparr>) q
       = indir_lookup sb q"
proof -
  have len: "length (overflow_pages sb ! n) = page_size sb" "128 \<le> page_size sb"
    using assms by (auto simp: indir_wf_def)
  have "0 \<le> entry_idx sb q" using overflow_split(2) [OF len(2)] .
  then have "8 \<le> nat (8 + 8 * entry_idx sb q)" by linarith
  then have "rd8 (wr8i (overflow_pages sb ! n) 0 v) (nat (8 + 8 * entry_idx sb q))
      = rd8 (overflow_pages sb ! n) (nat (8 + 8 * entry_idx sb q))"
    using len by (simp add: buf_simps)
  then show ?thesis
    using assms(3)
    by (cases "nat (overflow_idx sb q) = n") (auto simp: indir_lookup_def)
qed

lemma lookup_append_zero:
  assumes "indir_wf sb" "0 \<le> q"
  shows "indir_lookup (sb\<lparr>overflow_pages := overflow_pages sb @ [zero_bytes (page_size sb)]\<rparr>) q
       = indir_lookup sb q"
proof (cases "q < inline_count sb")
  case False
  have ps: "128 \<le> page_size sb" using assms(1) by (simp add: indir_wf_def)
  have o0: "0 \<le> overflow_idx sb q" using overflow_split(4) [OF ps] False by simp
  have e: "0 \<le> entry_idx sb q" "entry_idx sb q < entries_per_overflow sb"
    using overflow_split(2,3) [OF ps] by auto
  then have "nat (8 + 8 * entry_idx sb q) + 8 \<le> page_size sb"
    using epo_bounds [OF ps] by linarith
  then have z: "rd8i (zero_bytes (page_size sb)) (nat (8 + 8 * entry_idx sb q)) = 0" by simp
  consider "overflow_idx sb q < overflow_count sb" | "overflow_idx sb q = overflow_count sb"
    | "overflow_idx sb q > overflow_count sb" by linarith
  then show ?thesis
  proof cases
    case 1
    then have "nat (overflow_idx sb q) < length (overflow_pages sb)" using o0 by linarith
    with 1 False show ?thesis by (simp add: indir_lookup_def nth_append)
  next
    case 2
    with z False show ?thesis by (simp add: indir_lookup_def nth_append)
  qed (use False in \<open>simp add: indir_lookup_def\<close>)
qed (simp add: indir_lookup_def)

definition grown :: "StorageBackend \<Rightarrow> StorageBackend \<Rightarrow> bool" where
  "grown sb sb' \<longleftrightarrow> indir_wf sb' \<and> page_size sb' = page_size sb \<and> sb_file sb' = sb_file sb
     \<and> sb_io sb' = sb_io sb \<and> sb_cache sb' = sb_cache sb \<and> total_pages sb' = total_pages sb
     \<and> segment_size sb' = segment_size sb
     \<and> physical_tail sb' = physical_tail sb + phys_record_size sb
     \<and> deferred_queue sb' = deferred_queue sb
     \<and> length (overflow_pages sb') = Suc (length (overflow_pages sb))
     \<and> take 96 (header_buf sb') = take 96 (header_buf sb)
     \<and> (\<forall>q \<ge> 0. indir_lookup sb' q
          = (if q = total_entries sb - 1 then physical_tail sb else indir_lookup sb q))"

lemma self_ref_inside:
  assumes "indir_wf sb"
  shows "in_table sb (total_entries sb - 1)"
proof -
  have ps: "128 \<le> page_size sb" using assms by (simp add: indir_wf_def)
  have "0 \<le> overflow_count sb * entries_per_overflow sb"
    using epo_bounds [OF ps] by (intro mult_nonneg_nonneg) auto
  then show ?thesis
    using inline_count_bounds [of "page_size sb"] ps by (simp add: in_table_def total_entries_def)
qed

lemma take96_put: "indir_wf sb \<Longrightarrow> 0 \<le> p \<Longrightarrow> take 96 (header_buf (put_entry sb p v)) = take 96 (header_buf sb)"
proof (cases "p < inline_count sb")
  case True
  assume *: "indir_wf sb" "0 \<le> p"
  from inline_offset [OF * True] show ?thesis
    using True by (simp add: put_entry_def wr8_def blit_def min_def)
qed (simp add: put_entry_def Let_def)

lemma grow_overflow_ok:
  assumes wf: "indir_wf sb" and h: "sb_heap sb = []" and t: "i64 (physical_tail sb)"
  shows "\<exists>sb'. grow_overflow sb = (True, sb') \<and> grown sb sb' \<and> sb_heap sb' = []"
proof -
  let ?p = "total_entries sb - 1"
  let ?s1 = "put_entry (sb\<lparr>physical_tail := physical_tail sb + phys_record_size sb\<rparr>) ?p (physical_tail sb)"
  let ?n = "length (overflow_pages sb)"
  define s2 where "s2 = ?s1\<lparr>overflow_cap := (if ?n \<ge> overflow_cap sb
      then (if overflow_cap sb = 0 then 8 else 2 * overflow_cap sb) else overflow_cap sb)\<rparr>"
  define s3 where "s3 = (if ?n > 0
      then s2\<lparr>overflow_pages := (overflow_pages s2)[?n - 1 := wr8i (overflow_pages s2 ! (?n - 1)) 0 ?p]\<rparr>
      else s2\<lparr>indirection_head := ?p\<rparr>)"
  define s4 where "s4 = s3\<lparr>overflow_pages := overflow_pages s3 @ [zero_bytes (page_size sb)]\<rparr>"
  have ps: "128 \<le> page_size sb" using wf by (simp add: indir_wf_def)
  have inside: "in_table sb ?p" using self_ref_inside [OF wf] .
  have p0: "0 \<le> ?p" using inside by (simp add: in_table_def)
  have wf0: "indir_wf (sb\<lparr>physical_tail := x\<rparr>)" for x using wf by (simp add: indir_wf_def)
  have wf1: "indir_wf ?s1" by (rule indir_wf_put [OF wf0 p0])
  have l1: "indir_lookup ?s1 q = (if q = ?p then physical_tail sb else indir_lookup sb q)" if "0 \<le> q" for q
    using indir_lookup_put [OF wf0 _ that t, of _ ?p] inside by (simp add: in_table_def)
  have l2: "indir_lookup s2 = indir_lookup ?s1" by (simp add: s2_def)
  have wf2: "indir_wf s2" using wf1 by (simp add: s2_def indir_wf_def)
  have l3: "indir_lookup s3 q = indir_lookup s2 q" if "0 \<le> q" for q
    using lookup_link [OF wf2 that, of "?n - 1" ?p] by (simp add: s3_def s2_def)
  have wf3: "indir_wf s3"
  proof (cases "?n > 0")
    case True
    have "length (overflow_pages s2 ! (?n - 1)) = page_size sb"
      using wf2 True by (simp add: indir_wf_def s2_def)
    with wf2 True ps show ?thesis
      by (auto simp: s3_def indir_wf_def s2_def dest!: set_update_subset_insert [THEN subsetD])
  qed (use wf2 in \<open>simp add: s3_def indir_wf_def\<close>)
  have l4: "indir_lookup s4 q = indir_lookup s3 q" if "0 \<le> q" for q
  proof -
    have "page_size sb = page_size s3" by (simp add: s3_def s2_def)
    then show ?thesis
      unfolding s4_def by (simp only: lookup_append_zero [OF wf3 that])
  qed
  have sref: "inline_count sb - 1 + overflow_count sb * entries_per_overflow sb = ?p"
    by (simp add: total_entries_def)
  have cond: "?p < inline_count sb \<or> overflow_idx sb ?p < overflow_count sb"
    using overflow_idx_less [OF ps, of ?p] by simp
  let ?r = "s4\<lparr>overflow_logical := overflow_logical sb @ [?p]\<rparr>"
  have "grow_overflow sb = (True, ?r)"
  proof (cases "overflow_pages sb = []")
    case True
    with h cond show ?thesis
      unfolding grow_overflow_def Let_def malloc_def s4_def s3_def s2_def
      by (simp add: total_entries_def)
  next
    case False
    with h cond show ?thesis
      unfolding grow_overflow_def Let_def malloc_def s4_def s3_def s2_def
      by (simp add: sref)
  qed
  moreover have "grown sb ?r"
  proof -
    have "length (overflow_pages s4) = Suc ?n"
      by (simp add: s4_def s3_def s2_def)
    moreover have "indir_wf ?r"
    proof -
      have "length b = page_size sb" if "b \<in> set (overflow_pages s4)" for b
        using that wf3 by (auto simp: s4_def indir_wf_def s3_def s2_def)
      moreover have "length (header_buf s4) = page_size sb"
        using wf3 by (simp add: s4_def indir_wf_def) (simp add: s3_def s2_def)
      moreover have "page_size s4 = page_size sb" by (simp add: s4_def s3_def s2_def)
      ultimately show ?thesis
        using ps wf \<open>length (overflow_pages s4) = Suc ?n\<close> by (simp add: indir_wf_def)
    qed
    moreover have "\<forall>q \<ge> 0. indir_lookup ?r q = (if q = ?p then physical_tail sb else indir_lookup sb q)"
      using l1 l2 l3 l4 by simp
    moreover have "take 96 (header_buf s4) = take 96 (header_buf sb)"
      using take96_put [OF wf0 p0] by (simp add: s4_def s3_def s2_def)
    ultimately show ?thesis
      by (simp add: grown_def) (simp add: s4_def s3_def s2_def)
  qed
  moreover have "sb_heap ?r = []" using h by (simp add: s4_def s3_def s2_def)
  ultimately show ?thesis by blast
qed

subsection \<open>The growth loop terminates and reaches the capacity\<close>

lemma malloc_other [simp]:
  "page_size (snd (malloc sb)) = page_size sb"
  "overflow_pages (snd (malloc sb)) = overflow_pages sb"
  by (auto simp: malloc_def split: list.splits)

lemma grow_overflow_length:
  "grow_overflow sb = (True, sb') \<Longrightarrow>
   page_size sb' = page_size sb \<and> length (overflow_pages sb') = Suc (length (overflow_pages sb))"
  by (auto simp: grow_overflow_def Let_def case_prod_beta split: if_splits)

termination ensure_loop
proof (relation "measure (\<lambda>(required, sb). nat (required + 1 - total_entries sb))")
  fix required sb x ok sb'
  assume g: "required \<ge> total_entries sb \<and> 0 < entries_per_overflow sb"
    and x: "x = grow_overflow sb" "(ok, sb') = x" "ok"
  then have "grow_overflow sb = (True, sb')" by simp
  from grow_overflow_length [OF this] have "total_entries sb' = total_entries sb + entries_per_overflow sb"
    by (simp add: total_entries_def entries_per_overflow_def algebra_simps)
  with g show "((required, sb'), (required, sb)) \<in> measure (\<lambda>(required, sb). nat (required + 1 - total_entries sb))"
    by simp
qed simp

declare ensure_loop.simps [simp del]

lemma grown_total_entries:
  "grown sb sb' \<Longrightarrow> total_entries sb' = total_entries sb + entries_per_overflow sb"
  by (simp add: grown_def total_entries_def entries_per_overflow_def algebra_simps)

section \<open>Properties\<close>

text \<open>A small formatted store: 128-byte pages, page 1 mapped, an empty cache.\<close>

definition demo_sb :: StorageBackend where
  "demo_sb = \<lparr>sb_file = zero_bytes 288, sb_io = [], sb_heap = [], page_size = 128, total_pages = 2,
     segment_size = 8, physical_tail = 288, indirection_head = 0,
     header_buf = wr8i (zero_bytes 128) 104 144, overflow_pages = [], overflow_logical = [],
     overflow_cap = 0,
     sb_cache = \<lparr>buckets = [[], []], entry_count = 0, max_entries = 4, dirty_count = 0,
       lru_clock = 0, evict_due = False\<rparr>,
     deferred_queue = None\<rparr>"

lemma demo_wf: "indir_wf demo_sb" "healthy demo_sb" "cache_wf (sb_cache demo_sb)"
  by (simp_all add: demo_sb_def indir_wf_def healthy_def cache_wf_def cache_shape_def cache_counts_def
      nth_Cons' count_dirty_def)

lemma demo_cached: "cached (sb_cache demo_sb) p = None"
proof -
  have "bucket_index (sb_cache demo_sb) p < 2"
    using bucket_index_shape [of "sb_cache demo_sb" p] demo_wf(3) by (simp add: cache_wf_def demo_sb_def)
  then show ?thesis
    by (auto simp: cached_def cache_peek_def bucket_of_def demo_sb_def nth_Cons')
qed



text \<open>C5: writing an entry of the indirection table changes the mapping of that page and of no
  other, for inline and overflow entries alike.\<close>

theorem indir_set_lookup:
  assumes "indir_wf sb" "in_table sb p" "0 \<le> q" "i64 v"
  shows "indir_lookup (indir_set sb p v) q = (if q = p then v else indir_lookup sb q)"
proof -
  have "p < inline_count sb \<or> overflow_idx sb p < overflow_count sb"
    using assms(1,2) overflow_idx_less [of sb p] by (auto simp: indir_wf_def in_table_def)
  then have "indir_lookup (indir_set sb p v) q = indir_lookup (put_entry sb p v) q"
    by (auto simp: indir_set_def Let_def)
  with indir_lookup_put [OF assms] show ?thesis by simp
qed

theorem indir_set_lookup_witness:
  "indir_lookup (indir_set demo_sb 2 288) 1 = (if 1 = (2 :: int) then 288 else indir_lookup demo_sb 1)"
  by (rule indir_set_lookup [OF demo_wf(1)])
    (simp_all add: demo_sb_def in_table_def total_entries_def inline_entry_count_def i64_def)

end
