(* ===== verification/PageRead.thy ===== *)
theory PageRead
  imports Storage
begin

text \<open>
  Reading a page: \<^verbatim>\<open>mirror_read_with_status\<close> of \<^verbatim>\<open>src/lazy_mirror.c\<close>, which picks the
  newer of the two on-disk copies and falls back to the other one when its
  checksum fails, and \<^verbatim>\<open>storage_read_with_status\<close>/\<^verbatim>\<open>storage_write\<close> of
  \<^verbatim>\<open>src/storage.c\<close>, which put the page cache in front of it.

  \<open>page_view\<close> is the content of a page as a client sees it: the cached payload,
  or else what the disk copies give. The locale \<open>page_store\<close> is the contract the
  pool and the tree rely on; the storage functions are its interpretation.
\<close>

section \<open>Lazy mirror: read (lazy\_mirror.c)\<close>

definition page_crc :: "bytes \<Rightarrow> u32" where
  "page_crc b = vfs_crc32c vfs_crc32c_sw (Some b)"

definition read_page_header :: "StorageBackend \<Rightarrow> int \<Rightarrow> PageHeader option \<times> StorageBackend" where
  "read_page_header sb off =
     (let (b, sb) = pread sb PAGE_HEADER_SIZE off
      in (if length b = PAGE_HEADER_SIZE then Some (ph_parse b) else None, sb))"

definition physical_offset :: "StorageBackend \<Rightarrow> int \<Rightarrow> int" where
  "physical_offset sb p =
     (if p = 0 then 0
      else if p = 1 then int (page_size sb) + int PAGE_HEADER_SIZE
      else indir_lookup sb p)"

text \<open>
  The three single-copy branches of the C function are the same code: read the
  payload at the record, report a short read as \<open>-1\<close> and a checksum mismatch as
  \<open>-2\<close>.
\<close>

definition read_single :: "StorageBackend \<Rightarrow> int \<Rightarrow> PageHeader \<Rightarrow> int \<times> bytes \<times> StorageBackend" where
  "read_single sb off ph =
     (let (b, sb) = pread sb (page_size sb) (off + int PAGE_HEADER_SIZE)
      in if length b \<noteq> page_size sb then (-1, b, sb)
         else if page_crc b \<noteq> ph_checksum ph then (-2, b, sb)
         else (0, b, sb))"

definition mirror_read_with_status :: "StorageBackend \<Rightarrow> int \<Rightarrow> int \<times> bytes \<times> StorageBackend" where
  "mirror_read_with_status sb p =
     (let off = physical_offset sb p in
      if off < 0 then (-1, [], sb)
      else
        let (hdr, sb) = read_page_header sb off in
        case hdr of None \<Rightarrow> (-1, [], sb)
        | Some ph \<Rightarrow>
            if ph_mirror_page ph = -1 then read_single sb off ph
            else
              let sib_off = indir_lookup sb (sint (ph_mirror_page ph)) in
              if sib_off = 0 then read_single sb off ph
              else
                let (hdr, sb) = read_page_header sb sib_off in
                case hdr of None \<Rightarrow> read_single sb off ph
                | Some ph_sib \<Rightarrow>
                    let newer_sib = ph_generation ph_sib > ph_generation ph;
                        (a_off, a_ph) = (if newer_sib then (sib_off, ph_sib) else (off, ph));
                        (o_off, o_ph) = (if a_off = off then (sib_off, ph_sib) else (off, ph));
                        (b, sb) = pread sb (page_size sb) (a_off + int PAGE_HEADER_SIZE) in
                    if length b = page_size sb \<and> page_crc b = ph_checksum a_ph then (0, b, sb)
                    else
                      let (b, sb) = pread sb (page_size sb) (o_off + int PAGE_HEADER_SIZE) in
                      if length b = page_size sb \<and> page_crc b = ph_checksum o_ph then (0, b, sb)
                      else (-2, b, sb))"

section \<open>Read and write through the cache (storage.c)\<close>

datatype StorageReadStatus = STORAGE_OK | STORAGE_NOT_FOUND | STORAGE_IO_ERROR | STORAGE_CRC_ERROR

definition storage_read_with_status ::
  "StorageBackend \<Rightarrow> int \<Rightarrow> bytes option \<times> StorageReadStatus \<times> StorageBackend" where
  "storage_read_with_status sb p =
     (let (ce, c) = cache_find (sb_cache sb) p;
          sb = sb\<lparr>sb_cache := c\<rparr> in
      case ce of Some e \<Rightarrow> (Some (ce_payload e), STORAGE_OK, sb)
      | None \<Rightarrow>
          if indir_lookup sb p = 0 then (None, STORAGE_NOT_FOUND, sb)
          else
            let (ok, sb) = malloc sb in
            if \<not> ok then (None, STORAGE_IO_ERROR, sb)
            else
              let (st, buf, sb) = mirror_read_with_status sb p in
              if st \<noteq> 0 then (None, if st = -2 then STORAGE_CRC_ERROR else STORAGE_IO_ERROR, sb)
              else
                let sb = cache_insert sb p buf 0 False;
                    (ce, c) = cache_find (sb_cache sb) p
                in (map_option ce_payload ce, STORAGE_OK, sb\<lparr>sb_cache := c\<rparr>))"

definition storage_write :: "StorageBackend \<Rightarrow> int \<Rightarrow> bytes \<Rightarrow> nat \<Rightarrow> StorageBackend" where
  "storage_write sb p payload prio = cache_insert sb p payload prio True"

section \<open>What a client sees of a page\<close>

definition disk_page :: "StorageBackend \<Rightarrow> int \<Rightarrow> bytes option" where
  "disk_page sb p =
     (let (st, b, _) = mirror_read_with_status (sb\<lparr>sb_io := [], sb_heap := []\<rparr>) p
      in if st = 0 then Some b else None)"

definition page_view :: "StorageBackend \<Rightarrow> int \<Rightarrow> bytes option" where
  "page_view sb p =
     (case cached (sb_cache sb) p of
        Some b \<Rightarrow> Some b
      | None \<Rightarrow> if indir_lookup sb p = 0 then None else disk_page sb p)"

section \<open>The disk copies as a function of the file\<close>

definition rec_header :: "bytes \<Rightarrow> int \<Rightarrow> PageHeader option" where
  "rec_header f off = (if off < 0 \<or> length f < nat off + 16 then None
     else Some (ph_parse (chunk f (nat off) 16)))"

definition rec_payload :: "bytes \<Rightarrow> nat \<Rightarrow> int \<Rightarrow> bytes" where
  "rec_payload f ps off = (if off < -16 then [] else chunk f (nat (off + 16)) ps)"

definition copy_ok :: "bytes \<Rightarrow> nat \<Rightarrow> int \<Rightarrow> PageHeader \<Rightarrow> bool" where
  "copy_ok f ps off ph \<longleftrightarrow>
     length (rec_payload f ps off) = ps \<and> page_crc (rec_payload f ps off) = ph_checksum ph"

definition single_status :: "bytes \<Rightarrow> nat \<Rightarrow> int \<Rightarrow> PageHeader \<Rightarrow> int \<times> bytes" where
  "single_status f ps off ph =
     (if length (rec_payload f ps off) \<noteq> ps then -1
      else if page_crc (rec_payload f ps off) \<noteq> ph_checksum ph then -2 else 0,
      rec_payload f ps off)"

definition disk_status :: "bytes \<Rightarrow> nat \<Rightarrow> (int \<Rightarrow> int) \<Rightarrow> int \<Rightarrow> int \<times> bytes" where
  "disk_status f ps look off =
     (case rec_header f off of None \<Rightarrow> (-1, [])
      | Some ph \<Rightarrow>
          if ph_mirror_page ph = -1 then single_status f ps off ph
          else let so = look (sint (ph_mirror_page ph)) in
          if so = 0 then single_status f ps off ph
          else case rec_header f so of None \<Rightarrow> single_status f ps off ph
          | Some sh \<Rightarrow>
              let (a, ah, b, bh) = (if ph_generation sh > ph_generation ph \<and> so \<noteq> off
                                    then (so, sh, off, ph)
                                    else if ph_generation sh > ph_generation ph then (so, sh, so, sh)
                                    else (off, ph, so, sh)) in
              if copy_ok f ps a ah then (0, rec_payload f ps a)
              else if copy_ok f ps b bh then (0, rec_payload f ps b)
              else (-2, rec_payload f ps b))"

lemma pread_quiet:
  "sb_io sb = [] \<Longrightarrow> pread sb n off = (if off < 0 then [] else chunk (sb_file sb) (nat off) n, sb)"
  by (simp add: pread_def io_limit_def)

lemma read_page_header_quiet:
  "sb_io sb = [] \<Longrightarrow> read_page_header sb off = (rec_header (sb_file sb) off, sb)"
  by (auto simp: read_page_header_def pread_quiet rec_header_def)

lemma read_single_quiet:
  "sb_io sb = [] \<Longrightarrow>
   read_single sb off ph = (case single_status (sb_file sb) (page_size sb) off ph of (st, b) \<Rightarrow> (st, b, sb))"
  by (auto simp: read_single_def pread_quiet single_status_def rec_payload_def)

lemma mirror_read_quiet:
  assumes "sb_io sb = []"
  shows "mirror_read_with_status sb p =
    (if physical_offset sb p < 0 then (-1, [], sb)
     else case disk_status (sb_file sb) (page_size sb) (indir_lookup sb) (physical_offset sb p) of
            (st, b) \<Rightarrow> (st, b, sb))"
proof -
  have neg: "rec_payload f ps x = (if x + 16 < 0 then [] else chunk f (nat (x + 16)) ps)" for f ps x
    by (auto simp: rec_payload_def)
  let ?f = "sb_file sb" and ?o = "physical_offset sb p"
  note quiet = read_page_header_quiet [OF assms] read_single_quiet [OF assms] pread_quiet [OF assms]
  show ?thesis
  proof (cases "?o < 0")
    case True
    then show ?thesis by (simp add: mirror_read_with_status_def)
  next
    case pos: False
    show ?thesis
    proof (cases "rec_header ?f ?o")
      case None
      with pos show ?thesis by (simp add: mirror_read_with_status_def quiet disk_status_def)
    next
      case (Some ph)
      let ?so = "indir_lookup sb (sint (ph_mirror_page ph))"
      show ?thesis
      proof (cases "ph_mirror_page ph = -1 \<or> ?so = 0 \<or> rec_header ?f ?so = None")
        case True
        with pos Some show ?thesis
          by (auto simp: mirror_read_with_status_def quiet disk_status_def Let_def)
      next
        case False
        then obtain sh where sh: "rec_header ?f ?so = Some sh" by auto
        consider (new) "ph_generation sh > ph_generation ph" "?so \<noteq> ?o"
          | (same) "ph_generation sh > ph_generation ph" "?so = ?o"
          | (old) "\<not> ph_generation sh > ph_generation ph" by blast
        then show ?thesis
          using pos Some False sh
          by cases (simp_all add: mirror_read_with_status_def quiet disk_status_def Let_def
              copy_ok_def neg del: word_not_simps)
      qed
    qed
  qed
qed

lemma disk_page_eq:
  "disk_page sb p =
     (if physical_offset sb p < 0 then None
      else case disk_status (sb_file sb) (page_size sb) (indir_lookup sb) (physical_offset sb p) of
        (st, b) \<Rightarrow> if st = 0 then Some b else None)"
  by (auto simp: disk_page_def mirror_read_quiet physical_offset_def split: prod.splits)

lemma disk_status_length: "disk_status f ps look off = (0, b) \<Longrightarrow> length b = ps"
  by (auto simp: disk_status_def single_status_def copy_ok_def Let_def
      split: option.splits if_splits prod.splits)

lemma disk_page_length: "disk_page sb p = Some b \<Longrightarrow> length b = page_size sb"
  by (auto simp: disk_page_eq split: if_splits prod.splits dest: disk_status_length)

lemma disk_page_upd [simp]:
  "disk_page (sb\<lparr>sb_cache := c\<rparr>) = disk_page sb"
  "disk_page (sb\<lparr>sb_heap := h\<rparr>) = disk_page sb"
  "disk_page (sb\<lparr>sb_io := io\<rparr>) = disk_page sb"
  by (auto simp: fun_eq_iff disk_page_eq physical_offset_def)

lemma page_view_cache:
  "page_view (sb\<lparr>sb_cache := c\<rparr>) p =
     (case cached c p of Some b \<Rightarrow> Some b | None \<Rightarrow> if indir_lookup sb p = 0 then None else disk_page sb p)"
  by (simp add: page_view_def split: option.split)

section \<open>The page store contract\<close>

text \<open>
  A read-modify-write of a resident page, the way the free list, the Bin and the
  pool use the store: read, write through the returned pointer, mark dirty. A
  failed read changes nothing.
\<close>

definition rmw ::
  "('s \<Rightarrow> int \<Rightarrow> bytes option \<times> StorageReadStatus \<times> 's) \<Rightarrow> ('s \<Rightarrow> int \<Rightarrow> (bytes \<Rightarrow> bytes) \<Rightarrow> 's) \<Rightarrow>
   ('s \<Rightarrow> int \<Rightarrow> nat \<Rightarrow> 's) \<Rightarrow> 's \<Rightarrow> int \<Rightarrow> (bytes \<Rightarrow> bytes) \<Rightarrow> nat \<Rightarrow> 's" where
  "rmw rd poke mark s p f prio =
     (case rd s p of
        (Some _, STORAGE_OK, s') \<Rightarrow> mark (poke s' p f) p prio
      | (_, _, s') \<Rightarrow> s')"

locale page_store =
  fixes inv :: "'s \<Rightarrow> bool"
    and psize :: "'s \<Rightarrow> nat"
    and view :: "'s \<Rightarrow> int \<Rightarrow> bytes option"
    and resident :: "'s \<Rightarrow> int \<Rightarrow> bool"
    and rd :: "'s \<Rightarrow> int \<Rightarrow> bytes option \<times> StorageReadStatus \<times> 's"
    and poke :: "'s \<Rightarrow> int \<Rightarrow> (bytes \<Rightarrow> bytes) \<Rightarrow> 's"
    and mark :: "'s \<Rightarrow> int \<Rightarrow> nat \<Rightarrow> 's"
    and wr :: "'s \<Rightarrow> int \<Rightarrow> bytes \<Rightarrow> nat \<Rightarrow> 's"
  assumes view_length: "inv s \<Longrightarrow> view s p = Some b \<Longrightarrow> length b = psize s"
    and rd_law: "inv s \<Longrightarrow> rd s p = (r, st, s') \<Longrightarrow>
      r = view s p \<and> (st = STORAGE_OK \<longleftrightarrow> r \<noteq> None) \<and> inv s' \<and> view s' = view s
      \<and> psize s' = psize s \<and> (r \<noteq> None \<longrightarrow> resident s' p)"
    and poke_law: "inv s \<Longrightarrow> resident s p \<Longrightarrow> (\<And>b. length b = psize s \<Longrightarrow> length (f b) = length b) \<Longrightarrow>
      inv (poke s p f) \<and> psize (poke s p f) = psize s
      \<and> view (poke s p f) = (view s)(p := map_option f (view s p))"
    and mark_law: "inv s \<Longrightarrow> inv (mark s p n) \<and> psize (mark s p n) = psize s \<and> view (mark s p n) = view s"
    and wr_law: "inv s \<Longrightarrow> length b = psize s \<Longrightarrow>
      inv (wr s p b n) \<and> psize (wr s p b n) = psize s \<and> view (wr s p b n) = (view s)(p \<mapsto> b)"
begin

lemma rmw_law:
  assumes "inv s" "\<And>b. length b = psize s \<Longrightarrow> length (f b) = length b"
  shows "inv (rmw rd poke mark s p f n)"
    and "psize (rmw rd poke mark s p f n) = psize s"
    and "view (rmw rd poke mark s p f n) = (view s)(p := map_option f (view s p))"
proof -
  obtain r st s' where r: "rd s p = (r, st, s')" by (cases "rd s p") auto
  note law = rd_law [OF assms(1) r]
  show "inv (rmw rd poke mark s p f n)" "psize (rmw rd poke mark s p f n) = psize s"
    "view (rmw rd poke mark s p f n) = (view s)(p := map_option f (view s p))"
    using law poke_law [of s' p f] mark_law [of "poke s' p f" p n] assms(2)
    by (cases r; cases st; auto simp: rmw_def r)+
qed

end

section \<open>The storage functions meet the contract\<close>

definition payloads_ok :: "StorageBackend \<Rightarrow> bool" where
  "payloads_ok sb \<longleftrightarrow> (\<forall>p b. cached (sb_cache sb) p = Some b \<longrightarrow> length b = page_size sb)"

definition store_inv :: "StorageBackend \<Rightarrow> bool" where
  "store_inv sb \<longleftrightarrow> healthy sb \<and> cache_wf (sb_cache sb) \<and> payloads_ok sb"

definition sb_resident :: "StorageBackend \<Rightarrow> int \<Rightarrow> bool" where
  "sb_resident sb p \<longleftrightarrow> cached (sb_cache sb) p \<noteq> None"

lemma cache_insert_healthy:
  assumes "healthy sb" "cache_wf (sb_cache sb)"
  shows "\<exists>c. cache_insert sb p b n d = sb\<lparr>sb_cache := c\<rparr> \<and> cache_wf c
           \<and> cached c = (cached (sb_cache sb))(p \<mapsto> b)"
proof -
  have "cache_insert sb p b n d = sb\<lparr>sb_cache := sb_cache (cache_insert sb p b n d)\<rparr>"
    using assms(1) by (auto simp: cache_insert_def Let_def split: option.splits)
  moreover have "cache_wf (sb_cache (cache_insert sb p b n d))"
    using assms(2) by (rule cache_wf_insert)
  moreover have "cached (sb_cache (cache_insert sb p b n d)) = (cached (sb_cache sb))(p \<mapsto> b)"
    using assms by (intro cached_insert) (simp_all add: cache_wf_def healthy_def)
  ultimately show ?thesis by blast
qed

lemma storage_read_law:
  assumes "store_inv sb" "storage_read_with_status sb p = (r, st, sb')"
  shows "\<exists>c. sb' = sb\<lparr>sb_cache := c\<rparr> \<and> cache_wf c \<and> r = page_view sb p
           \<and> (st = STORAGE_OK \<longleftrightarrow> r \<noteq> None) \<and> page_view sb' = page_view sb
           \<and> (\<forall>b. r = Some b \<longrightarrow> cached c p = Some b)
           \<and> (\<forall>q \<noteq> p. cached c q = cached (sb_cache sb) q)"
proof -
  have wf: "cache_wf (sb_cache sb)" "cache_shape (sb_cache sb)" and h: "healthy sb"
    using assms(1) by (auto simp: store_inv_def cache_wf_def)
  define c1 where "c1 = snd (cache_find (sb_cache sb) p)"
  have c1: "cache_wf c1" "cached c1 = cached (sb_cache sb)"
    using wf by (simp_all add: c1_def cache_wf_find cached_find)
  have v1: "page_view (sb\<lparr>sb_cache := c1\<rparr>) = page_view sb"
    by (rule ext) (simp add: page_view_cache c1(2) page_view_def split: option.split)
  have f1: "map_option ce_payload (fst (cache_find (sb_cache sb) p)) = cached (sb_cache sb) p"
    using wf by (simp add: cached_find)
  show ?thesis
  proof (cases "fst (cache_find (sb_cache sb) p)")
    case (Some e)
    then have hit: "cached (sb_cache sb) p = Some (ce_payload e)" using f1 by simp
    have "storage_read_with_status sb p = (Some (ce_payload e), STORAGE_OK, sb\<lparr>sb_cache := c1\<rparr>)"
      using Some by (simp add: storage_read_with_status_def c1_def case_prod_beta)
    moreover have "page_view sb p = Some (ce_payload e)" using hit by (simp add: page_view_def)
    ultimately show ?thesis
      using assms(2) hit c1 v1 by (intro exI [of _ c1]) simp
  next
    case None
    then have miss: "cached (sb_cache sb) p = None" using f1 by simp
    let ?s1 = "sb\<lparr>sb_cache := c1\<rparr>"
    have h1: "healthy ?s1" using h by (simp add: healthy_def)
    show ?thesis
    proof (cases "indir_lookup sb p = 0")
      case True
      have "storage_read_with_status sb p = (None, STORAGE_NOT_FOUND, ?s1)"
        using None True by (simp add: storage_read_with_status_def c1_def case_prod_beta)
      with assms(2) True miss c1 v1 show ?thesis by (auto simp: page_view_def)
    next
      case False
      obtain mst buf s2 where m: "mirror_read_with_status ?s1 p = (mst, buf, s2)"
        by (cases "mirror_read_with_status ?s1 p") auto
      have s2: "s2 = ?s1" and dp: "disk_page sb p = (if mst = 0 then Some buf else None)"
        using m h1 by (auto simp: mirror_read_quiet healthy_def disk_page_eq physical_offset_def
            split: if_splits prod.splits)
      have pv: "page_view sb p = disk_page sb p" using miss False by (simp add: page_view_def)
      show ?thesis
      proof (cases "mst = 0")
        case False': False
        have "storage_read_with_status sb p
            = (None, if mst = -2 then STORAGE_CRC_ERROR else STORAGE_IO_ERROR, ?s1)"
          using None False False' m s2 h1
          by (simp add: storage_read_with_status_def c1_def case_prod_beta)
        with assms(2) False' dp pv c1 v1 show ?thesis by (auto split: if_splits)
      next
        case True
        obtain c2 where c2: "cache_insert ?s1 p buf 0 False = ?s1\<lparr>sb_cache := c2\<rparr>" "cache_wf c2"
            "cached c2 = (cached c1)(p \<mapsto> buf)"
          using cache_insert_healthy [OF h1, of p buf 0 False] c1 by auto
        define c3 where "c3 = snd (cache_find c2 p)"
        have c3: "cache_wf c3" "cached c3 = cached c2"
          using cache_wf_find [OF c2(2), of p] cached_find(2) [of c2 p] c2(2)
          by (simp_all add: c3_def cache_wf_def)
        have f3: "map_option ce_payload (fst (cache_find c2 p)) = Some buf"
          using c2(2,3) by (simp add: cached_find cache_wf_def)
        have "storage_read_with_status sb p = (Some buf, STORAGE_OK, sb\<lparr>sb_cache := c3\<rparr>)"
          using None False True m s2 h1 c2(1) f3
          by (simp add: storage_read_with_status_def c1_def c3_def case_prod_beta)
        moreover have "page_view (sb\<lparr>sb_cache := c3\<rparr>) = page_view sb"
          using True dp pv miss False
          by (auto simp: fun_eq_iff page_view_cache c3 c2(3) c1(2) page_view_def split: option.split)
        ultimately show ?thesis
          using assms(2) True dp pv c3 c2(3) c1(2) by auto
      qed
    qed
  qed
qed

lemma page_view_length:
  "store_inv sb \<Longrightarrow> page_view sb p = Some b \<Longrightarrow> length b = page_size sb"
  by (auto simp: store_inv_def payloads_ok_def page_view_def disk_page_length
      split: option.splits if_splits)

interpretation sbs: page_store store_inv page_size page_view sb_resident
    storage_read_with_status cache_poke sb_mark_dirty storage_write
proof
  fix s p b assume "store_inv s" "page_view s p = Some b"
  then show "length b = page_size s" by (rule page_view_length)
next
  fix s p r st s' assume inv: "store_inv s" and r: "storage_read_with_status s p = (r, st, s')"
  from storage_read_law [OF inv r] obtain c where c: "s' = s\<lparr>sb_cache := c\<rparr>" "cache_wf c"
    "r = page_view s p" "st = STORAGE_OK \<longleftrightarrow> r \<noteq> None" "page_view s' = page_view s"
    "\<And>b. r = Some b \<Longrightarrow> cached c p = Some b" "\<And>q. q \<noteq> p \<Longrightarrow> cached c q = cached (sb_cache s) q"
    by blast
  have "length b = page_size s" if "cached c q = Some b" for q b
  proof -
    have "page_view s q = Some b"
      using that by (subst c(5) [symmetric]) (simp add: c(1) page_view_cache)
    then show ?thesis by (rule page_view_length [OF inv])
  qed
  with inv c(1,2) have "store_inv s'"
    by (auto simp: store_inv_def payloads_ok_def healthy_def)
  then show "r = page_view s p \<and> (st = STORAGE_OK \<longleftrightarrow> r \<noteq> None) \<and> store_inv s' \<and> page_view s' = page_view s
      \<and> page_size s' = page_size s \<and> (r \<noteq> None \<longrightarrow> sb_resident s' p)"
    using c by (auto simp: sb_resident_def)
next
  fix s p and f :: "bytes \<Rightarrow> bytes"
  assume inv: "store_inv s" and res: "sb_resident s p" and f: "\<And>b. length b = page_size s \<Longrightarrow> length (f b) = length b"
  let ?s = "cache_poke s p f"
  have sh: "cache_shape (sb_cache s)" using inv by (simp add: store_inv_def cache_wf_def)
  have ca: "cached (sb_cache ?s) = (cached (sb_cache s))(p := map_option f (cached (sb_cache s) p))"
    by (rule cached_poke [OF sh])
  have sb: "?s = s\<lparr>sb_cache := sb_cache ?s\<rparr>" by (simp add: cache_poke_def)
  have "store_inv ?s"
    using inv f cache_wf_poke [of s p f] ca
    by (auto simp: store_inv_def healthy_def payloads_ok_def cache_poke_def split: if_splits)
  moreover have "page_view ?s = (page_view s)(p := map_option f (page_view s p))"
    using res by (subst sb) (auto simp: fun_eq_iff page_view_cache ca sb_resident_def page_view_def split: option.split)
  ultimately show "store_inv ?s \<and> page_size ?s = page_size s
      \<and> page_view ?s = (page_view s)(p := map_option f (page_view s p))"
    by (simp add: cache_poke_def)
next
  fix s p n assume inv: "store_inv s"
  let ?c = "cache_mark_dirty (sb_cache s) p n"
  have "cached ?c = cached (sb_cache s)" "cache_wf ?c"
    using inv by (simp_all add: store_inv_def cache_wf_def cache_wf_mark_dirty [unfolded cache_wf_def])
  with inv show "store_inv (sb_mark_dirty s p n) \<and> page_size (sb_mark_dirty s p n) = page_size s
      \<and> page_view (sb_mark_dirty s p n) = page_view s"
    by (auto simp: store_inv_def healthy_def payloads_ok_def fun_eq_iff page_view_cache page_view_def
        split: option.split)
next
  fix s p n and b :: bytes assume inv: "store_inv s" and len: "length b = page_size s"
  obtain c where c: "storage_write s p b n = s\<lparr>sb_cache := c\<rparr>" "cache_wf c"
      "cached c = (cached (sb_cache s))(p \<mapsto> b)"
    using cache_insert_healthy [of s p b n True] inv by (auto simp: store_inv_def storage_write_def)
  with inv len show "store_inv (storage_write s p b n) \<and> page_size (storage_write s p b n) = page_size s
      \<and> page_view (storage_write s p b n) = (page_view s)(p \<mapsto> b)"
    by (auto simp: store_inv_def healthy_def payloads_ok_def fun_eq_iff page_view_cache page_view_def
        split: option.split if_splits)
qed

abbreviation storage_rmw :: "StorageBackend \<Rightarrow> int \<Rightarrow> (bytes \<Rightarrow> bytes) \<Rightarrow> nat \<Rightarrow> StorageBackend" where
  "storage_rmw \<equiv> rmw storage_read_with_status cache_poke sb_mark_dirty"

text \<open>The state outside the cache is not touched by reads and read-modify-writes.\<close>

definition same_but_cache :: "StorageBackend \<Rightarrow> StorageBackend \<Rightarrow> bool" where
  "same_but_cache sb sb' \<longleftrightarrow> sb' = sb\<lparr>sb_cache := sb_cache sb'\<rparr>"

lemma same_but_cache_refl [simp]: "same_but_cache sb sb"
  by (simp add: same_but_cache_def)

lemma same_but_cache_trans [trans]:
  "same_but_cache a b \<Longrightarrow> same_but_cache b c \<Longrightarrow> same_but_cache a c"
  unfolding same_but_cache_def by (cases a; cases b; cases c) simp

section \<open>Properties\<close>

lemma demo_store_inv: "store_inv demo_sb"
  using demo_wf by (simp add: store_inv_def payloads_ok_def demo_cached)



end
