(* ===== verification/Alloc.thy ===== *)
theory Alloc
  imports PageRead
begin

text \<open>
  Page allocation of \<^verbatim>\<open>src/storage.c\<close>: the tail-advance path, the free-page queue
  (whose metadata pages are read and written through the cache),
  \<^verbatim>\<open>storage_allocate\<close>, \<^verbatim>\<open>storage_acquire\<close> and \<^verbatim>\<open>storage_free\<close>.

  The invariant \<open>alloc_inv\<close> says that every mapped page owns a record of its own
  below \<^verbatim>\<open>physical_tail\<close> and that the self-references of the indirection table are
  in place. The lemmas show that allocation returns (the loop of the code has no
  bound of its own), that the page is fresh and owns a new record, that no
  mapped page moves, and that the invariant is kept.
\<close>

section \<open>Claiming an entry\<close>

definition try_claim_entry :: "StorageBackend \<Rightarrow> int \<Rightarrow> int \<Rightarrow> bool \<times> StorageBackend" where
  "try_claim_entry sb p phys =
     (if indir_lookup sb p \<noteq> 0 then (False, sb)
      else if p < inline_count sb \<or> overflow_idx sb p < overflow_count sb
      then (True, put_entry sb p phys)
      else (False, sb))"

section \<open>Tail advance\<close>

text \<open>
  The model runs one thread at a time: a compare-and-swap loop on a counter is the
  update it performs, and a failed compare-and-swap is a branch wherever the code
  has one. The inner loop on \<^verbatim>\<open>total_pages\<close> never succeeds when the counter is below
  2, hence the value \<open>None\<close> there.

  The growth test the code makes before and after it bumps \<^verbatim>\<open>total_pages\<close>: the page
  is beyond the table, or it is the slot reserved for an overflow page that does
  not exist yet.
\<close>

definition needs_grow :: "StorageBackend \<Rightarrow> int \<Rightarrow> bool" where
  "needs_grow sb p =
     (if p < inline_count sb then p = inline_count sb - 1 \<and> indir_lookup sb p = 0
      else overflow_idx sb p \<ge> overflow_count sb
        \<or> entry_idx sb p = entries_per_overflow sb - 1 \<and> indir_lookup sb p = 0)"

partial_function (option) tail_loop :: "int \<Rightarrow> nat \<Rightarrow> StorageBackend \<Rightarrow> (int \<times> StorageBackend) option" where
  "tail_loop old_tail oob sb =
     (if needs_grow sb (max 2 (total_pages sb))
      then let (ok, sb) = indir_ensure_capacity sb 1
           in if \<not> ok then Some (-1, sb) else tail_loop old_tail oob sb
      else if total_pages sb < 2 then None
      else
        let logical = total_pages sb;
            (claimed, sb) = try_claim_entry (sb\<lparr>total_pages := logical + 1\<rparr>) logical old_tail in
        if claimed then Some (logical, sb)
        else if needs_grow sb logical
        then
          if oob + 1 > 8 then Some (-1, sb)
          else let (ok, sb) = indir_ensure_capacity sb 1 in
               if \<not> ok then Some (-1, sb)
               else let (claimed, sb) = try_claim_entry sb logical old_tail in
                    if claimed then Some (logical, sb) else tail_loop old_tail (oob + 1) sb
        else tail_loop old_tail oob sb)"

definition storage_allocate_tail_advance :: "StorageBackend \<Rightarrow> int \<Rightarrow> (int \<times> StorageBackend) option" where
  "storage_allocate_tail_advance sb count =
     (let (ok, sb) = indir_ensure_capacity sb count in
      if \<not> ok then Some (-1, sb)
      else let old_tail = physical_tail sb
           in tail_loop old_tail 0 (sb\<lparr>physical_tail := old_tail + phys_record_size sb\<rparr>))"

section \<open>The free-page queue\<close>

text \<open>
  A field of a metadata page read through the cache, with the value the code uses
  when the read fails.
\<close>

definition storage_field :: "StorageBackend \<Rightarrow> int \<Rightarrow> (bytes \<Rightarrow> 'a) \<Rightarrow> 'a \<Rightarrow> 'a \<times> StorageBackend" where
  "storage_field sb p f dflt =
     (case storage_read_with_status sb p of
        (Some b, STORAGE_OK, sb) \<Rightarrow> (f b, sb)
      | (_, _, sb) \<Rightarrow> (dflt, sb))"

definition free_list_max_per_page :: "StorageBackend \<Rightarrow> int" where
  "free_list_max_per_page sb = (int (page_size sb) - 16) div 16"

definition read_free_list_count :: "StorageBackend \<Rightarrow> int \<Rightarrow> int \<times> StorageBackend" where
  "read_free_list_count sb p = storage_field sb p (\<lambda>b. rd4i b 8) (-1)"

definition read_free_list_next :: "StorageBackend \<Rightarrow> int \<Rightarrow> int \<times> StorageBackend" where
  "read_free_list_next sb p = storage_field sb p (\<lambda>b. rd8i b 0) 0"

definition write_free_list_next :: "StorageBackend \<Rightarrow> int \<Rightarrow> int \<Rightarrow> StorageBackend" where
  "write_free_list_next sb p v = storage_rmw sb p (\<lambda>b. wr8i b 0 v) FLUSH_PRIO_POOL"

definition write_free_list_count :: "StorageBackend \<Rightarrow> int \<Rightarrow> int \<Rightarrow> StorageBackend" where
  "write_free_list_count sb p v = storage_rmw sb p (\<lambda>b. wr4i b 8 v) FLUSH_PRIO_POOL"

definition read_free_list_entry :: "StorageBackend \<Rightarrow> int \<Rightarrow> int \<Rightarrow> (int \<times> int) \<times> StorageBackend" where
  "read_free_list_entry sb p i =
     storage_field sb p (\<lambda>b. (rd8i b (nat (16 + i * 16)), rd8i b (nat (16 + i * 16 + 8)))) (0, 0)"

definition write_free_list_entry :: "StorageBackend \<Rightarrow> int \<Rightarrow> int \<Rightarrow> int \<Rightarrow> int \<Rightarrow> StorageBackend" where
  "write_free_list_entry sb p i logical phys =
     storage_rmw sb p (\<lambda>b. wr8i (wr8i b (nat (16 + i * 16)) logical) (nat (16 + i * 16 + 8)) phys)
       FLUSH_PRIO_POOL"

text \<open>The header fields of the queue, in the header buffer.\<close>

abbreviation hdr_get :: "StorageBackend \<Rightarrow> nat \<Rightarrow> int" where
  "hdr_get sb off \<equiv> rd8i (header_buf sb) off"

definition hdr_set :: "StorageBackend \<Rightarrow> nat \<Rightarrow> int \<Rightarrow> StorageBackend" where
  "hdr_set sb off v = sb\<lparr>header_buf := wr8i (header_buf sb) off v\<rparr>"

definition deferred_free_is_queued :: "int list option \<Rightarrow> int \<Rightarrow> bool" where
  "deferred_free_is_queued q p = (case q of None \<Rightarrow> False | Some ps \<Rightarrow> list_ex (\<lambda>x. x = p) ps)"

definition drain_head :: "StorageBackend \<Rightarrow> int \<Rightarrow> StorageBackend" where
  "drain_head sb head =
     (let (next, sb) = read_free_list_next sb head
      in if hdr_get sb HDR_OFF_FREE_LIST_HEAD = head
         then indir_set (hdr_set sb HDR_OFF_FREE_LIST_HEAD next) head 0 else sb)"

fun dequeue_loop :: "nat \<Rightarrow> StorageBackend \<Rightarrow> int \<times> StorageBackend" where
  "dequeue_loop 0 sb = (0, sb)"
| "dequeue_loop (Suc retry) sb =
     (let head = hdr_get sb HDR_OFF_FREE_LIST_HEAD in
      if hdr_get sb HDR_OFF_FREE_LIST_COUNT \<le> 0 \<or> head = 0 then (0, sb)
      else
        let (head_count, sb) = read_free_list_count sb head in
        if head_count < 0 then (0, sb)
        else if head_count = 0 then dequeue_loop retry (drain_head sb head)
        else
          let ((page, phys), sb) = read_free_list_entry sb head (head_count - 1) in
          if page = 0 then (0, sb)
          else
            (case storage_read_with_status sb head of
               (Some b, STORAGE_OK, sb) \<Rightarrow>
                 if rd4i b 8 \<noteq> head_count then dequeue_loop retry sb
                 else
                   let sb = cache_poke sb head (\<lambda>b. wr4i b 8 (head_count - 1));
                       sb = (if head_count = 1 then drain_head sb head else sb);
                       sb = sb\<lparr>sb_cache := snd (cache_invalidate (sb_cache sb) page)\<rparr>;
                       sb = hdr_set sb HDR_OFF_FREE_LIST_COUNT (hdr_get sb HDR_OFF_FREE_LIST_COUNT - 1);
                       (claimed, sb) = try_claim_entry sb page phys in
                   if \<not> claimed \<or> deferred_free_is_queued (deferred_queue sb) page then (0, sb)
                   else (page, sb)
             | (_, _, sb) \<Rightarrow> (0, sb)))"

definition dequeue_from_free_list :: "StorageBackend \<Rightarrow> int \<times> StorageBackend" where
  "dequeue_from_free_list sb = dequeue_loop 1000 sb"

section \<open>Allocation of several pages: the scan\<close>

text \<open>
  One pass of \<^verbatim>\<open>storage_allocate_count_scan\<close> over the table: the first run of
  \<open>count\<close> free entries, from the current page \<open>i\<close> with the run found so far.
\<close>

function scan_run :: "StorageBackend \<Rightarrow> int \<Rightarrow> int \<Rightarrow> int \<Rightarrow> int \<Rightarrow> int \<times> int" where
  "scan_run sb count i run_start run_len =
     (if i < total_entries sb \<and> run_len < count
      then if indir_lookup sb i = 0
           then if deferred_free_is_queued (deferred_queue sb) i then scan_run sb count (i + 1) (-1) 0
                else scan_run sb count (i + 1) (if run_len = 0 then i else run_start) (run_len + 1)
           else scan_run sb count (i + 1) (-1) 0
      else (run_start, run_len))"
  by pat_completeness auto
termination by (relation "measure (\<lambda>(sb, count, i, s, l). nat (total_entries sb - i))") auto

fun claim_run :: "nat \<Rightarrow> int \<Rightarrow> StorageBackend \<Rightarrow> bool \<times> StorageBackend" where
  "claim_run 0 logical sb = (True, sb)"
| "claim_run (Suc n) logical sb =
     (let old_tail = physical_tail sb;
          (ok, sb) = try_claim_entry (sb\<lparr>physical_tail := old_tail + phys_record_size sb\<rparr>) logical old_tail
      in if ok then claim_run n (logical + 1) sb else (False, sb))"

fun count_scan_loop :: "nat \<Rightarrow> StorageBackend \<Rightarrow> int \<Rightarrow> int \<times> StorageBackend" where
  "count_scan_loop 0 sb count = (-1, sb)"
| "count_scan_loop (Suc attempt) sb count =
     (let (run_start, run_len) = scan_run sb count 2 (-1) 0 in
      if run_len < count then (-1, sb)
      else let (ok, sb) = claim_run (nat count) run_start sb in
           if ok then (run_start, sb\<lparr>total_pages := max (total_pages sb) (run_start + count)\<rparr>)
           else count_scan_loop attempt sb count)"

definition storage_allocate :: "StorageBackend \<Rightarrow> int \<Rightarrow> (int \<times> StorageBackend) option" where
  "storage_allocate sb count =
     (if count \<le> 0 then Some (-1, sb)
      else if count > 1 then Some (count_scan_loop 1000 sb count)
      else let (page, sb) = dequeue_from_free_list sb
           in if page > 0 then Some (page, sb) else storage_allocate_tail_advance sb count)"

definition storage_acquire :: "StorageBackend \<Rightarrow> int \<Rightarrow> bool \<times> StorageBackend" where
  "storage_acquire sb p =
     (if p < 0 then (False, sb)
      else
        let (ok, sb) = (if p \<ge> total_entries sb
                        then indir_ensure_capacity sb (sint (word_of_int (p - total_entries sb + 1) :: u32))
                        else (True, sb)) in
        if \<not> ok then (False, sb)
        else if indir_lookup sb p \<noteq> 0 then (False, sb)
        else
          let old_tail = physical_tail sb;
              (ok, sb) = try_claim_entry (sb\<lparr>physical_tail := old_tail + phys_record_size sb\<rparr>) p old_tail
          in if \<not> ok then (False, sb) else (True, sb\<lparr>total_pages := max (total_pages sb) (p + 1)\<rparr>))"

section \<open>Freeing\<close>

definition alloc_free_list_page :: "StorageBackend \<Rightarrow> int \<Rightarrow> int \<Rightarrow> (int \<times> StorageBackend) option" where
  "alloc_free_list_page sb logical phys = do {
     (new_vp, sb) \<leftarrow> storage_allocate_tail_advance sb 1;
     if new_vp < 0 then Some (0, sb)
     else let (ok, sb) = malloc sb in
          if \<not> ok then Some (0, sb)
          else let sb = cache_insert sb new_vp (zero_bytes (page_size sb)) FLUSH_PRIO_POOL True;
                   sb = write_free_list_next sb new_vp 0;
                   sb = write_free_list_count sb new_vp 1;
                   sb = write_free_list_entry sb new_vp 0 logical phys
               in Some (new_vp, sb) }"

definition enqueue_free_page :: "StorageBackend \<Rightarrow> int \<Rightarrow> int \<Rightarrow> StorageBackend option" where
  "enqueue_free_page sb logical phys =
     (let tail = hdr_get sb HDR_OFF_FREE_LIST_TAIL;
          (tail_count, sb) = (if tail \<noteq> 0 then read_free_list_count sb tail else (0, sb));
          finish = (\<lambda>new_tail sb.
             let sb = hdr_set sb HDR_OFF_FREE_LIST_TAIL new_tail;
                 sb = (if hdr_get sb HDR_OFF_FREE_LIST_HEAD = 0
                       then hdr_set sb HDR_OFF_FREE_LIST_HEAD new_tail else sb)
             in hdr_set sb HDR_OFF_FREE_LIST_COUNT (hdr_get sb HDR_OFF_FREE_LIST_COUNT + 1))
      in if tail = 0 \<or> tail_count < 0 \<or> tail_count \<ge> free_list_max_per_page sb
         then do {
           (new_tail, sb) \<leftarrow> alloc_free_list_page sb logical phys;
           if new_tail = 0 then Some sb
           else Some (finish new_tail (if tail \<noteq> 0 then write_free_list_next sb tail new_tail else sb)) }
         else let sb = write_free_list_entry sb tail tail_count logical phys;
                  sb = write_free_list_count sb tail (tail_count + 1)
              in Some (finish tail sb))"

definition storage_free :: "StorageBackend \<Rightarrow> int \<Rightarrow> StorageBackend option" where
  "storage_free sb p =
     (if p < 2 then Some sb
      else let phys = indir_lookup sb p in
           if phys = 0 then Some sb
           else let sb = indir_set sb p 0;
                    sb = sb\<lparr>sb_cache := snd (cache_invalidate (sb_cache sb) p)\<rparr>
                in enqueue_free_page sb p phys)"

section \<open>The table invariant\<close>

text \<open>Position \<open>k\<close> of the self-references: the entry that holds overflow page \<open>k\<close>.\<close>

definition sref :: "StorageBackend \<Rightarrow> nat \<Rightarrow> int" where
  "sref sb k = inline_count sb - 1 + int k * entries_per_overflow sb"

definition records_ok :: "StorageBackend \<Rightarrow> bool" where
  "records_ok sb \<longleftrightarrow> 0 < physical_tail sb \<and> phys_record_size sb dvd physical_tail sb
     \<and> (\<forall>q \<ge> 0. indir_lookup sb q \<noteq> 0 \<longrightarrow> 0 < indir_lookup sb q \<and> indir_lookup sb q < physical_tail sb
          \<and> phys_record_size sb dvd indir_lookup sb q)
     \<and> (\<forall>q \<ge> 0. \<forall>r \<ge> 0. indir_lookup sb q \<noteq> 0 \<longrightarrow> indir_lookup sb q = indir_lookup sb r \<longrightarrow> q = r)"

definition table_inv :: "StorageBackend \<Rightarrow> bool" where
  "table_inv sb \<longleftrightarrow> indir_wf sb \<and> 2 \<le> total_pages sb \<and> total_pages sb < total_entries sb
     \<and> (\<forall>k < length (overflow_pages sb). indir_lookup sb (sref sb k) \<noteq> 0)
     \<and> indir_lookup sb (total_entries sb - 1) = 0
     \<and> (\<forall>q \<ge> total_pages sb. (\<forall>k < length (overflow_pages sb). q \<noteq> sref sb k) \<longrightarrow> indir_lookup sb q = 0)
     \<and> records_ok sb"

text \<open>
  What allocation never disturbs: the file, the cache, the mapping of every
  mapped page, and the header fields other than the inline entries.
\<close>

definition extends :: "StorageBackend \<Rightarrow> StorageBackend \<Rightarrow> bool" where
  "extends sb sb' \<longleftrightarrow> page_size sb' = page_size sb \<and> sb_file sb' = sb_file sb \<and> sb_io sb' = sb_io sb
     \<and> sb_heap sb' = sb_heap sb
     \<and> sb_cache sb' = sb_cache sb \<and> segment_size sb' = segment_size sb
     \<and> deferred_queue sb' = deferred_queue sb
     \<and> take 96 (header_buf sb') = take 96 (header_buf sb)
     \<and> physical_tail sb \<le> physical_tail sb' \<and> total_pages sb \<le> total_pages sb'
     \<and> (\<forall>q \<ge> 0. indir_lookup sb q \<noteq> 0 \<longrightarrow> indir_lookup sb' q = indir_lookup sb q)
     \<and> (\<forall>q \<ge> 0. indir_lookup sb q = 0 \<longrightarrow> indir_lookup sb' q = 0 \<or> physical_tail sb \<le> indir_lookup sb' q)"

lemma extends_refl [simp]: "extends sb sb"
  by (simp add: extends_def)

lemma extends_trans [trans]: "extends a b \<Longrightarrow> extends b c \<Longrightarrow> 0 < physical_tail a \<Longrightarrow> extends a c"
  unfolding extends_def by (auto, (metis order_trans less_le_not_le)+)

lemma record_size_pos [simp]: "0 < phys_record_size sb"
  by (simp add: phys_record_size_def)

lemma record_size_nonneg [simp]: "0 \<le> phys_record_size sb"
  by (simp add: phys_record_size_def)

lemma sref_last: "total_entries sb - 1 = sref sb (length (overflow_pages sb))"
  by (simp add: sref_def total_entries_def)

lemma sref_inj:
  assumes "indir_wf sb" "sref sb k + d = sref sb j" "0 \<le> d" "d < entries_per_overflow sb"
  shows "k = j \<and> d = 0"
proof -
  let ?e = "entries_per_overflow sb"
  have e: "15 \<le> ?e" using assms(1) epo_bounds by (simp add: indir_wf_def)
  have eq: "int k * ?e + d = int j * ?e" using assms(2) by (simp add: sref_def)
  then have "(int j - int k) * ?e = d" by (simp add: algebra_simps)
  moreover have "(int j - int k) * ?e < ?e" "0 \<le> (int j - int k) * ?e" using calculation assms by auto
  then have "int j - int k < 1" "0 \<le> int j - int k"
    using e by (auto simp: mult_less_cancel_right2 zero_le_mult_iff)
  ultimately show ?thesis by auto
qed

lemma sref_less:
  assumes "indir_wf sb" "k < length (overflow_pages sb)"
  shows "0 \<le> sref sb k" "sref sb k + entries_per_overflow sb \<le> total_entries sb - 1"
proof -
  let ?e = "entries_per_overflow sb"
  have e: "15 \<le> ?e" and ps: "128 \<le> page_size sb" using assms(1) epo_bounds by (simp_all add: indir_wf_def)
  then have "0 \<le> int k * ?e" by simp
  then show "0 \<le> sref sb k" using inline_count_bounds [OF ps] by (simp add: sref_def)
  have "(int k + 1) * ?e \<le> overflow_count sb * ?e" using assms(2) e by (intro mult_right_mono) auto
  then show "sref sb k + ?e \<le> total_entries sb - 1" by (simp add: sref_def total_entries_def algebra_simps)
qed

lemma reserved_slot_is_sref:
  assumes "indir_wf sb" "0 \<le> p" "p < total_entries sb"
    and "if p < inline_count sb then p = inline_count sb - 1 else entry_idx sb p = entries_per_overflow sb - 1"
  shows "\<exists>k \<le> length (overflow_pages sb). p = sref sb k"
proof (cases "p < inline_count sb")
  case True
  with assms(4) have "p = sref sb 0" by (simp add: sref_def)
  then show ?thesis by blast
next
  case False
  have ps: "128 \<le> page_size sb" using assms(1) by (simp add: indir_wf_def)
  note sp = overflow_split [OF ps, of p]
  have "overflow_idx sb p < overflow_count sb" using overflow_idx_less [OF ps] assms(3) by simp
  moreover have "0 \<le> overflow_idx sb p" using sp(4) False by simp
  moreover have "p = inline_count sb - 1 + (overflow_idx sb p + 1) * entries_per_overflow sb"
    using sp(1) assms(4) False by (simp add: algebra_simps)
  ultimately have "p = sref sb (nat (overflow_idx sb p + 1))" "nat (overflow_idx sb p + 1) \<le> length (overflow_pages sb)"
    by (simp_all add: sref_def)
  then show ?thesis by blast
qed

lemma needs_grow_last:
  assumes inv: "table_inv sb" and p: "0 \<le> p" "p < total_entries sb - 1"
  shows "\<not> needs_grow sb p"
proof
  assume g: "needs_grow sb p"
  have wf: "indir_wf sb" and ps: "128 \<le> page_size sb" using inv by (simp_all add: table_inv_def indir_wf_def)
  have "overflow_idx sb p < overflow_count sb" using overflow_idx_less [OF ps] p by simp
  with g have z: "indir_lookup sb p = 0"
    and "if p < inline_count sb then p = inline_count sb - 1 else entry_idx sb p = entries_per_overflow sb - 1"
    by (auto simp: needs_grow_def split: if_splits)
  from reserved_slot_is_sref [OF wf p(1) _ this(2)] p obtain k
    where k: "k \<le> length (overflow_pages sb)" "p = sref sb k" by auto
  with p sref_last [of sb] have "k < length (overflow_pages sb)" by (cases "k = length (overflow_pages sb)") auto
  with inv k z show False by (simp add: table_inv_def)
qed

section \<open>Growing and tail advance keep the invariant\<close>

lemma records_ok_map:
  assumes rec: "records_ok sb" and size: "page_size sb' = page_size sb"
    and tail: "physical_tail sb \<le> physical_tail sb'" "phys_record_size sb dvd physical_tail sb'"
    and v: "0 < v" "v < physical_tail sb'" "phys_record_size sb dvd v" "\<forall>q \<ge> 0. indir_lookup sb q \<noteq> v"
    and look: "\<And>q. 0 \<le> q \<Longrightarrow> indir_lookup sb' q = (if q = p then v else indir_lookup sb q)"
  shows "records_ok sb'"
proof -
  have rs: "phys_record_size sb' = phys_record_size sb" using size by (simp add: phys_record_size_def)
  have "indir_lookup sb' q = indir_lookup sb' r \<Longrightarrow> indir_lookup sb' q \<noteq> 0 \<Longrightarrow> q = r"
    if "0 \<le> q" "0 \<le> r" for q r
    using that rec v(4) by (auto simp: look records_ok_def split: if_splits)
  moreover have "0 < indir_lookup sb' q \<and> indir_lookup sb' q < physical_tail sb' \<and> phys_record_size sb dvd indir_lookup sb' q"
    if "0 \<le> q" "indir_lookup sb' q \<noteq> 0" for q
    using that rec v tail by (fastforce simp: look records_ok_def split: if_splits)
  ultimately show ?thesis
    using rec tail unfolding records_ok_def rs by (metis less_le_trans)
qed

lemma table_inv_grown:
  assumes inv: "table_inv sb" and g: "grown sb sb'"
  shows "table_inv sb'" "sb_heap sb' = sb_heap sb \<Longrightarrow> extends sb sb'"
proof -
  let ?n = "length (overflow_pages sb)" and ?l = "total_entries sb - 1"
  have wf: "indir_wf sb" using inv by (simp add: table_inv_def)
  have e: "15 \<le> entries_per_overflow sb" using wf epo_bounds by (simp add: indir_wf_def)
  have l0: "0 \<le> ?l" using self_ref_inside [OF wf] by (simp add: in_table_def)
  have te: "total_entries sb' = total_entries sb + entries_per_overflow sb" by (rule grown_total_entries [OF g])
  have sr: "sref sb' k = sref sb k" for k using g by (simp add: sref_def grown_def entries_per_overflow_def)
  have n': "length (overflow_pages sb') = Suc ?n" using g by (simp add: grown_def)
  have look: "indir_lookup sb' q = (if q = ?l then physical_tail sb else indir_lookup sb q)" if "0 \<le> q" for q
    using g that by (simp add: grown_def)
  have rec: "records_ok sb" and z: "indir_lookup sb ?l = 0" using inv by (simp_all add: table_inv_def)
  have fresh: "\<forall>q \<ge> 0. indir_lookup sb q \<noteq> physical_tail sb"
    using rec unfolding records_ok_def by (metis less_irrefl)
  have pos: "0 < physical_tail sb" using rec by (simp add: records_ok_def)
  have "records_ok sb'"
    by (rule records_ok_map [OF rec _ _ _ pos _ _ fresh look])
      (use g rec in \<open>simp_all add: grown_def records_ok_def dvd_add less_imp_le\<close>)
  moreover have "indir_lookup sb' (sref sb k) \<noteq> 0" if "k < Suc ?n" for k
  proof (cases "k = ?n")
    case True
    then show ?thesis using look [of ?l] l0 pos sref_last [of sb] by simp
  next
    case False
    then have "k < ?n" using that by simp
    with inv sref_less [OF wf this] sref_last [of sb] e show ?thesis by (simp add: look table_inv_def)
  qed
  moreover have far: "indir_lookup sb q = 0" if "total_entries sb \<le> q" for q
  proof -
    have "q \<noteq> sref sb k" if "k < ?n" for k using sref_less [OF wf that] e \<open>total_entries sb \<le> q\<close> by linarith
    with inv that show ?thesis by (simp add: table_inv_def)
  qed
  have "indir_lookup sb' (total_entries sb' - 1) = 0"
    using look [of "total_entries sb' - 1"] far [of "total_entries sb' - 1"] te e l0 by simp
  moreover have "indir_lookup sb' q = 0" if "total_pages sb \<le> q" "\<forall>k < Suc ?n. q \<noteq> sref sb k" for q
    using that inv look [of q] sref_last [of sb] by (auto simp: table_inv_def)
  ultimately show "table_inv sb'"
    using inv g te e by (simp add: table_inv_def sr n') (simp add: grown_def)
  show "extends sb sb'" if "sb_heap sb' = sb_heap sb"
    using g that z l0 record_size_pos [of sb] by (auto simp: extends_def grown_def)
qed

lemma ensure_one_ok:
  assumes inv: "table_inv sb" and h: "sb_heap sb = []" and t: "physical_tail sb < 2 ^ 63"
  shows "\<exists>sb'. indir_ensure_capacity sb 1 = (True, sb') \<and> table_inv sb' \<and> extends sb sb'
    \<and> total_pages sb' = total_pages sb \<and> total_pages sb + 1 < total_entries sb'
    \<and> physical_tail sb' \<le> physical_tail sb + phys_record_size sb"
proof (cases "total_pages sb + 1 \<ge> total_entries sb")
  case False
  then have "indir_ensure_capacity sb 1 = (True, sb)"
    by (simp add: indir_ensure_capacity_def ensure_loop.simps)
  with inv False show ?thesis by (intro exI [of _ sb]) (simp add: less_imp_le)
next
  case True
  have wf: "indir_wf sb" and rec: "records_ok sb" using inv by (simp_all add: table_inv_def)
  have e: "15 \<le> entries_per_overflow sb" using wf epo_bounds by (simp add: indir_wf_def)
  have "i64 (physical_tail sb)" using t rec by (simp add: i64_def records_ok_def)
  from grow_overflow_ok [OF wf h this] obtain sb' where
    g: "grow_overflow sb = (True, sb')" "grown sb sb'" "sb_heap sb' = []" by blast
  have te: "total_entries sb' = total_entries sb + entries_per_overflow sb" by (rule grown_total_entries [OF g(2)])
  have tp: "total_pages sb < total_entries sb" using inv by (simp add: table_inv_def)
  have "ensure_loop (total_pages sb + 1) sb = ensure_loop (total_pages sb + 1) sb'"
    using True e by (subst ensure_loop.simps) (simp add: g(1))
  also have "\<dots> = (True, sb')"
    using tp te e by (subst ensure_loop.simps) simp
  finally have "indir_ensure_capacity sb 1 = (True, sb')" by (simp add: indir_ensure_capacity_def)
  with table_inv_grown [OF inv g(2)] g h te tp e show ?thesis
    by (intro exI [of _ sb']) (simp add: grown_def)
qed

lemma table_inv_upd [simp]:
  "total_entries (sb\<lparr>total_pages := t\<rparr>) = total_entries sb"
  "indir_lookup (sb\<lparr>total_pages := t\<rparr>) = indir_lookup sb"
  "needs_grow (sb\<lparr>total_pages := t\<rparr>) = needs_grow sb"
  "sref (sb\<lparr>total_pages := t\<rparr>) = sref sb"
  "indir_wf (sb\<lparr>total_pages := t\<rparr>) = indir_wf sb"
  by (auto simp: fun_eq_iff total_entries_def indir_lookup_def overflow_idx_def entry_idx_def
      entries_per_overflow_def needs_grow_def sref_def indir_wf_def)

lemma claim_ok:
  assumes "indir_wf sb" "in_table sb p" "indir_lookup sb p = 0"
  shows "try_claim_entry sb p v = (True, put_entry sb p v)"
  using assms overflow_idx_less [of sb p]
  by (auto simp: try_claim_entry_def indir_wf_def in_table_def)

definition free_record :: "StorageBackend \<Rightarrow> int \<Rightarrow> bool" where
  "free_record sb v \<longleftrightarrow> 0 < v \<and> v < physical_tail sb \<and> phys_record_size sb dvd v \<and> i64 v
     \<and> (\<forall>q \<ge> 0. indir_lookup sb q \<noteq> v)"

lemma table_inv_claim:
  assumes inv: "table_inv sb" and p: "0 \<le> p" "p < total_entries sb - 1" "indir_lookup sb p = 0"
    and v: "free_record sb v"
    and t: "t = max (total_pages sb) (p + 1)"
  shows "table_inv (put_entry (sb\<lparr>total_pages := t\<rparr>) p v)" (is "table_inv ?s")
    and "\<And>q. 0 \<le> q \<Longrightarrow> indir_lookup (put_entry (sb\<lparr>total_pages := t\<rparr>) p v) q = (if q = p then v else indir_lookup sb q)"
proof -
  have wf: "indir_wf sb" and rec: "records_ok sb" using inv by (simp_all add: table_inv_def)
  have wf': "indir_wf (sb\<lparr>total_pages := t\<rparr>)" using wf by simp
  have "in_table (sb\<lparr>total_pages := t\<rparr>) p" using p by (simp add: in_table_def)
  from indir_lookup_put [OF wf' this] v
  show look: "indir_lookup ?s q = (if q = p then v else indir_lookup sb q)" if "0 \<le> q" for q
    using that by (simp add: free_record_def)
  have sr: "sref ?s k = sref sb k" for k by (simp add: sref_def entries_per_overflow_def)
  have "records_ok ?s"
    by (rule records_ok_map [OF rec _ _ _ _ _ _ _ look]) (use v rec in \<open>simp_all add: free_record_def records_ok_def\<close>)
  moreover have "indir_lookup ?s (sref sb k) \<noteq> 0" if "k < length (overflow_pages sb)" for k
    using inv sref_less(1) [OF wf that] that v by (auto simp: look table_inv_def free_record_def)
  moreover have "indir_lookup ?s (total_entries sb - 1) = 0"
    using inv self_ref_inside [OF wf] p by (simp add: look table_inv_def in_table_def)
  moreover have "indir_lookup ?s q = 0"
    if "t \<le> q" "\<forall>k < length (overflow_pages sb). q \<noteq> sref sb k" for q
  proof -
    have "0 \<le> q" "q \<noteq> p" "total_pages sb \<le> q" using that(1) t p(1) by auto
    with that(2) inv show ?thesis by (simp add: look table_inv_def)
  qed
  moreover have "t < total_entries sb" "2 \<le> t" using inv p t by (auto simp: table_inv_def)
  ultimately show "table_inv ?s"
    using indir_wf_put [OF wf' p(1)] by (simp add: table_inv_def sr)
qed

lemma tail_loop_claim:
  assumes inv: "table_inv sb" and p: "total_pages sb < total_entries sb - 1" "indir_lookup sb (total_pages sb) = 0"
  shows "tail_loop v oob sb
    = Some (total_pages sb, put_entry (sb\<lparr>total_pages := total_pages sb + 1\<rparr>) (total_pages sb) v)"
proof -
  have t: "2 \<le> total_pages sb" "indir_wf sb" using inv by (simp_all add: table_inv_def)
  have "in_table (sb\<lparr>total_pages := total_pages sb + 1\<rparr>) (total_pages sb)" using t p by (simp add: in_table_def)
  with t p needs_grow_last [OF inv _ p(1)] claim_ok [OF _ this]
  show ?thesis by (subst tail_loop.simps) (simp add: max_def Let_def)
qed

lemma tail_loop_skip:
  assumes inv: "table_inv sb" and p: "total_pages sb < total_entries sb - 1" "indir_lookup sb (total_pages sb) \<noteq> 0"
  shows "tail_loop v oob sb = tail_loop v oob (sb\<lparr>total_pages := total_pages sb + 1\<rparr>)"
proof -
  have t: "2 \<le> total_pages sb" using inv by (simp add: table_inv_def)
  with p needs_grow_last [OF inv _ p(1)] show ?thesis
    by (subst tail_loop.simps) (simp add: max_def Let_def try_claim_entry_def)
qed

lemma tail_loop_ok:
  assumes inv: "table_inv sb" and room: "total_pages sb + 1 < total_entries sb"
    and v: "free_record sb v"
  shows "\<exists>p. total_pages sb \<le> p \<and> p \<le> total_pages sb + 1 \<and> p < total_entries sb - 1 \<and> indir_lookup sb p = 0
     \<and> tail_loop v oob sb = Some (p, put_entry (sb\<lparr>total_pages := p + 1\<rparr>) p v)"
proof (cases "indir_lookup sb (total_pages sb) = 0")
  case True
  with tail_loop_claim [OF inv _ True] room show ?thesis by (intro exI [of _ "total_pages sb"]) simp
next
  case False
  let ?t = "total_pages sb" and ?s = "sb\<lparr>total_pages := total_pages sb + 1\<rparr>"
  have wf: "indir_wf sb" using inv by (simp add: table_inv_def)
  have e: "15 \<le> entries_per_overflow sb" using wf epo_bounds by (simp add: indir_wf_def)
  from inv False obtain k where k: "k < length (overflow_pages sb)" "?t = sref sb k"
    by (auto simp: table_inv_def)
  have ns: "?t + 1 \<noteq> sref sb j" for j using sref_inj [OF wf, of k 1 j] k(2) e by auto
  then have z: "indir_lookup sb (?t + 1) = 0" using inv by (simp add: table_inv_def)
  have lt: "?t + 1 < total_entries sb - 1" using sref_less(2) [OF wf k(1)] k(2) e by linarith
  have inv': "table_inv ?s"
    using inv lt by (simp add: table_inv_def records_ok_def phys_record_size_def)
  have "tail_loop v oob sb = tail_loop v oob ?s"
    by (rule tail_loop_skip [OF inv _ False]) (use room in simp)
  also have "\<dots> = Some (?t + 1, put_entry (sb\<lparr>total_pages := ?t + 2\<rparr>) (?t + 1) v)"
    by (subst tail_loop_claim [OF inv']) (use lt z in \<open>simp_all add: add.assoc\<close>)
  finally show ?thesis using lt z by (intro exI [of _ "?t + 1"]) (simp add: add.assoc)
qed

lemma tail_advance_ok:
  assumes inv: "table_inv sb" and h: "sb_heap sb = []"
    and room: "physical_tail sb + 2 * phys_record_size sb < 2 ^ 63"
  shows "\<exists>p sb'. storage_allocate_tail_advance sb 1 = Some (p, sb') \<and> table_inv sb' \<and> extends sb sb'
    \<and> total_pages sb \<le> p \<and> p \<le> total_pages sb + 1 \<and> total_pages sb' = p + 1 \<and> indir_lookup sb p = 0
    \<and> physical_tail sb \<le> indir_lookup sb' p
    \<and> physical_tail sb' \<le> physical_tail sb + 2 * phys_record_size sb"
proof -
  have "physical_tail sb < 2 ^ 63" using room record_size_nonneg [of sb] by linarith
  from ensure_one_ok [OF inv h this] obtain s1 where
    s1: "indir_ensure_capacity sb 1 = (True, s1)" "table_inv s1" "extends sb s1"
      "total_pages s1 = total_pages sb" "total_pages sb + 1 < total_entries s1"
      "physical_tail s1 \<le> physical_tail sb + phys_record_size sb" by blast
  let ?v = "physical_tail s1" and ?r = "phys_record_size sb"
  let ?s2 = "s1\<lparr>physical_tail := ?v + phys_record_size s1\<rparr>"
  have r: "phys_record_size s1 = ?r" using s1(3) by (simp add: extends_def phys_record_size_def)
  have rec: "records_ok s1" using s1(2) by (simp add: table_inv_def)
  have fresh: "indir_lookup s1 q \<noteq> ?v" if "0 \<le> q" for q
    using rec that unfolding records_ok_def by (metis less_irrefl)
  have rec2: "records_ok ?s2"
    using rec by (auto simp: records_ok_def phys_record_size_def intro: less_trans)
  have inv2: "table_inv ?s2"
    using s1(2) rec2 by (simp add: table_inv_def indir_wf_def sref_def)
  have "free_record ?s2 ?v"
    using rec fresh room s1(6) record_size_pos [of s1] by (simp add: free_record_def records_ok_def i64_def phys_record_size_def)
  from tail_loop_ok [OF inv2 _ this, of 0] s1(4,5) obtain p where
    p: "total_pages sb \<le> p" "p < total_entries s1 - 1" "indir_lookup s1 p = 0"
      "tail_loop ?v 0 ?s2 = Some (p, put_entry (?s2\<lparr>total_pages := p + 1\<rparr>) p ?v)" "p \<le> total_pages sb + 1"
    by auto
  let ?s3 = "put_entry (?s2\<lparr>total_pages := p + 1\<rparr>) p ?v"
  have tp: "2 \<le> total_pages sb" using inv by (simp add: table_inv_def)
  note claim = table_inv_claim [OF inv2 _ _ _ \<open>free_record ?s2 ?v\<close>, of p "p + 1"]
  have inv3: "table_inv ?s3" and look: "\<And>q. 0 \<le> q \<Longrightarrow> indir_lookup ?s3 q = (if q = p then ?v else indir_lookup s1 q)"
    using claim p tp s1(4) by simp_all
  have "extends s1 ?s3"
    using p tp s1(4) look take96_put [of "?s2\<lparr>total_pages := p + 1\<rparr>" p ?v] inv2
    by (simp add: extends_def table_inv_def)
  moreover have "0 < physical_tail sb" using inv by (simp add: table_inv_def records_ok_def)
  ultimately have "extends sb ?s3" using s1(3) extends_trans by blast
  moreover have "indir_lookup sb p = 0"
    using s1(3) p(1,3) tp by (simp add: extends_def) (metis order_trans zero_le_numeral)
  moreover have "storage_allocate_tail_advance sb 1 = Some (p, ?s3)"
    by (simp add: storage_allocate_tail_advance_def s1(1) p(4) Let_def)
  ultimately show ?thesis
    using inv3 p(1,5) tp look [of p] s1(3,6) r by (intro exI [of _ p] exI [of _ ?s3]) (simp add: extends_def)
qed

section \<open>The free-page queue\<close>

lemma field_law:
  assumes "store_inv sb" "page_view sb p = Some b"
  shows "\<exists>c. storage_field sb p f d = (f b, sb\<lparr>sb_cache := c\<rparr>) \<and> store_inv (sb\<lparr>sb_cache := c\<rparr>)
    \<and> page_view (sb\<lparr>sb_cache := c\<rparr>) = page_view sb \<and> cached c p = Some b
    \<and> (\<forall>q. q \<noteq> p \<longrightarrow> cached c q = cached (sb_cache sb) q)"
proof -
  obtain r st sb' where r: "storage_read_with_status sb p = (r, st, sb')" by (metis prod_cases3)
  from storage_read_law [OF assms(1) r] assms(2) obtain c where
    "sb' = sb\<lparr>sb_cache := c\<rparr>" "r = Some b" "st = STORAGE_OK" "page_view sb' = page_view sb"
    "cached c p = Some b" "\<forall>q. q \<noteq> p \<longrightarrow> cached c q = cached (sb_cache sb) q" by auto
  moreover have "store_inv sb'" using sbs.rd_law [OF assms(1) r] by simp
  ultimately show ?thesis using r by (intro exI [of _ c]) (simp add: storage_field_def)
qed

lemma rmw_frame:
  assumes "store_inv sb" "page_view sb p = Some b" "\<And>b. length b = page_size sb \<Longrightarrow> length (f b) = length b"
  shows "\<exists>c. storage_rmw sb p f n = sb\<lparr>sb_cache := c\<rparr> \<and> store_inv (sb\<lparr>sb_cache := c\<rparr>)
    \<and> page_view (sb\<lparr>sb_cache := c\<rparr>) = (page_view sb)(p \<mapsto> f b) \<and> cached c p = Some (f b)
    \<and> (\<forall>q. q \<noteq> p \<longrightarrow> cached c q = cached (sb_cache sb) q)"
proof -
  obtain r st sb' where r: "storage_read_with_status sb p = (r, st, sb')" by (metis prod_cases3)
  from storage_read_law [OF assms(1) r] assms(2) obtain c where
    c: "sb' = sb\<lparr>sb_cache := c\<rparr>" "r = Some b" "st = STORAGE_OK" "cache_wf c" "cached c p = Some b"
      "\<forall>q. q \<noteq> p \<longrightarrow> cached c q = cached (sb_cache sb) q" by auto
  let ?s = "storage_rmw sb p f n"
  have eq: "?s = sb\<lparr>sb_cache := sb_cache ?s\<rparr>" using r c by (simp add: rmw_def cache_poke_def)
  have "cached (sb_cache ?s) p = Some (f b)" "\<forall>q. q \<noteq> p \<longrightarrow> cached (sb_cache ?s) q = cached (sb_cache sb) q"
    using r c cached_poke [of sb' p f] by (simp_all add: rmw_def cache_wf_def cached_mark_dirty cache_poke_def)
  moreover have "store_inv ?s" "page_view ?s = (page_view sb)(p \<mapsto> f b)"
    using sbs.rmw_law [where f = f and p = p and n = n, OF assms(1,3)] assms(2) by simp_all
  ultimately show ?thesis using eq by (intro exI [of _ "sb_cache ?s"]) simp
qed

lemma rd8_take: "off + 8 \<le> n \<Longrightarrow> rd8 (take n b) off = rd8 b off"
  by (simp add: rd8_def chunk_def drop_take min_def)

lemma hdr_set_laws:
  assumes "indir_wf sb" "off + 8 \<le> 96"
  shows "indir_wf (hdr_set sb off v)"
    and "0 \<le> q \<Longrightarrow> indir_lookup (hdr_set sb off v) q = indir_lookup sb q"
    and "i64 v \<Longrightarrow> hdr_get (hdr_set sb off v) off = v"
    and "off' + 8 \<le> off \<or> off + 8 \<le> off' \<and> off' + 8 \<le> 96 \<Longrightarrow> hdr_get (hdr_set sb off v) off' = hdr_get sb off'"
    and "in_table (hdr_set sb off v) q = in_table sb q"
proof -
  have len: "length (header_buf sb) = page_size sb" "128 \<le> page_size sb" using assms by (simp_all add: indir_wf_def)
  show "indir_wf (hdr_set sb off v)" using assms len by (simp add: indir_wf_def hdr_set_def)
  show "i64 v \<Longrightarrow> hdr_get (hdr_set sb off v) off = v" using assms len by (simp add: hdr_set_def buf_simps)
  show "off' + 8 \<le> off \<or> off + 8 \<le> off' \<and> off' + 8 \<le> 96 \<Longrightarrow> hdr_get (hdr_set sb off v) off' = hdr_get sb off'"
    using assms len by (auto simp: hdr_set_def buf_simps)
  show "in_table (hdr_set sb off v) q = in_table sb q" by (simp add: in_table_def hdr_set_def)
  show "indir_lookup (hdr_set sb off v) q = indir_lookup sb q" if "0 \<le> q"
  proof (cases "q < inline_count sb")
    case True
    have "off + 8 \<le> nat (96 + 8 * q)" using assms that by linarith
    with inline_offset [OF assms(1) that True] True assms len show ?thesis
      by (simp add: indir_lookup_def hdr_set_def buf_simps)
  qed (simp add: indir_lookup_def hdr_set_def)
qed

lemma hdr_set_fields [simp]:
  "sb_cache (hdr_set sb off v) = sb_cache sb" "page_size (hdr_set sb off v) = page_size sb"
  "sb_io (hdr_set sb off v) = sb_io sb" "sb_heap (hdr_set sb off v) = sb_heap sb"
  "sb_file (hdr_set sb off v) = sb_file sb"
  "deferred_queue (hdr_set sb off v) = deferred_queue sb"
  "total_pages (hdr_set sb off v) = total_pages sb" "physical_tail (hdr_set sb off v) = physical_tail sb"
  "total_entries (hdr_set sb off v) = total_entries sb"
  by (simp_all add: hdr_set_def)

lemma indir_set_laws:
  assumes "indir_wf sb" "in_table sb p" "i64 v" "cache_wf (sb_cache sb)"
  shows "indir_wf (indir_set sb p v)"
    and "0 \<le> q \<Longrightarrow> indir_lookup (indir_set sb p v) q = (if q = p then v else indir_lookup sb q)"
    and "cached (sb_cache (indir_set sb p v)) = cached (sb_cache sb)"
    and "cache_wf (sb_cache (indir_set sb p v))"
    and "off + 8 \<le> 96 \<Longrightarrow> hdr_get (indir_set sb p v) off = hdr_get sb off"
    and "in_table (indir_set sb p v) q' = in_table sb q'"
proof -
  have p: "0 \<le> p" "p < inline_count sb \<or> overflow_idx sb p < overflow_count sb"
    using assms(1,2) overflow_idx_less [of sb p] by (auto simp: indir_wf_def in_table_def)
  obtain c where c: "indir_set sb p v = (put_entry sb p v)\<lparr>sb_cache := c\<rparr>"
      "cached c = cached (sb_cache sb)" "cache_wf c"
  proof -
    have "indir_set sb p v = (put_entry sb p v)\<lparr>sb_cache := sb_cache (indir_set sb p v)\<rparr>"
      using p(2) by (auto simp: indir_set_def Let_def)
    moreover have "cached (sb_cache (indir_set sb p v)) = cached (sb_cache sb)" "cache_wf (sb_cache (indir_set sb p v))"
      using assms(4) by (auto simp: indir_set_def Let_def cache_wf_mark_dirty) (simp_all add: cache_wf_def)
    ultimately show ?thesis using that by blast
  qed
  have wf: "indir_wf (put_entry sb p v)" by (rule indir_wf_put [OF assms(1) p(1)])
  then show "indir_wf (indir_set sb p v)" by (simp add: c(1) indir_wf_def)
  show "indir_lookup (indir_set sb p v) q = (if q = p then v else indir_lookup sb q)" if "0 \<le> q"
    using indir_lookup_put [OF assms(1,2) that assms(3)] by (simp add: c(1))
  show "cached (sb_cache (indir_set sb p v)) = cached (sb_cache sb)" "cache_wf (sb_cache (indir_set sb p v))"
    using c by simp_all
  show "in_table (indir_set sb p v) q' = in_table sb q'" by (simp add: c(1) in_table_def)
  assume off: "off + 8 \<le> 96"
  have "rd8 (header_buf (put_entry sb p v)) off = rd8 (take 96 (header_buf (put_entry sb p v))) off"
    by (rule rd8_take [OF off, symmetric])
  also have "\<dots> = rd8 (header_buf sb) off"
    unfolding take96_put [OF assms(1) p(1)] by (rule rd8_take [OF off])
  finally show "hdr_get (indir_set sb p v) off = hdr_get sb off" by (simp add: c(1))
qed

definition queue_page :: "StorageBackend \<Rightarrow> int \<Rightarrow> bytes \<Rightarrow> bool" where
  "queue_page sb h b \<longleftrightarrow> h \<noteq> 0 \<and> in_table sb h \<and> page_view sb h = Some b
     \<and> 0 \<le> rd4i b 8 \<and> rd4i b 8 \<le> free_list_max_per_page sb"

definition queue_entry :: "bytes \<Rightarrow> int \<Rightarrow> int \<times> int" where
  "queue_entry b i = (rd8i b (nat (16 + i * 16)), rd8i b (nat (16 + i * 16 + 8)))"

lemma invalidate_laws:
  assumes "store_inv sb"
  shows "store_inv (sb\<lparr>sb_cache := snd (cache_invalidate (sb_cache sb) p)\<rparr>)"
    and "cached (snd (cache_invalidate (sb_cache sb) p)) = (cached (sb_cache sb))(p := None)"
  using assms by (auto simp: store_inv_def payloads_ok_def healthy_def cache_wf_invalidate cached_invalidate cache_wf_def
      split: if_splits) (simp_all add: cache_wf_invalidate [unfolded cache_wf_def])

lemma poke_laws:
  assumes "store_inv sb" "cached (sb_cache sb) p = Some b" "\<And>b. length b = page_size sb \<Longrightarrow> length (f b) = length b"
  shows "store_inv (cache_poke sb p f)" "cached (sb_cache (cache_poke sb p f)) = (cached (sb_cache sb))(p \<mapsto> f b)"
    "\<exists>c. cache_poke sb p f = sb\<lparr>sb_cache := c\<rparr>"
  using sbs.poke_law [OF assms(1) _ assms(3), of p] assms(1,2) cached_poke [of sb p f]
  by (auto simp: sb_resident_def store_inv_def cache_wf_def cache_poke_def)

lemma store_inv_frame:
  "store_inv sb \<Longrightarrow> sb_io sb' = sb_io sb \<Longrightarrow> sb_heap sb' = sb_heap sb \<Longrightarrow> page_size sb' = page_size sb
   \<Longrightarrow> cache_wf (sb_cache sb') \<Longrightarrow> cached (sb_cache sb') = cached (sb_cache sb) \<Longrightarrow> store_inv sb'"
  by (simp add: store_inv_def healthy_def payloads_ok_def)

lemma indir_set_fields [simp]:
  "sb_io (indir_set sb p v) = sb_io sb" "sb_heap (indir_set sb p v) = sb_heap sb"
  "sb_file (indir_set sb p v) = sb_file sb"
  "page_size (indir_set sb p v) = page_size sb" "deferred_queue (indir_set sb p v) = deferred_queue sb"
  "total_pages (indir_set sb p v) = total_pages sb" "physical_tail (indir_set sb p v) = physical_tail sb"
  "length (overflow_pages (indir_set sb p v)) = length (overflow_pages sb)"
  by (simp_all add: indir_set_def Let_def)

lemma drain_head_laws:
  assumes inv: "store_inv sb" and wf: "indir_wf sb" and h: "in_table sb h" "hdr_get sb HDR_OFF_FREE_LIST_HEAD = h"
    and b: "cached (sb_cache sb) h = Some b"
  shows "store_inv (drain_head sb h)" "indir_wf (drain_head sb h)"
    and "0 \<le> q \<Longrightarrow> indir_lookup (drain_head sb h) q = (if q = h then 0 else indir_lookup sb q)"
    and "cached (sb_cache (drain_head sb h)) h = Some b"
    and "hdr_get (drain_head sb h) HDR_OFF_FREE_LIST_HEAD = rd8i b 0"
    and "hdr_get (drain_head sb h) HDR_OFF_FREE_LIST_COUNT = hdr_get sb HDR_OFF_FREE_LIST_COUNT"
    and "hdr_get (drain_head sb h) HDR_OFF_FREE_LIST_TAIL = hdr_get sb HDR_OFF_FREE_LIST_TAIL"
    and "in_table (drain_head sb h) q = in_table sb q"
    and "deferred_queue (drain_head sb h) = deferred_queue sb"
proof -
  have "page_view sb h = Some b" using b by (simp add: page_view_def)
  from field_law [OF inv this, of "\<lambda>b. rd8i b 0" 0] obtain c where
    c: "read_free_list_next sb h = (rd8i b 0, sb\<lparr>sb_cache := c\<rparr>)" "store_inv (sb\<lparr>sb_cache := c\<rparr>)" "cached c h = Some b"
    by (auto simp: read_free_list_next_def)
  let ?s = "hdr_set (sb\<lparr>sb_cache := c\<rparr>) 40 (rd8i b 0)"
  have wf1: "indir_wf (sb\<lparr>sb_cache := c\<rparr>)" using wf by (simp add: indir_wf_def)
  have eq: "drain_head sb h = indir_set ?s h 0"
    using h(2) by (simp add: drain_head_def c(1))
  note hs = hdr_set_laws [OF wf1, where off = 40 and v = "rd8i b 0", simplified]
  have it: "in_table ?s h" using h(1) by (simp add: in_table_def)
  have cw: "cache_wf (sb_cache ?s)" using c(2) by (simp add: store_inv_def)
  have z: "i64 0" by (simp add: i64_def)
  note st = indir_set_laws [OF hs(1) it z cw]
  show "store_inv (drain_head sb h)"
    unfolding eq by (rule store_inv_frame [OF c(2)]) (use st(3,4) in simp_all)
  show "indir_wf (drain_head sb h)" unfolding eq using st(1) by simp
  show "0 \<le> q \<Longrightarrow> indir_lookup (drain_head sb h) q = (if q = h then 0 else indir_lookup sb q)"
    unfolding eq using st(2) hs(2) by simp
  show "cached (sb_cache (drain_head sb h)) h = Some b" unfolding eq using st(3) c(3) by simp
  show "hdr_get (drain_head sb h) 40 = rd8i b 0" unfolding eq using st(5) [of 40] hs(3) i64_sint by simp
  show "hdr_get (drain_head sb h) 56 = hdr_get sb 56" unfolding eq using st(5) [of 56] hs(4) [of 56] by simp
  show "hdr_get (drain_head sb h) 48 = hdr_get sb 48" unfolding eq using st(5) [of 48] hs(4) [of 48] by simp
  show "in_table (drain_head sb h) q = in_table sb q" unfolding eq st(6) by (simp add: in_table_def)
  show "deferred_queue (drain_head sb h) = deferred_queue sb" unfolding eq by simp
qed

text \<open>A successful pop, whether or not it empties the head page.\<close>

lemma dequeue_pop:
  assumes inv: "store_inv sb" and wf: "indir_wf sb"
    and n: "0 < hdr_get sb HDR_OFF_FREE_LIST_COUNT"
    and h: "hdr_get sb HDR_OFF_FREE_LIST_HEAD = h" and b: "queue_page sb h b" "rd4i b 8 = k" "0 < k"
    and e: "queue_entry b (k - 1) = (page, phys)" "page \<noteq> 0" "page \<noteq> h" "in_table sb page" "indir_lookup sb page = 0"
    and d: "\<not> deferred_free_is_queued (deferred_queue sb) page"
  shows "\<exists>sb'. dequeue_from_free_list sb = (page, sb') \<and> store_inv sb' \<and> indir_wf sb'
    \<and> (\<forall>q \<ge> 0. indir_lookup sb' q = (if q = page then phys else if q = h \<and> k = 1 then 0 else indir_lookup sb q))
    \<and> hdr_get sb' HDR_OFF_FREE_LIST_HEAD = (if k = 1 then rd8i b 0 else h)
    \<and> hdr_get sb' HDR_OFF_FREE_LIST_COUNT = hdr_get sb HDR_OFF_FREE_LIST_COUNT - 1
    \<and> page_view sb' h = Some (wr4i b 8 (k - 1))"
proof -
  have hp: "h \<noteq> 0" "in_table sb h" "page_view sb h = Some b" using b by (simp_all add: queue_page_def)
  from field_law [OF inv hp(3), of "\<lambda>b. rd4i b 8" "-1"] b(2) obtain c1 where
    c1: "read_free_list_count sb h = (k, sb\<lparr>sb_cache := c1\<rparr>)" "store_inv (sb\<lparr>sb_cache := c1\<rparr>)"
      "page_view (sb\<lparr>sb_cache := c1\<rparr>) = page_view sb" by (auto simp: read_free_list_count_def)
  from field_law [OF c1(2), of h b "\<lambda>b. queue_entry b (k - 1)" "(0, 0)"] hp c1(3) e(1) obtain c2 where
    c2: "read_free_list_entry (sb\<lparr>sb_cache := c1\<rparr>) h (k - 1) = ((page, phys), sb\<lparr>sb_cache := c2\<rparr>)"
      "store_inv (sb\<lparr>sb_cache := c2\<rparr>)" "page_view (sb\<lparr>sb_cache := c2\<rparr>) = page_view sb"
    by (auto simp: read_free_list_entry_def queue_entry_def)
  obtain r st s3 where rd: "storage_read_with_status (sb\<lparr>sb_cache := c2\<rparr>) h = (r, st, s3)" by (metis prod_cases3)
  from storage_read_law [OF c2(2) rd] hp c2(3) obtain c3 where
    c3: "s3 = sb\<lparr>sb_cache := c3\<rparr>" "r = Some b" "st = STORAGE_OK" "cached c3 h = Some b" by auto
  have inv3: "store_inv s3" using sbs.rd_law [OF c2(2) rd] by simp
  let ?f = "\<lambda>b. wr4i b 8 (k - 1)"
  have inv3': "store_inv (sb\<lparr>sb_cache := c3\<rparr>)" using inv3 c3(1) by simp
  have ps: "128 \<le> page_size sb" using wf by (simp add: indir_wf_def)
  have lenf: "\<And>b. length b = page_size (sb\<lparr>sb_cache := c3\<rparr>) \<Longrightarrow> length (?f b) = length b" using ps by simp
  obtain c4 where c4: "cache_poke (sb\<lparr>sb_cache := c3\<rparr>) h ?f = sb\<lparr>sb_cache := c4\<rparr>" "store_inv (sb\<lparr>sb_cache := c4\<rparr>)"
      "cached c4 h = Some (?f b)"
    using poke_laws [where f = ?f and p = h, OF inv3' _ lenf] c3(4) by auto
  define s5 where "s5 = (if k = 1 then drain_head (sb\<lparr>sb_cache := c4\<rparr>) h else sb\<lparr>sb_cache := c4\<rparr>)"
  have wf4: "indir_wf (sb\<lparr>sb_cache := c4\<rparr>)" "in_table (sb\<lparr>sb_cache := c4\<rparr>) q = in_table sb q" for q
    using wf by (simp_all add: indir_wf_def in_table_def)
  have nx: "rd8i (?f b) 0 = rd8i b 0"
    using page_view_length [OF inv hp(3)] ps by (simp add: buf_simps)
  have s5: "store_inv s5" "indir_wf s5" "cached (sb_cache s5) h = Some (?f b)" "deferred_queue s5 = deferred_queue sb"
    "\<And>q. 0 \<le> q \<Longrightarrow> indir_lookup s5 q = (if q = h \<and> k = 1 then 0 else indir_lookup sb q)"
    "hdr_get s5 40 = (if k = 1 then rd8i b 0 else h)" "hdr_get s5 56 = hdr_get sb 56" "\<And>q. in_table s5 q = in_table sb q"
    using c4(2,3) wf4 h hp(2) drain_head_laws [OF c4(2) wf4(1), of h "?f b"] nx
    by (cases "k = 1"; simp add: s5_def)+
  define s6 where "s6 = s5\<lparr>sb_cache := snd (cache_invalidate (sb_cache s5) page)\<rparr>"
  have s6: "store_inv s6" "cached (sb_cache s6) h = Some (?f b)" "indir_wf s6"
    using invalidate_laws [OF s5(1), of page] s5(2,3) e(3) by (simp_all add: s6_def indir_wf_def)
  let ?n = "hdr_get sb 56 - 1"
  define s7 where "s7 = hdr_set s6 56 ?n"
  have nn: "i64 ?n" using n i64_sint [of "rd8 (header_buf sb) 56"] by (simp add: i64_def)
  note hs = hdr_set_laws [OF s6(3), where off = 56 and v = ?n, simplified, folded s7_def]
  have l7: "indir_lookup s7 q = (if q = h \<and> k = 1 then 0 else indir_lookup sb q)" if "0 \<le> q" for q
    using hs(2) [OF that] s5(5) [OF that] by (simp add: s6_def)
  have "in_table s6 page" using e(4) s5(8) [of page] by (simp add: s6_def in_table_def)
  then have t7: "in_table s7 page" using hs(5) by simp
  have p0: "0 \<le> page" using e(4) by (simp add: in_table_def)
  have cl: "try_claim_entry s7 page phys = (True, put_entry s7 page phys)"
    using claim_ok [OF hs(1) t7] l7 [OF p0] e(3,5) by simp
  let ?r = "put_entry s7 page phys"
  have "dequeue_from_free_list sb = (page, ?r)"
  proof -
    have "deferred_queue ?r = deferred_queue sb" "s7 = hdr_set s6 56 (hdr_get s6 56 - 1)"
      using s5(4,7) by (simp_all add: s7_def s6_def)
    then have "dequeue_loop (Suc retry) sb = (page, ?r)" for retry
      using n h hp(1) b(2,3) e(2) d c1(1) c2(1) rd c3 c4(1) cl
      by (cases "k = 1"; simp add: Let_def s6_def s5_def)
    from this [of 999] show ?thesis by (simp add: dequeue_from_free_list_def)
  qed
  moreover have ph: "i64 phys" using e(1) i64_sint by (auto simp: queue_entry_def)
  have "store_inv ?r"
    by (rule store_inv_frame [OF s6(1)]) (use s6(1) in \<open>simp_all add: s7_def store_inv_def\<close>)
  moreover have "indir_wf ?r" by (rule indir_wf_put [OF hs(1) p0])
  moreover have "\<forall>q \<ge> 0. indir_lookup ?r q = (if q = page then phys else if q = h \<and> k = 1 then 0 else indir_lookup sb q)"
    using indir_lookup_put [OF hs(1) t7 _ ph] l7 by simp
  moreover have hd: "hdr_get ?r off = hdr_get s7 off" if "off + 8 \<le> 96" for off
    using rd8_take [OF that, of "header_buf ?r"] rd8_take [OF that, of "header_buf s7"]
      take96_put [OF hs(1) p0, of phys] by simp
  moreover have "hdr_get s7 40 = (if k = 1 then rd8i b 0 else h)" using hs(4) [of 40] s5(6) by (simp add: s6_def)
  moreover have "hdr_get s7 56 = ?n" using hs(3) nn by simp
  moreover have "page_view ?r h = Some (?f b)" using s6(2) by (simp add: page_view_def s7_def)
  ultimately show ?thesis by (intro exI [of _ ?r]) simp
qed

lemma queue_append_bytes:
  assumes len: "length b = ps" "128 \<le> ps" and k: "0 \<le> k" "16 + k * 16 + 16 \<le> int ps" "k + 1 < 2 ^ 31"
    and lp: "i64 l" "i64 p"
  defines "b' \<equiv> wr4i (wr8i (wr8i b (nat (16 + k * 16)) l) (nat (16 + k * 16 + 8)) p) 8 (k + 1)"
  shows "rd4i b' 8 = k + 1" "queue_entry b' k = (l, p)" "rd8i b' 0 = rd8i b 0" "length b' = ps"
    "\<And>i. 0 \<le> i \<Longrightarrow> i < k \<Longrightarrow> queue_entry b' i = queue_entry b i"
proof -
  define o1 o2 where "o1 = nat (16 + k * 16)" and "o2 = nat (16 + k * 16 + 8)"
  have o: "16 \<le> o1" "o2 = o1 + 8" "o2 + 8 \<le> ps" using k by (auto simp: o1_def o2_def nat_add_distrib)
  have i32: "i32 (k + 1)" using k by (simp add: i32_def)
  have b': "b' = wr4i (wr8i (wr8i b o1 l) o2 p) 8 (k + 1)" by (simp add: b'_def o1_def o2_def)
  show "length b' = ps" using o len by (simp add: b')
  show "rd4i b' 8 = k + 1" using o len i32 by (simp add: b' buf_simps del: of_int_add)
  show "rd8i b' 0 = rd8i b 0" using o len by (simp add: b' buf_simps)
  show "queue_entry b' k = (l, p)"
    using o len lp unfolding queue_entry_def o1_def [symmetric] o2_def [symmetric] by (simp add: b' buf_simps)
  show "queue_entry b' i = queue_entry b i" if "0 \<le> i" "i < k" for i
  proof -
    define n1 n2 where "n1 = nat (16 + i * 16)" and "n2 = nat (16 + i * 16 + 8)"
    have "16 \<le> n1" "n2 = n1 + 8" "n2 + 8 \<le> o1" using that by (auto simp: n1_def n2_def o1_def nat_add_distrib)
    then show ?thesis
      using o len unfolding queue_entry_def n1_def [symmetric] n2_def [symmetric] by (simp add: b' buf_simps)
  qed
qed

lemma enqueue_append:
  assumes inv: "store_inv sb" and wf: "indir_wf sb" and ps: "page_size sb < 2 ^ 31"
    and t: "hdr_get sb HDR_OFF_FREE_LIST_TAIL = t" "queue_page sb t b" "rd4i b 8 = k" "k < free_list_max_per_page sb"
    and n: "i64 (hdr_get sb HDR_OFF_FREE_LIST_COUNT + 1)" and lp: "i64 l" "i64 p"
  shows "\<exists>sb' b'. enqueue_free_page sb l p = Some sb' \<and> store_inv sb' \<and> indir_wf sb'
    \<and> (\<forall>q \<ge> 0. indir_lookup sb' q = indir_lookup sb q) \<and> (\<forall>q. in_table sb' q = in_table sb q)
    \<and> page_size sb' = page_size sb \<and> deferred_queue sb' = deferred_queue sb
    \<and> page_view sb' t = Some b' \<and> rd4i b' 8 = k + 1 \<and> queue_entry b' k = (l, p) \<and> rd8i b' 0 = rd8i b 0
    \<and> (\<forall>i \<in> {0..<k}. queue_entry b' i = queue_entry b i)
    \<and> (\<forall>q. q \<noteq> t \<longrightarrow> cached (sb_cache sb') q = cached (sb_cache sb) q)
    \<and> hdr_get sb' HDR_OFF_FREE_LIST_TAIL = t
    \<and> hdr_get sb' HDR_OFF_FREE_LIST_HEAD
        = (if hdr_get sb HDR_OFF_FREE_LIST_HEAD = 0 then t else hdr_get sb HDR_OFF_FREE_LIST_HEAD)
    \<and> hdr_get sb' HDR_OFF_FREE_LIST_COUNT = hdr_get sb HDR_OFF_FREE_LIST_COUNT + 1"
proof -
  have tp: "t \<noteq> 0" "page_view sb t = Some b" "0 \<le> k" using t(2,3) by (simp_all add: queue_page_def)
  have len: "length b = page_size sb" "128 \<le> page_size sb"
    using page_view_length [OF inv tp(2)] wf by (simp_all add: indir_wf_def)
  have k: "16 + k * 16 + 16 \<le> int (page_size sb)" "k + 1 < 2 ^ 31"
  proof -
    show k16: "16 + k * 16 + 16 \<le> int (page_size sb)" using t(4) unfolding free_list_max_per_page_def by presburger
    have "int (page_size sb) < 2 ^ 31" using ps by simp
    with k16 tp(3) show "k + 1 < 2 ^ 31" by linarith
  qed
  let ?e = "\<lambda>b. wr8i (wr8i b (nat (16 + k * 16)) l) (nat (16 + k * 16 + 8)) p" and ?c = "\<lambda>b. wr4i b 8 (k + 1)"
  let ?b = "?c (?e b)"
  note ab = queue_append_bytes [OF len tp(3) k lp]
  from field_law [OF inv tp(2), of "\<lambda>b. rd4i b 8" "-1"] t(3) obtain c1 where
    c1: "read_free_list_count sb t = (k, sb\<lparr>sb_cache := c1\<rparr>)" "store_inv (sb\<lparr>sb_cache := c1\<rparr>)"
      "page_view (sb\<lparr>sb_cache := c1\<rparr>) = page_view sb" "\<forall>q. q \<noteq> t \<longrightarrow> cached c1 q = cached (sb_cache sb) q"
    by (auto simp: read_free_list_count_def)
  have le: "length (?e b) = length b" if "length b = page_size sb" for b
  proof -
    have "nat (16 + k * 16) + 8 \<le> length b" "nat (16 + k * 16 + 8) + 8 \<le> length b" using that k(1) tp(3) by linarith+
    then show ?thesis by simp
  qed
  from rmw_frame [where f = ?e and p = t and n = 1, OF c1(2)] c1(3) tp(2) le obtain c2 where
    c2: "write_free_list_entry (sb\<lparr>sb_cache := c1\<rparr>) t k l p = sb\<lparr>sb_cache := c2\<rparr>" "store_inv (sb\<lparr>sb_cache := c2\<rparr>)"
      "page_view (sb\<lparr>sb_cache := c2\<rparr>) t = Some (?e b)" "\<forall>q. q \<noteq> t \<longrightarrow> cached c2 q = cached c1 q"
    by (auto simp: write_free_list_entry_def)
  from rmw_frame [where f = ?c and p = t and n = 1, OF c2(2,3)] len(2) obtain c3 where
    c3: "write_free_list_count (sb\<lparr>sb_cache := c2\<rparr>) t (k + 1) = sb\<lparr>sb_cache := c3\<rparr>" "store_inv (sb\<lparr>sb_cache := c3\<rparr>)"
      "cached c3 t = Some ?b" "\<forall>q. q \<noteq> t \<longrightarrow> cached c3 q = cached c2 q"
    by (auto simp: write_free_list_count_def)
  define s1 where "s1 = hdr_set (sb\<lparr>sb_cache := c3\<rparr>) 48 t"
  define s2 where "s2 = (if hdr_get s1 40 = 0 then hdr_set s1 40 t else s1)"
  define s3 where "s3 = hdr_set s2 56 (hdr_get s2 56 + 1)"
  have it: "i64 t" using t(1) i64_sint by auto
  have wf0: "indir_wf (sb\<lparr>sb_cache := c3\<rparr>)" using wf by (simp add: indir_wf_def)
  note h1 = hdr_set_laws [OF wf0, where off = 48 and v = t, simplified, folded s1_def]
  note h2 = hdr_set_laws [OF h1(1), where off = 40 and v = t, simplified]
  have s2: "indir_wf s2" "\<And>q. 0 \<le> q \<Longrightarrow> indir_lookup s2 q = indir_lookup sb q" "hdr_get s2 48 = t"
    "hdr_get s2 40 = (if hdr_get sb 40 = 0 then t else hdr_get sb 40)" "hdr_get s2 56 = hdr_get sb 56"
    "\<And>q. in_table s2 q = in_table sb q"
    using h1 h2(1,2,5) h2(3) h2(4) [of 48] h2(4) [of 56] h1(4) [of 40] h1(4) [of 56] it
    by (auto simp: s2_def in_table_def)
  note h3 = hdr_set_laws [OF s2(1), where off = 56 and v = "hdr_get s2 56 + 1", simplified, folded s3_def]
  have "enqueue_free_page sb l p = Some s3"
    unfolding enqueue_free_page_def
    using t(1,4) tp c1(1) c2(1) c3(1)
    by (simp add: Let_def free_list_max_per_page_def s1_def [symmetric] s2_def [symmetric])
       (simp add: s3_def s2_def)
  moreover have "sb_cache s3 = c3" "sb_io s3 = sb_io sb" "sb_heap s3 = sb_heap sb" "page_size s3 = page_size sb"
    "deferred_queue s3 = deferred_queue sb" by (simp_all add: s3_def s2_def s1_def)
  moreover from this have "store_inv s3" using c3(2) by (intro store_inv_frame [OF c3(2)]) (simp_all add: store_inv_def)
  moreover have "page_view s3 t = Some ?b" using c3(3) \<open>sb_cache s3 = c3\<close> by (simp add: page_view_def)
  ultimately show ?thesis
    using ab h3(1,2,5) h3(3) h3(4) [of 40] h3(4) [of 48] s2 n c1(4) c2(4) c3(4) by (intro exI [of _ s3] exI [of _ ?b]) simp
qed

section \<open>Properties\<close>

lemma records_apart:
  assumes "records_ok sb" "0 \<le> q" "0 \<le> r" "q \<noteq> r" "indir_lookup sb q \<noteq> 0" "indir_lookup sb r \<noteq> 0"
  shows "indir_lookup sb q + phys_record_size sb \<le> indir_lookup sb r
    \<or> indir_lookup sb r + phys_record_size sb \<le> indir_lookup sb q"
proof -
  have ne: "indir_lookup sb q \<noteq> indir_lookup sb r" using assms unfolding records_ok_def by blast
  have dv: "phys_record_size sb dvd indir_lookup sb q - indir_lookup sb r"
      "phys_record_size sb dvd indir_lookup sb r - indir_lookup sb q"
    using assms by (auto simp: records_ok_def intro: dvd_diff)
  show ?thesis
  proof (cases "indir_lookup sb q < indir_lookup sb r")
    case True
    then show ?thesis using zdvd_imp_le [OF dv(2)] by simp
  next
    case False
    then show ?thesis using zdvd_imp_le [OF dv(1)] ne by simp
  qed
qed

lemma demo_lookup: "0 \<le> q \<Longrightarrow> indir_lookup demo_sb q = (if q = 1 then 144 else 0)"
proof -
  assume q: "0 \<le> q"
  let ?z = "demo_sb\<lparr>header_buf := zero_bytes 128\<rparr>"
  have wf: "indir_wf ?z" and it: "in_table ?z 1"
    by (simp_all add: indir_wf_def demo_sb_def in_table_def total_entries_def inline_entry_count_def)
  have d: "demo_sb = put_entry ?z 1 144"
    by (simp add: put_entry_def demo_sb_def inline_entry_count_def)
  have z: "indir_lookup ?z q = 0"
  proof (cases "q < 4")
    case True
    then have "nat (96 + 8 * q) + 8 \<le> 128" using q by linarith
    with True show ?thesis by (simp add: indir_lookup_def demo_sb_def inline_entry_count_def)
  qed (use q in \<open>simp add: indir_lookup_def demo_sb_def inline_entry_count_def overflow_idx_def
      entries_per_overflow_def pos_imp_zdiv_nonneg_iff\<close>)
  have "i64 144" by (simp add: i64_def)
  from indir_lookup_put [OF wf it q this] z show ?thesis by (subst d) simp
qed

lemma demo_table_inv: "table_inv demo_sb"
proof -
  have "total_entries demo_sb = 4" by (simp add: demo_sb_def total_entries_def inline_entry_count_def)
  moreover have "records_ok demo_sb"
    by (auto simp: records_ok_def demo_lookup phys_record_size_def) (simp_all add: demo_sb_def)
  moreover have "overflow_pages demo_sb = []" "total_pages demo_sb = 2" by (simp_all add: demo_sb_def)
  ultimately show ?thesis using demo_wf by (simp add: table_inv_def demo_lookup)
qed

text \<open>C7: with an empty free-page queue, working memory and room in the 64-bit offset space, a
  page allocation returns. The page was unmapped; it gets a record at or beyond the old end of
  the data area, apart from the record of every other mapped page; no mapped page moves, the
  file and the cache are untouched, and the table invariant holds again, also when the allocation
  has to step over a reserved slot or grow the table first.\<close>

theorem storage_allocate_fresh:
  assumes "table_inv sb" "sb_heap sb = []" "hdr_get sb HDR_OFF_FREE_LIST_COUNT \<le> 0"
    and "physical_tail sb + 2 * phys_record_size sb < 2 ^ 63"
  shows "\<exists>p sb'. storage_allocate sb 1 = Some (p, sb') \<and> table_inv sb' \<and> extends sb sb'
    \<and> total_pages sb \<le> p \<and> p < total_pages sb' \<and> indir_lookup sb p = 0
    \<and> physical_tail sb \<le> indir_lookup sb' p
    \<and> (\<forall>q \<ge> 0. q \<noteq> p \<longrightarrow> indir_lookup sb' q \<noteq> 0 \<longrightarrow>
         indir_lookup sb' q + phys_record_size sb \<le> indir_lookup sb' p
       \<or> indir_lookup sb' p + phys_record_size sb \<le> indir_lookup sb' q)"
proof -
  have dq: "dequeue_from_free_list sb = (0, sb)"
  proof -
    have "dequeue_loop (Suc retry) sb = (0, sb)" for retry using assms(3) by simp
    from this [of 999] show ?thesis by (simp add: dequeue_from_free_list_def)
  qed
  from tail_advance_ok [OF assms(1,2,4)] obtain p sb' where
    r: "storage_allocate_tail_advance sb 1 = Some (p, sb')" "table_inv sb'" "extends sb sb'"
      "total_pages sb \<le> p" "total_pages sb' = p + 1" "indir_lookup sb p = 0"
      "physical_tail sb \<le> indir_lookup sb' p" by blast
  have rs: "phys_record_size sb' = phys_record_size sb" using r(3) by (simp add: extends_def phys_record_size_def)
  have pos: "0 < physical_tail sb" "0 \<le> p" "records_ok sb'"
    using assms(1) r(2,4) by (simp_all add: table_inv_def records_ok_def)
  have "storage_allocate sb 1 = Some (p, sb')" by (simp add: storage_allocate_def dq r(1))
  then show ?thesis
    using r pos records_apart [OF pos(3) _ pos(2)]
    by (intro exI [of _ p] exI [of _ sb']) (simp add: rs)
qed

theorem storage_allocate_fresh_witness:
  "\<exists>p sb'. storage_allocate demo_sb 1 = Some (p, sb') \<and> table_inv sb' \<and> 288 \<le> indir_lookup sb' p"
proof -
  have "sb_heap demo_sb = []" "hdr_get demo_sb HDR_OFF_FREE_LIST_COUNT \<le> 0"
    "physical_tail demo_sb + 2 * phys_record_size demo_sb < 2 ^ 63"
    by (simp_all add: demo_sb_def phys_record_size_def buf_simps)
  from storage_allocate_fresh [OF demo_table_inv this] obtain p sb' where
    "storage_allocate demo_sb 1 = Some (p, sb')" "table_inv sb'" "physical_tail demo_sb \<le> indir_lookup sb' p" by blast
  then show ?thesis by (intro exI [of _ p] exI [of _ sb']) (simp add: demo_sb_def)
qed


text \<open>The small store with an empty queue page, page 1, in the cache, and page 2 mapped.\<close>

definition demo_queue_sb :: StorageBackend where
  "demo_queue_sb = put_entry (hdr_set (storage_write demo_sb 1 (zero_bytes 128) FLUSH_PRIO_POOL) HDR_OFF_FREE_LIST_TAIL 1) 2 288"

lemma demo_queue_sb:
  shows "store_inv demo_queue_sb" "indir_wf demo_queue_sb" "page_size demo_queue_sb = 128"
    "hdr_get demo_queue_sb 48 = 1" "hdr_get demo_queue_sb 40 = 0" "hdr_get demo_queue_sb 56 = 0"
    "cached (sb_cache demo_queue_sb) 1 = Some (zero_bytes 128)" "total_entries demo_queue_sb = 4"
    "indir_lookup demo_queue_sb 2 = 288" "deferred_queue demo_queue_sb = None"
proof -
  obtain c where c: "storage_write demo_sb 1 (zero_bytes 128) 1 = demo_sb\<lparr>sb_cache := c\<rparr>" "cache_wf c"
      "cached c = (cached (sb_cache demo_sb))(1 \<mapsto> zero_bytes 128)"
    using cache_insert_healthy [OF demo_wf(2,3), of 1 "zero_bytes 128" 1 True] by (auto simp: storage_write_def)
  have inv: "store_inv (demo_sb\<lparr>sb_cache := c\<rparr>)"
    using sbs.wr_law [OF demo_store_inv, of "zero_bytes 128" 1 1] c(1) by (simp add: demo_sb_def)
  have wf: "indir_wf (demo_sb\<lparr>sb_cache := c\<rparr>)" using demo_wf(1) by (simp add: indir_wf_def)
  note hs = hdr_set_laws [OF wf, where off = 48 and v = 1, simplified]
  let ?s = "hdr_set (demo_sb\<lparr>sb_cache := c\<rparr>) 48 1"
  have eq: "demo_queue_sb = put_entry ?s 2 288" by (simp only: demo_queue_sb_def c(1))
  have te: "total_entries demo_sb = 4" by (simp add: demo_sb_def total_entries_def inline_entry_count_def)
  have it: "in_table ?s 2" using hs(5) te by (simp add: in_table_def)
  show "store_inv demo_queue_sb"
    unfolding eq by (rule store_inv_frame [OF inv]) (use c(2) in simp_all)
  show "indir_wf demo_queue_sb" unfolding eq by (rule indir_wf_put [OF hs(1)]) simp
  show "page_size demo_queue_sb = 128" "deferred_queue demo_queue_sb = None" unfolding eq by (simp_all add: demo_sb_def)
  show "total_entries demo_queue_sb = 4" unfolding eq using te by simp
  have hd: "hdr_get demo_queue_sb off = hdr_get ?s off" if "off + 8 \<le> 96" for off
    unfolding eq using rd8_take [OF that, of "header_buf (put_entry ?s 2 288)"] rd8_take [OF that, of "header_buf ?s"]
      take96_put [OF hs(1), of 2 288] by simp
  have zero: "hdr_get demo_sb 40 = 0" "hdr_get demo_sb 56 = 0" by (simp_all add: demo_sb_def buf_simps)
  show "hdr_get demo_queue_sb 48 = 1" "hdr_get demo_queue_sb 40 = 0" "hdr_get demo_queue_sb 56 = 0"
    using hd hs(3) hs(4) [of 40] hs(4) [of 56] zero by (simp_all add: i64_def)
  show "cached (sb_cache demo_queue_sb) 1 = Some (zero_bytes 128)" unfolding eq using c(3) by simp
  show "indir_lookup demo_queue_sb 2 = 288"
    unfolding eq using indir_lookup_put [OF hs(1) it, of 2 288] by (simp add: i64_def)
qed


end
