(* ===== verification/Bin.thy ===== *)
theory Bin
  imports Alloc
begin

text \<open>
  The Bin, \<^verbatim>\<open>src/bin.c\<close>: the persistent queue of clean-up work between the file
  operations and the garbage collector. Pages are linked through the header
  buffer (head, tail, count) and hold entries of 24 bytes.

  A page is read as the list of its entries (\<open>bin_list\<close>). The lemmas show that a push
  appends to the list of the tail page, that a pop takes the last entry of the
  head page, and that the first push on an empty Bin creates a page.
\<close>

section \<open>Entries and pages\<close>

record BinEntry =
  be_context :: int
  be_type :: int
  be_rsvd :: int
  be_context2 :: int

abbreviation (input) BIN_OK :: int where "BIN_OK \<equiv> 0"
abbreviation (input) BIN_ERR_IO :: int where "BIN_ERR_IO \<equiv> -1"
abbreviation (input) BIN_ERR_EMPTY :: int where "BIN_ERR_EMPTY \<equiv> -2"
abbreviation (input) BIN_ERR_FULL :: int where "BIN_ERR_FULL \<equiv> -7"
abbreviation (input) BIN_ERR_AGAIN :: int where "BIN_ERR_AGAIN \<equiv> -8"
abbreviation (input) BIN_PUSH_MAX_RETRIES :: nat where "BIN_PUSH_MAX_RETRIES \<equiv> 1000"

definition bin_page_capacity :: "StorageBackend \<Rightarrow> int" where
  "bin_page_capacity sb = (int (page_size sb) - 16) div 24"

definition bin_get :: "bytes \<Rightarrow> int \<Rightarrow> BinEntry" where
  "bin_get b i =
     (let off = nat (16 + i * 24)
      in \<lparr>be_context = rd8i b off, be_type = rd4i b (off + 8), be_rsvd = rd4i b (off + 12),
          be_context2 = rd8i b (off + 16)\<rparr>)"

definition bin_put :: "bytes \<Rightarrow> int \<Rightarrow> BinEntry \<Rightarrow> bytes" where
  "bin_put b i e =
     (let off = nat (16 + i * 24)
      in wr8i (wr4i (wr4i (wr8i b off (be_context e)) (off + 8) (be_type e)) (off + 12) (be_rsvd e))
           (off + 16) (be_context2 e))"

definition read_bin_page_count :: "StorageBackend \<Rightarrow> int \<Rightarrow> int \<times> StorageBackend" where
  "read_bin_page_count sb p = storage_field sb p (\<lambda>b. rd4i b 8) (-1)"

definition read_bin_page_entry :: "StorageBackend \<Rightarrow> int \<Rightarrow> int \<Rightarrow> BinEntry option \<times> StorageBackend" where
  "read_bin_page_entry sb p i = storage_field sb p (\<lambda>b. Some (bin_get b i)) None"

definition init_bin_page :: "StorageBackend \<Rightarrow> int \<Rightarrow> StorageBackend" where
  "init_bin_page sb p =
     storage_rmw sb p (\<lambda>b. wr4i (wr4i (wr8i b 0 0) 8 0) 12 (bin_page_capacity sb)) FLUSH_PRIO_POOL"

definition read_bin_page_next :: "StorageBackend \<Rightarrow> int \<Rightarrow> int \<times> StorageBackend" where
  "read_bin_page_next sb p = storage_field sb p (\<lambda>b. rd8i b 0) 0"

definition write_bin_page_next :: "StorageBackend \<Rightarrow> int \<Rightarrow> int \<Rightarrow> StorageBackend" where
  "write_bin_page_next sb p v = storage_rmw sb p (\<lambda>b. wr8i b 0 v) FLUSH_PRIO_POOL"

definition alloc_bin_page :: "StorageBackend \<Rightarrow> (int \<times> StorageBackend) option" where
  "alloc_bin_page sb = do {
     (new_vp, sb) \<leftarrow> storage_allocate_tail_advance sb 1;
     if new_vp < 0 then Some (-1, sb)
     else let (ok, sb) = malloc sb in
          if \<not> ok then Some (-1, sb)
          else Some (new_vp, cache_insert sb new_vp (zero_bytes (page_size sb)) FLUSH_PRIO_POOL True) }"

section \<open>Push\<close>

text \<open>
  The claim of a slot that both paths of \<^verbatim>\<open>bin_push\<close> share: compare-and-swap of the
  page count, the entry, the dirty mark, the global count. The result \<open>None\<close> is a lost
  compare-and-swap, after which the caller goes round its loop again.
\<close>

definition bin_claim :: "StorageBackend \<Rightarrow> int \<Rightarrow> int \<Rightarrow> BinEntry \<Rightarrow> int option \<times> StorageBackend" where
  "bin_claim sb tail count e =
     (case storage_read_with_status sb tail of
        (Some b, STORAGE_OK, sb) \<Rightarrow>
          if rd4i b 8 \<noteq> count then (None, sb)
          else
            let sb = cache_poke sb tail (\<lambda>b. wr4i b 8 (count + 1));
                sb = cache_poke sb tail (\<lambda>b. bin_put b count (e\<lparr>be_rsvd := 0\<rparr>));
                sb = sb_mark_dirty sb tail FLUSH_PRIO_POOL
            in (Some BIN_OK, hdr_set sb HDR_OFF_BIN_COUNT (hdr_get sb HDR_OFF_BIN_COUNT + 1))
      | (_, _, sb) \<Rightarrow> (Some BIN_ERR_IO, sb))"

primrec bin_push_fast :: "nat \<Rightarrow> StorageBackend \<Rightarrow> BinEntry \<Rightarrow> int option \<times> StorageBackend" where
  "bin_push_fast 0 sb e = (None, sb)"
| "bin_push_fast (Suc retry) sb e =
     (let tail = hdr_get sb HDR_OFF_BIN_TAIL in
      if tail = 0 then (None, sb)
      else
        let (count, sb) = read_bin_page_count sb tail in
        if count < 0 then (Some BIN_ERR_IO, sb)
        else if count \<ge> bin_page_capacity sb then (None, sb)
        else
          (case bin_claim sb tail count e of
             (None, sb) \<Rightarrow> bin_push_fast retry sb e
           | (Some rc, sb) \<Rightarrow> (Some rc, sb)))"

primrec bin_push_slow :: "nat \<Rightarrow> StorageBackend \<Rightarrow> BinEntry \<Rightarrow> (int \<times> StorageBackend) option" where
  "bin_push_slow 0 sb e = Some (BIN_ERR_AGAIN, sb)"
| "bin_push_slow (Suc retry) sb e =
     (let tail = hdr_get sb HDR_OFF_BIN_TAIL;
          (count, sb) = (if tail \<noteq> 0 then read_bin_page_count sb tail else (0, sb));
          count = (if count < 0 then 0 else count);
          finish = (\<lambda>tail count sb.
             case bin_claim sb tail count e of
               (None, sb) \<Rightarrow> bin_push_slow retry sb e
             | (Some rc, sb) \<Rightarrow> Some (rc, sb))
      in if tail = 0 \<or> count \<ge> bin_page_capacity sb
         then do {
           (new_tail, sb) \<leftarrow> alloc_bin_page sb;
           if new_tail < 0 then Some (BIN_ERR_FULL, sb)
           else
             let sb = init_bin_page sb new_tail;
                 sb = (if tail \<noteq> 0 then write_bin_page_next sb tail new_tail else sb);
                 sb = hdr_set sb HDR_OFF_BIN_TAIL new_tail;
                 sb = (if hdr_get sb HDR_OFF_BIN_HEAD = 0 then hdr_set sb HDR_OFF_BIN_HEAD new_tail else sb)
             in finish new_tail 0 sb }
         else finish tail count sb)"

definition bin_push :: "StorageBackend \<Rightarrow> int \<Rightarrow> int \<Rightarrow> int \<Rightarrow> (int \<times> StorageBackend) option" where
  "bin_push sb type context context2 =
     (let e = \<lparr>be_context = context, be_type = type, be_rsvd = 0, be_context2 = context2\<rparr> in
      case bin_push_fast BIN_PUSH_MAX_RETRIES sb e of
        (Some rc, sb) \<Rightarrow> Some (rc, sb)
      | (None, sb) \<Rightarrow> bin_push_slow BIN_PUSH_MAX_RETRIES sb e)"

section \<open>Pop and peek\<close>

primrec bin_pop_loop :: "nat \<Rightarrow> StorageBackend \<Rightarrow> (int \<times> BinEntry option \<times> StorageBackend) option" where
  "bin_pop_loop 0 sb = Some (BIN_ERR_EMPTY, None, sb)"
| "bin_pop_loop (Suc retry) sb =
     (let head = hdr_get sb HDR_OFF_BIN_HEAD in
      if hdr_get sb HDR_OFF_BIN_COUNT \<le> 0 \<or> head = 0 then Some (BIN_ERR_EMPTY, None, sb)
      else
        let (head_count, sb) = read_bin_page_count sb head in
        if head_count < 0 then Some (BIN_ERR_IO, None, sb)
        else if head_count = 0 then
          let (next, sb) = read_bin_page_next sb head in
          if hdr_get sb HDR_OFF_BIN_HEAD = head
          then do {
            sb \<leftarrow> storage_free (hdr_set sb HDR_OFF_BIN_HEAD next) head;
            bin_pop_loop retry sb }
          else bin_pop_loop retry sb
        else
          (case read_bin_page_entry sb head (head_count - 1) of
             (None, sb) \<Rightarrow> Some (BIN_ERR_IO, None, sb)
           | (Some e, sb) \<Rightarrow>
               (case storage_read_with_status sb head of
                  (Some b, STORAGE_OK, sb) \<Rightarrow>
                    if rd4i b 8 \<noteq> head_count then bin_pop_loop retry sb
                    else
                      let sb = cache_poke sb head (\<lambda>b. wr4i b 8 (head_count - 1));
                          sb = hdr_set sb HDR_OFF_BIN_COUNT (hdr_get sb HDR_OFF_BIN_COUNT - 1) in
                      if head_count = 1 then
                        let (next, sb) = read_bin_page_next sb head in
                        if hdr_get sb HDR_OFF_BIN_HEAD = head
                        then do {
                          let sb = hdr_set sb HDR_OFF_BIN_HEAD next;
                          let sb = (if hdr_get sb HDR_OFF_BIN_TAIL = head
                                    then hdr_set sb HDR_OFF_BIN_TAIL next else sb);
                          sb \<leftarrow> storage_free sb head;
                          Some (BIN_OK, Some e, sb) }
                        else Some (BIN_OK, Some e, sb)
                      else Some (BIN_OK, Some e, sb)
                | (_, _, sb) \<Rightarrow> Some (BIN_ERR_IO, Some e, sb))))"

definition bin_pop :: "StorageBackend \<Rightarrow> (int \<times> BinEntry option \<times> StorageBackend) option" where
  "bin_pop sb = bin_pop_loop BIN_PUSH_MAX_RETRIES sb"

definition bin_peek :: "StorageBackend \<Rightarrow> int \<times> BinEntry option \<times> StorageBackend" where
  "bin_peek sb =
     (let head = hdr_get sb HDR_OFF_BIN_HEAD in
      if hdr_get sb HDR_OFF_BIN_COUNT \<le> 0 \<or> head = 0 then (BIN_ERR_EMPTY, None, sb)
      else
        let (head_count, sb) = read_bin_page_count sb head in
        if head_count \<le> 0 then (BIN_ERR_EMPTY, None, sb)
        else
          (case read_bin_page_entry sb head (head_count - 1) of
             (None, sb) \<Rightarrow> (BIN_ERR_IO, None, sb)
           | (Some e, sb) \<Rightarrow> (BIN_OK, Some e, sb)))"

section \<open>Pages as lists of entries\<close>

definition bin_list :: "bytes \<Rightarrow> BinEntry list" where
  "bin_list b = map (\<lambda>i. bin_get b (int i)) [0..<nat (rd4i b 8)]"

lemma bin_list_length: "length (bin_list b) = nat (rd4i b 8)"
  by (simp add: bin_list_def)

definition bin_entry_ok :: "BinEntry \<Rightarrow> bool" where
  "bin_entry_ok e \<longleftrightarrow> i64 (be_context e) \<and> i32 (be_type e) \<and> be_rsvd e = 0 \<and> i64 (be_context2 e)"

text \<open>A Bin page in the cache with room for the entry \<open>k\<close>.\<close>

definition bin_page :: "StorageBackend \<Rightarrow> int \<Rightarrow> bytes \<Rightarrow> bool" where
  "bin_page sb p b \<longleftrightarrow> p \<noteq> 0 \<and> cached (sb_cache sb) p = Some b
     \<and> 0 \<le> rd4i b 8 \<and> rd4i b 8 \<le> bin_page_capacity sb"

lemma bin_put_laws:
  assumes i: "0 \<le> i" "16 + i * 24 + 24 \<le> int (length b)" and e: "bin_entry_ok e"
  shows "bin_get (bin_put b i e) i = e" "length (bin_put b i e) = length b"
    "rd4i (bin_put b i e) 8 = rd4i b 8" "rd8i (bin_put b i e) 0 = rd8i b 0"
    "\<And>j. 0 \<le> j \<Longrightarrow> j < i \<Longrightarrow> bin_get (bin_put b i e) j = bin_get b j"
proof -
  define n where "n = nat (16 + i * 24)"
  have n: "16 \<le> n" "n + 24 \<le> length b" using i by (simp_all add: n_def)
  have e': "i64 (be_context e)" "i32 (be_type e)" "be_rsvd e = 0" "i64 (be_context2 e)"
    using e by (simp_all add: bin_entry_ok_def)
  have put: "bin_put b i e = wr8i (wr4i (wr4i (wr8i b n (be_context e)) (n + 8) (be_type e)) (n + 12) (be_rsvd e))
      (n + 16) (be_context2 e)" by (simp add: bin_put_def n_def Let_def)
  show "bin_get (bin_put b i e) i = e"
    using n e' unfolding bin_get_def n_def [symmetric] Let_def
    by (intro BinEntry.equality) (simp_all add: put buf_simps)
  show "length (bin_put b i e) = length b" using n by (simp add: put)
  show "rd4i (bin_put b i e) 8 = rd4i b 8" "rd8i (bin_put b i e) 0 = rd8i b 0" using n by (simp_all add: put buf_simps)
  show "bin_get (bin_put b i e) j = bin_get b j" if "0 \<le> j" "j < i" for j
  proof -
    define m where "m = nat (16 + j * 24)"
    have "16 \<le> m" "m + 24 \<le> n" using that by (auto simp: m_def n_def)
    with n show ?thesis unfolding bin_get_def m_def [symmetric] Let_def by (simp add: put buf_simps)
  qed
qed

lemma bin_count_laws:
  assumes "128 \<le> length b" "0 \<le> k" "k < 2 ^ 31"
  shows "rd4i (wr4i b 8 k) 8 = k" "length (wr4i b 8 k) = length b" "rd8i (wr4i b 8 k) 0 = rd8i b 0"
    "0 \<le> j \<Longrightarrow> 16 + j * 24 + 24 \<le> int (length b) \<Longrightarrow> bin_get (wr4i b 8 k) j = bin_get b j"
proof -
  have "i32 k" using assms by (simp add: i32_def)
  then show "rd4i (wr4i b 8 k) 8 = k" "length (wr4i b 8 k) = length b" "rd8i (wr4i b 8 k) 0 = rd8i b 0"
    using assms by (simp_all add: buf_simps)
  assume j: "0 \<le> j" "16 + j * 24 + 24 \<le> int (length b)"
  define m where "m = nat (16 + j * 24)"
  have "16 \<le> m" "m + 24 \<le> length b" using j by (auto simp: m_def)
  then show "bin_get (wr4i b 8 k) j = bin_get b j"
    using assms unfolding bin_get_def m_def [symmetric] Let_def by (simp add: buf_simps)
qed

text \<open>Appending and dropping an entry, on the list view of a page.\<close>

lemma bin_list_append:
  assumes len: "128 \<le> length b" and k: "rd4i b 8 = k" "0 \<le> k" "16 + k * 24 + 24 \<le> int (length b)" "k + 1 < 2 ^ 31"
    and e: "bin_entry_ok e"
  shows "bin_list (bin_put (wr4i b 8 (k + 1)) k e) = bin_list b @ [e]"
    "length (bin_put (wr4i b 8 (k + 1)) k e) = length b"
    "rd8i (bin_put (wr4i b 8 (k + 1)) k e) 0 = rd8i b 0" "rd4i (bin_put (wr4i b 8 (k + 1)) k e) 8 = k + 1"
proof -
  let ?b = "wr4i b 8 (k + 1)"
  have c: "rd4i ?b 8 = k + 1" "length ?b = length b" "rd8i ?b 0 = rd8i b 0"
    using bin_count_laws [OF len, of "k + 1"] k by simp_all
  note p = bin_put_laws [OF k(2) _ e, of ?b]
  show "length (bin_put ?b k e) = length b" "rd8i (bin_put ?b k e) 0 = rd8i b 0" "rd4i (bin_put ?b k e) 8 = k + 1"
    using p c k by simp_all
  have get: "bin_get (bin_put ?b k e) (int i) = bin_get b (int i)" if "i < nat k" for i
  proof -
    have "int i < k" "16 + int i * 24 + 24 \<le> int (length b)" using that k by linarith+
    then show ?thesis using p(5) [of "int i"] bin_count_laws(4) [OF len, of "k + 1" "int i"] c(2) k by simp
  qed
  have "[0..<nat (k + 1)] = [0..<nat k] @ [nat k]" using k(2) by (simp add: nat_add_distrib)
  then show "bin_list (bin_put ?b k e) = bin_list b @ [e]"
    using p(1,3) c k get by (simp add: bin_list_def)
qed

lemma bin_list_drop:
  assumes len: "128 \<le> length b" and k: "rd4i b 8 = k" "0 < k" "16 + k * 24 \<le> int (length b)" "k < 2 ^ 31"
  shows "bin_list b = bin_list (wr4i b 8 (k - 1)) @ [bin_get b (k - 1)]"
proof -
  let ?b = "wr4i b 8 (k - 1)"
  have c: "rd4i ?b 8 = k - 1" using bin_count_laws [OF len, of "k - 1"] k by simp
  have get: "bin_get ?b (int i) = bin_get b (int i)" if "i < nat (k - 1)" for i
    using bin_count_laws(4) [OF len, of "k - 1" "int i"] that k by simp
  have "nat k = Suc (nat (k - 1))" using k(2) by simp
  then have "[0..<nat k] = [0..<nat (k - 1)] @ [nat (k - 1)]" by simp
  then show ?thesis using c k get by (simp add: bin_list_def)
qed

section \<open>Push and pop on a page with room\<close>

lemma capacity_bounds:
  assumes "k < bin_page_capacity sb" "page_size sb < 2 ^ 31"
  shows "16 + k * 24 + 24 \<le> int (page_size sb)" "0 \<le> k \<Longrightarrow> k + 1 < 2 ^ 31"
proof -
  show c: "16 + k * 24 + 24 \<le> int (page_size sb)" using assms(1) unfolding bin_page_capacity_def by presburger
  have "int (page_size sb) < 2 ^ 31" using assms(2) by simp
  with c show "0 \<le> k \<Longrightarrow> k + 1 < 2 ^ 31" by linarith
qed

lemma bin_claim_ok:
  assumes inv: "store_inv sb" and wf: "indir_wf sb" "page_size sb < 2 ^ 31"
    and b: "bin_page sb t b" "rd4i b 8 = k" "k < bin_page_capacity sb" and e: "bin_entry_ok e"
  shows "\<exists>c. bin_claim sb t k e = (Some BIN_OK, hdr_set (sb\<lparr>sb_cache := c\<rparr>) HDR_OFF_BIN_COUNT (hdr_get sb HDR_OFF_BIN_COUNT + 1))
    \<and> store_inv (sb\<lparr>sb_cache := c\<rparr>) \<and> cached c t = Some (bin_put (wr4i b 8 (k + 1)) k e)
    \<and> (\<forall>q. q \<noteq> t \<longrightarrow> cached c q = cached (sb_cache sb) q)"
proof -
  have bp: "cached (sb_cache sb) t = Some b" "0 \<le> k" using b by (simp_all add: bin_page_def)
  note cap = capacity_bounds [OF b(3) wf(2)]
  have ps: "128 \<le> page_size sb" using wf(1) by (simp add: indir_wf_def)
  have view: "page_view sb t = Some b" using bp by (simp add: page_view_def)
  obtain r st s1 where rd: "storage_read_with_status sb t = (r, st, s1)" by (metis prod_cases3)
  from storage_read_law [OF inv rd] view obtain c1 where
    c1: "s1 = sb\<lparr>sb_cache := c1\<rparr>" "r = Some b" "st = STORAGE_OK" "cached c1 t = Some b"
      "\<And>q. q \<noteq> t \<Longrightarrow> cached c1 q = cached (sb_cache sb) q" by auto
  have inv1: "store_inv (sb\<lparr>sb_cache := c1\<rparr>)" using sbs.rd_law [OF inv rd] c1(1) by simp
  let ?f = "\<lambda>b. wr4i b 8 (k + 1)" and ?g = "\<lambda>b. bin_put b k e"
  have f: "length (?f b) = length b" if "length b = page_size (sb\<lparr>sb_cache := c\<rparr>)" for b c using that ps by simp
  obtain c2 where c2: "cache_poke (sb\<lparr>sb_cache := c1\<rparr>) t ?f = sb\<lparr>sb_cache := c2\<rparr>" "store_inv (sb\<lparr>sb_cache := c2\<rparr>)"
      "cached c2 = (cached c1)(t \<mapsto> ?f b)"
    using poke_laws [where f = ?f and p = t, OF inv1 _ f] c1(4) by auto
  have g: "length (?g b) = length b" if "length b = page_size (sb\<lparr>sb_cache := c\<rparr>)" for b c
    using bin_put_laws(2) [OF bp(2) _ e] cap(1) that by simp
  obtain c3 where c3: "cache_poke (sb\<lparr>sb_cache := c2\<rparr>) t ?g = sb\<lparr>sb_cache := c3\<rparr>" "store_inv (sb\<lparr>sb_cache := c3\<rparr>)"
      "cached c3 = (cached c2)(t \<mapsto> ?g (?f b))"
    using poke_laws [where f = ?g and p = t, OF c2(2) _ g] c2(3) by auto
  let ?c = "cache_mark_dirty c3 t 1"
  have "store_inv (sb\<lparr>sb_cache := ?c\<rparr>)" using sbs.mark_law [OF c3(2), of t 1] by simp
  moreover have "cached ?c = cached c3" using c3(2) by (simp add: store_inv_def cache_wf_def)
  moreover have "e\<lparr>be_rsvd := 0\<rparr> = e" using e by (cases e) (simp add: bin_entry_ok_def)
  ultimately show ?thesis
    using rd c1 b(2) c2 c3 by (intro exI [of _ ?c]) (simp add: bin_claim_def Let_def)
qed

lemma push_fast_ok:
  assumes inv: "store_inv sb" and wf: "indir_wf sb" "page_size sb < 2 ^ 31"
    and t: "hdr_get sb HDR_OFF_BIN_TAIL = t" and b: "bin_page sb t b" "rd4i b 8 < bin_page_capacity sb"
    and e: "bin_entry_ok e"
  shows "\<exists>c. bin_push_fast (Suc n) sb e = (Some BIN_OK,
      hdr_set (sb\<lparr>sb_cache := c\<rparr>) HDR_OFF_BIN_COUNT (hdr_get sb HDR_OFF_BIN_COUNT + 1))
    \<and> store_inv (sb\<lparr>sb_cache := c\<rparr>) \<and> cached c t = Some (bin_put (wr4i b 8 (rd4i b 8 + 1)) (rd4i b 8) e)
    \<and> (\<forall>q. q \<noteq> t \<longrightarrow> cached c q = cached (sb_cache sb) q)"
proof -
  have bp: "t \<noteq> 0" "cached (sb_cache sb) t = Some b" "0 \<le> rd4i b 8" using b by (simp_all add: bin_page_def)
  then have view: "page_view sb t = Some b" by (simp add: page_view_def)
  from field_law [OF inv view, of "\<lambda>b. rd4i b 8" "-1"] obtain c1 where
    c1: "read_bin_page_count sb t = (rd4i b 8, sb\<lparr>sb_cache := c1\<rparr>)" "store_inv (sb\<lparr>sb_cache := c1\<rparr>)"
      "cached c1 t = Some b" "\<forall>q. q \<noteq> t \<longrightarrow> cached c1 q = cached (sb_cache sb) q"
    by (auto simp: read_bin_page_count_def)
  have cap: "bin_page_capacity (sb\<lparr>sb_cache := c1\<rparr>) = bin_page_capacity sb" by (simp add: bin_page_capacity_def)
  have "indir_wf (sb\<lparr>sb_cache := c1\<rparr>)" using wf by (simp add: indir_wf_def)
  from bin_claim_ok [OF c1(2) this, of t b "rd4i b 8" e] wf(2) b c1(3) e cap obtain c2 where
    "bin_claim (sb\<lparr>sb_cache := c1\<rparr>) t (rd4i b 8) e
       = (Some 0, hdr_set (sb\<lparr>sb_cache := c2\<rparr>) 80 (hdr_get sb 80 + 1))"
    "store_inv (sb\<lparr>sb_cache := c2\<rparr>)" "cached c2 t = Some (bin_put (wr4i b 8 (rd4i b 8 + 1)) (rd4i b 8) e)"
    "\<forall>q. q \<noteq> t \<longrightarrow> cached c2 q = cached c1 q" by (auto simp: bin_page_def)
  then show ?thesis
    using t bp c1 b(2) cap by (intro exI [of _ c2]) (simp add: Let_def)
qed

lemma table_inv_cong:
  assumes "table_inv sb" "indir_wf sb'" "page_size sb' = page_size sb" "total_pages sb' = total_pages sb"
    "physical_tail sb' = physical_tail sb" "length (overflow_pages sb') = length (overflow_pages sb)"
    "\<And>q. 0 \<le> q \<Longrightarrow> indir_lookup sb' q = indir_lookup sb q"
  shows "table_inv sb'"
proof -
  have sr: "sref sb' = sref sb" "total_entries sb' = total_entries sb" "phys_record_size sb' = phys_record_size sb"
    using assms(3,6) by (simp_all add: fun_eq_iff sref_def total_entries_def entries_per_overflow_def phys_record_size_def)
  have wf: "indir_wf sb" "2 \<le> total_pages sb" using assms(1) by (simp_all add: table_inv_def)
  have "records_ok sb'" using assms(1,5,7) sr(3) by (simp add: table_inv_def records_ok_def)
  moreover have "0 \<le> total_entries sb - 1" using self_ref_inside [OF wf(1)] by (simp add: in_table_def)
  ultimately show ?thesis
    using assms sr sref_less(1) [OF wf(1)] wf(2) by (auto simp: table_inv_def)
qed

lemma bin_push_slow_first:
  assumes inv: "store_inv sb" "table_inv sb" "page_size sb < 2 ^ 31"
    and empty: "hdr_get sb HDR_OFF_BIN_TAIL = 0" "hdr_get sb HDR_OFF_BIN_HEAD = 0"
    and room: "physical_tail sb + 2 * phys_record_size sb < 2 ^ 63" and e: "bin_entry_ok e"
  shows "\<exists>p sb' b. bin_push_slow (Suc n) sb e = Some (BIN_OK, sb') \<and> store_inv sb' \<and> table_inv sb'
    \<and> indir_lookup sb p = 0 \<and> physical_tail sb \<le> indir_lookup sb' p
    \<and> (\<forall>q \<ge> 0. indir_lookup sb q \<noteq> 0 \<longrightarrow> indir_lookup sb' q = indir_lookup sb q)
    \<and> bin_page sb' p b \<and> bin_list b = [e] \<and> rd8i b 0 = 0
    \<and> (p < 2 ^ 63 \<longrightarrow> hdr_get sb' HDR_OFF_BIN_HEAD = p \<and> hdr_get sb' HDR_OFF_BIN_TAIL = p)"
proof -
  have heap: "sb_heap sb = []" and ps: "128 \<le> page_size sb"
    using inv by (simp_all add: store_inv_def healthy_def table_inv_def indir_wf_def)
  from tail_advance_ok [OF inv(2) heap room] obtain p s1 where
    s1: "storage_allocate_tail_advance sb 1 = Some (p, s1)" "table_inv s1" "extends sb s1" "total_pages sb \<le> p"
      "indir_lookup sb p = 0" "physical_tail sb \<le> indir_lookup s1 p" by blast
  have p0: "2 \<le> p" using s1(4) inv(2) by (simp add: table_inv_def)
  have fields: "page_size s1 = page_size sb" "sb_heap s1 = []" "sb_cache s1 = sb_cache sb" "sb_io s1 = sb_io sb"
    using s1(3) heap by (simp_all add: extends_def)
  have inv1: "store_inv s1"
    by (rule store_inv_frame [OF inv(1)]) (use fields heap inv(1) in \<open>simp_all add: store_inv_def\<close>)
  let ?z = "zero_bytes (page_size sb)"
  have h1: "healthy s1" "cache_wf (sb_cache s1)" using inv1 by (simp_all add: store_inv_def)
  from cache_insert_healthy [OF h1, of p ?z 1 True] obtain c where
    c: "cache_insert s1 p ?z 1 True = s1\<lparr>sb_cache := c\<rparr>" "cached c = (cached (sb_cache s1))(p \<mapsto> ?z)" by blast
  have inv2: "store_inv (s1\<lparr>sb_cache := c\<rparr>)"
    using sbs.wr_law [OF inv1, of ?z p 1] c(1) fields by (simp add: storage_write_def)
  have view: "page_view (s1\<lparr>sb_cache := c\<rparr>) p = Some ?z" using c(2) by (simp add: page_view_cache)
  let ?i = "\<lambda>b. wr4i (wr4i (wr8i b 0 0) 8 0) 12 (bin_page_capacity (s1\<lparr>sb_cache := c\<rparr>))"
  from rmw_frame [where f = ?i and n = 1, OF inv2 view] ps fields obtain c2 where
    c2: "init_bin_page (s1\<lparr>sb_cache := c\<rparr>) p = s1\<lparr>sb_cache := c2\<rparr>" "store_inv (s1\<lparr>sb_cache := c2\<rparr>)"
      "cached c2 p = Some (?i ?z)"
    by (auto simp: init_bin_page_def)
  let ?b = "?i ?z"
  have b: "rd4i ?b 8 = 0" "rd8i ?b 0 = 0" "length ?b = page_size sb" using ps by (simp_all add: buf_simps)
  have wf2: "indir_wf (s1\<lparr>sb_cache := c2\<rparr>)" using s1(2) by (simp add: table_inv_def indir_wf_def)
  have hd: "hdr_get s1 64 = 0"
    using rd8_take [of 64 96 "header_buf s1"] rd8_take [of 64 96 "header_buf sb"] s1(3) empty(2) by (simp add: extends_def)
  define s3 where "s3 = hdr_set (hdr_set (s1\<lparr>sb_cache := c2\<rparr>) 72 p) 64 p"
  note h72 = hdr_set_laws [OF wf2, where off = 72 and v = p, simplified]
  note h64 = hdr_set_laws [OF h72(1), where off = 64 and v = p, simplified, folded s3_def]
  have s3: "sb_cache s3 = c2" "page_size s3 = page_size sb" by (simp_all add: s3_def fields)
  have inv3: "store_inv s3"
    by (rule store_inv_frame [OF c2(2)]) (use c2(2) in \<open>simp_all add: s3_def store_inv_def\<close>)
  have cap: "0 < bin_page_capacity s3" using ps s3(2) by (simp add: bin_page_capacity_def)
  from bin_claim_ok [OF inv3 h64(1), of p ?b 0 e] b(1) cap c2(3) s3 inv(3) p0 e obtain c4 where
    c4: "bin_claim s3 p 0 e = (Some 0, hdr_set (s3\<lparr>sb_cache := c4\<rparr>) 80 (hdr_get s3 80 + 1))"
      "store_inv (s3\<lparr>sb_cache := c4\<rparr>)" "cached c4 p = Some (bin_put (wr4i ?b 8 1) 0 e)"
    by (auto simp: bin_page_def)
  let ?r = "hdr_set (s3\<lparr>sb_cache := c4\<rparr>) 80 (hdr_get s3 80 + 1)" and ?b' = "bin_put (wr4i ?b 8 1) 0 e"
  have wf4: "indir_wf (s3\<lparr>sb_cache := c4\<rparr>)" using h64(1) by (simp add: indir_wf_def)
  note h80 = hdr_set_laws [OF wf4, where off = 80 and v = "hdr_get s3 80 + 1", simplified]
  have look: "indir_lookup ?r q = indir_lookup s1 q" if "0 \<le> q" for q
    using that h80(2) h64(2) h72(2) by simp
  have "table_inv ?r"
    by (rule table_inv_cong [OF s1(2) h80(1) _ _ _ _ look]) (simp_all add: s3_def hdr_set_def)
  moreover have "store_inv ?r" by (rule store_inv_frame [OF c4(2)]) (use c4(2) in \<open>simp_all add: store_inv_def\<close>)
  moreover have "bin_push_slow (Suc n) sb e = Some (0, ?r)"
    using empty(1) s1(1) p0 fields(1,2) c(1) c2(1) hd c4(1) h72(4) [of 64]
    by (simp add: Let_def alloc_bin_page_def malloc_def s3_def [symmetric])
  moreover have bl: "bin_list ?b' = [e]" "rd8i ?b' 0 = 0" "rd4i ?b' 8 = 1"
    using bin_list_append [of ?b 0 e] b ps e by (simp_all add: bin_list_def)
  moreover have "bin_page ?r p ?b'" using c4(3) bl(3) cap p0 by (simp add: bin_page_def bin_page_capacity_def)
  moreover have "hdr_get ?r 64 = p \<and> hdr_get ?r 72 = p" if "p < 2 ^ 63"
  proof -
    have "i64 p" using that p0 by (simp add: i64_def)
    then show ?thesis using h80(4) [of 64] h80(4) [of 72] h64(3) h64(4) [of 72] h72(3) by simp
  qed
  ultimately show ?thesis
    using s1(3,5,6) look p0 by (intro exI [of _ p] exI [of _ ?r] exI [of _ ?b']) (simp add: extends_def)
qed

section \<open>Properties\<close>

text \<open>C9: a push on a tail page with room appends the entry to the list of that page, keeps
  every other cached page, the head and tail pointers and all mappings, and adds one to the
  global count.\<close>

theorem bin_push_append:
  assumes inv: "store_inv sb" "indir_wf sb" "page_size sb < 2 ^ 31"
    and t: "hdr_get sb HDR_OFF_BIN_TAIL = t" "bin_page sb t b" "rd4i b 8 < bin_page_capacity sb"
    and n: "i64 (hdr_get sb HDR_OFF_BIN_COUNT + 1)" and e: "i32 ty" "i64 c1" "i64 c2"
  shows "\<exists>sb' b'. bin_push sb ty c1 c2 = Some (BIN_OK, sb') \<and> store_inv sb' \<and> indir_wf sb'
    \<and> bin_page sb' t b'
    \<and> bin_list b' = bin_list b @ [\<lparr>be_context = c1, be_type = ty, be_rsvd = 0, be_context2 = c2\<rparr>]
    \<and> (\<forall>q. q \<noteq> t \<longrightarrow> cached (sb_cache sb') q = cached (sb_cache sb) q)
    \<and> (\<forall>q \<ge> 0. indir_lookup sb' q = indir_lookup sb q)
    \<and> hdr_get sb' HDR_OFF_BIN_HEAD = hdr_get sb HDR_OFF_BIN_HEAD \<and> hdr_get sb' HDR_OFF_BIN_TAIL = t
    \<and> hdr_get sb' HDR_OFF_BIN_COUNT = hdr_get sb HDR_OFF_BIN_COUNT + 1"
proof -
  let ?e = "\<lparr>be_context = c1, be_type = ty, be_rsvd = 0, be_context2 = c2\<rparr>" and ?k = "rd4i b 8"
  let ?b = "bin_put (wr4i b 8 (?k + 1)) ?k ?e"
  have e': "bin_entry_ok ?e" using e by (simp add: bin_entry_ok_def)
  from push_fast_ok [OF inv t e', of 999] obtain c where
    c: "bin_push_fast 1000 sb ?e = (Some 0, hdr_set (sb\<lparr>sb_cache := c\<rparr>) 80 (hdr_get sb 80 + 1))"
      "store_inv (sb\<lparr>sb_cache := c\<rparr>)" "cached c t = Some ?b" "\<forall>q. q \<noteq> t \<longrightarrow> cached c q = cached (sb_cache sb) q"
    by auto
  let ?s = "hdr_set (sb\<lparr>sb_cache := c\<rparr>) 80 (hdr_get sb 80 + 1)"
  have bp: "cached (sb_cache sb) t = Some b" "t \<noteq> 0" "0 \<le> ?k" using t(2) by (simp_all add: bin_page_def)
  have len: "length b = page_size sb" "128 \<le> page_size sb"
    using page_view_length [OF inv(1), of t b] bp inv(2) by (simp_all add: page_view_def indir_wf_def)
  note cap = capacity_bounds [OF t(3) inv(3)]
  note bl = bin_list_append [of b ?k ?e, OF _ refl bp(3)]
  have wf: "indir_wf (sb\<lparr>sb_cache := c\<rparr>)" using inv(2) by (simp add: indir_wf_def)
  note hs = hdr_set_laws [OF wf, where off = 80 and v = "hdr_get sb 80 + 1", simplified]
  have "bin_push sb ty c1 c2 = Some (0, ?s)" by (simp add: bin_push_def c(1))
  moreover have "store_inv ?s" by (rule store_inv_frame [OF c(2)]) (use c(2) in \<open>simp_all add: store_inv_def\<close>)
  moreover have "bin_page ?s t ?b"
    using c(3) bp bl(4) len cap e' t(3) by (simp add: bin_page_def bin_page_capacity_def)
  ultimately show ?thesis
    using hs(1,2) hs(3) hs(4) [of 64] hs(4) [of 72] n t(1) c(4) bl(1) len cap e' bp(3)
    by (intro exI [of _ ?s] exI [of _ ?b]) simp
qed


text \<open>C11: the first push on an empty Bin returns with success: it allocates a page that was
  unmapped, at a record beyond the old data area, makes it head and tail, and the page lists exactly
  the pushed entry; no mapped page moves and the table invariant is kept.\<close>

theorem bin_push_first:
  assumes "store_inv sb" "table_inv sb" "page_size sb < 2 ^ 31"
    and "hdr_get sb HDR_OFF_BIN_TAIL = 0" "hdr_get sb HDR_OFF_BIN_HEAD = 0"
    and "physical_tail sb + 2 * phys_record_size sb < 2 ^ 63" and "i32 ty" "i64 c1" "i64 c2"
  shows "\<exists>p sb' b. bin_push sb ty c1 c2 = Some (BIN_OK, sb') \<and> store_inv sb' \<and> table_inv sb'
    \<and> indir_lookup sb p = 0 \<and> physical_tail sb \<le> indir_lookup sb' p
    \<and> (\<forall>q \<ge> 0. indir_lookup sb q \<noteq> 0 \<longrightarrow> indir_lookup sb' q = indir_lookup sb q)
    \<and> bin_page sb' p b
    \<and> bin_list b = [\<lparr>be_context = c1, be_type = ty, be_rsvd = 0, be_context2 = c2\<rparr>]
    \<and> (p < 2 ^ 63 \<longrightarrow> hdr_get sb' HDR_OFF_BIN_HEAD = p \<and> hdr_get sb' HDR_OFF_BIN_TAIL = p)"
proof -
  let ?e = "\<lparr>be_context = c1, be_type = ty, be_rsvd = 0, be_context2 = c2\<rparr>"
  have e: "bin_entry_ok ?e" using assms(7-9) by (simp add: bin_entry_ok_def)
  have "bin_push_fast (Suc n) sb ?e = (None, sb)" for n using assms(4) by simp
  from this [of 999] have f: "bin_push_fast 1000 sb ?e = (None, sb)" by simp
  obtain p sb' b where r: "bin_push_slow (Suc 999) sb ?e = Some (0, sb')" "store_inv sb'" "table_inv sb'"
     "indir_lookup sb p = 0" "physical_tail sb \<le> indir_lookup sb' p"
     "\<forall>q \<ge> 0. indir_lookup sb q \<noteq> 0 \<longrightarrow> indir_lookup sb' q = indir_lookup sb q"
     "bin_page sb' p b" "bin_list b = [?e]" "p < 2 ^ 63 \<longrightarrow> hdr_get sb' 64 = p \<and> hdr_get sb' 72 = p"
    using bin_push_slow_first [OF assms(1-6) e, of 999] by blast
  have "bin_push_slow 1000 sb ?e = Some (0, sb')" using r(1) by (simp only: eval_nat_numeral BitM.simps)
  then have "bin_push sb ty c1 c2 = Some (0, sb')" by (simp add: bin_push_def f)
  with r(2-) show ?thesis by blast
qed

theorem bin_push_first_witness:
  "\<exists>p sb' b. bin_push demo_sb 1 40 50 = Some (BIN_OK, sb') \<and> bin_page sb' p b
     \<and> bin_list b = [\<lparr>be_context = 40, be_type = 1, be_rsvd = 0, be_context2 = 50\<rparr>]"
proof -
  have "page_size demo_sb < 2 ^ 31" "hdr_get demo_sb HDR_OFF_BIN_TAIL = 0" "hdr_get demo_sb HDR_OFF_BIN_HEAD = 0"
    "physical_tail demo_sb + 2 * phys_record_size demo_sb < 2 ^ 63" "i32 1" "i64 40" "i64 50"
    by (simp_all add: demo_sb_def phys_record_size_def buf_simps i32_def i64_def)
  from bin_push_first [OF demo_store_inv demo_table_inv this] show ?thesis by blast
qed

text \<open>A store whose Bin has one page, page 1, with two entries.\<close>

definition demo_bin_page :: bytes where
  "demo_bin_page =
     (let e = (\<lambda>i. \<lparr>be_context = i, be_type = 1, be_rsvd = 0, be_context2 = 0\<rparr>)
      in bin_put (wr4i (bin_put (wr4i (zero_bytes 128) 8 1) 0 (e 7)) 8 2) 1 (e 9))"

definition demo_bin_sb :: StorageBackend where
  "demo_bin_sb = hdr_set (hdr_set (hdr_set (storage_write demo_sb 1 demo_bin_page FLUSH_PRIO_POOL)
     HDR_OFF_BIN_HEAD 1) HDR_OFF_BIN_TAIL 1) HDR_OFF_BIN_COUNT 2"

lemma demo_bin_page:
  "bin_list demo_bin_page = [\<lparr>be_context = 7, be_type = 1, be_rsvd = 0, be_context2 = 0\<rparr>]
     @ [\<lparr>be_context = 9, be_type = 1, be_rsvd = 0, be_context2 = 0\<rparr>]"
  "length demo_bin_page = 128" "rd4i demo_bin_page 8 = 2"
proof -
  let ?e = "\<lambda>i. \<lparr>be_context = i, be_type = 1, be_rsvd = 0, be_context2 = 0\<rparr>"
  have ok: "bin_entry_ok (?e 7)" "bin_entry_ok (?e 9)" by (simp_all add: bin_entry_ok_def i64_def i32_def)
  have z: "rd4i (zero_bytes 128) 8 = 0" "bin_list (zero_bytes 128) = []" by (simp_all add: bin_list_def)
  let ?b = "bin_put (wr4i (zero_bytes 128) 8 1) 0 (?e 7)"
  have b: "bin_list ?b = [?e 7]" "length ?b = 128" "rd4i ?b 8 = 1"
    using bin_list_append [of "zero_bytes 128" 0 "?e 7"] ok z by simp_all
  show "bin_list demo_bin_page = [?e 7] @ [?e 9]" "length demo_bin_page = 128" "rd4i demo_bin_page 8 = 2"
    using bin_list_append [of ?b 1 "?e 9"] ok b by (simp_all add: demo_bin_page_def)
qed

lemma demo_bin_sb:
  shows "store_inv demo_bin_sb" "indir_wf demo_bin_sb" "page_size demo_bin_sb = 128"
    "hdr_get demo_bin_sb HDR_OFF_BIN_HEAD = 1" "hdr_get demo_bin_sb HDR_OFF_BIN_TAIL = 1"
    "hdr_get demo_bin_sb HDR_OFF_BIN_COUNT = 2" "bin_page demo_bin_sb 1 demo_bin_page"
proof -
  obtain c where c: "storage_write demo_sb 1 demo_bin_page 1 = demo_sb\<lparr>sb_cache := c\<rparr>" "cache_wf c"
      "cached c = (cached (sb_cache demo_sb))(1 \<mapsto> demo_bin_page)"
    using cache_insert_healthy [OF demo_wf(2,3), of 1 demo_bin_page 1 True] by (auto simp: storage_write_def)
  have inv: "store_inv (demo_sb\<lparr>sb_cache := c\<rparr>)"
    using sbs.wr_law [OF demo_store_inv, of demo_bin_page 1 1] c(1) demo_bin_page(2) by (simp add: demo_sb_def)
  have wf: "indir_wf (demo_sb\<lparr>sb_cache := c\<rparr>)" using demo_wf(1) by (simp add: indir_wf_def)
  have eq: "demo_bin_sb = hdr_set (hdr_set (hdr_set (demo_sb\<lparr>sb_cache := c\<rparr>) 64 1) 72 1) 80 2"
    by (simp only: demo_bin_sb_def c(1))
  note h64 = hdr_set_laws [OF wf, where off = 64 and v = 1, simplified]
  note h72 = hdr_set_laws [OF h64(1), where off = 72 and v = 1, simplified]
  note h80 = hdr_set_laws [OF h72(1), where off = 80 and v = 2, simplified]
  have i: "i64 1" "i64 2" by (simp_all add: i64_def)
  show "store_inv demo_bin_sb" unfolding eq by (rule store_inv_frame [OF inv]) (use c(2) in simp_all)
  show "indir_wf demo_bin_sb" unfolding eq by (rule h80(1))
  show ps: "page_size demo_bin_sb = 128" unfolding eq by (simp add: demo_sb_def)
  show "hdr_get demo_bin_sb 64 = 1" "hdr_get demo_bin_sb 72 = 1" "hdr_get demo_bin_sb 80 = 2"
    unfolding eq using h80(4) [of 64] h80(4) [of 72] h80(3) h72(4) [of 64] h72(3) h64(3) i by simp_all
  have "cached (sb_cache demo_bin_sb) 1 = Some demo_bin_page" unfolding eq using c(3) by simp
  then show "bin_page demo_bin_sb 1 demo_bin_page" using ps by (simp add: bin_page_def demo_bin_page(3) bin_page_capacity_def)
qed

theorem bin_push_append_witness:
  "\<exists>sb' b'. bin_push demo_bin_sb 1 40 50 = Some (BIN_OK, sb') \<and> bin_page sb' 1 b' \<and> length (bin_list b') = 3"
proof -
  have "rd4i demo_bin_page 8 < bin_page_capacity demo_bin_sb" "i64 (hdr_get demo_bin_sb HDR_OFF_BIN_COUNT + 1)"
    "page_size demo_bin_sb < 2 ^ 31" "i32 1" "i64 40" "i64 50"
    using demo_bin_sb(3,6) by (simp_all add: demo_bin_page(3) bin_page_capacity_def i64_def i32_def)
  from bin_push_append [OF demo_bin_sb(1,2) this(3) demo_bin_sb(5,7) this(1,2,4,5,6)] obtain sb' b' where
    "bin_push demo_bin_sb 1 40 50 = Some (BIN_OK, sb')" "bin_page sb' 1 b'"
    "bin_list b' = bin_list demo_bin_page @ [\<lparr>be_context = 40, be_type = 1, be_rsvd = 0, be_context2 = 50\<rparr>]" by blast
  then show ?thesis by (intro exI [of _ sb'] exI [of _ b']) (simp add: demo_bin_page(1))
qed


end
