(* ===== verification/Mirror.thy ===== *)
theory Mirror
  imports Bin
begin

text \<open>
  Writing pages to the file: \<^verbatim>\<open>mirror_write\<close> of \<^verbatim>\<open>src/lazy_mirror.c\<close>, the cache flush of
  \<^verbatim>\<open>src/page_cache.c\<close> and \<^verbatim>\<open>storage_flush\<close> of \<^verbatim>\<open>src/storage.c\<close>.

  The payload argument of \<^verbatim>\<open>mirror_write\<close> is a pointer into the cache or into an overflow
  buffer, and the call allocates a mirror page before it copies the payload out.
  It is therefore a function of the state: the checksum is taken of its value at
  entry, the record is written with its value at the time of the write.

  The lemmas show that a completed write is what the next read returns, and that a
  write interrupted at any byte leaves the page with its old or its new content.
\<close>

section \<open>Writing one page\<close>

definition write_page_record :: "StorageBackend \<Rightarrow> int \<Rightarrow> PageHeader \<Rightarrow> bytes \<Rightarrow> bool \<times> StorageBackend" where
  "write_page_record sb off ph payload =
     (let (n, sb) = pwrite sb (ph_bytes ph) off in
      if n \<noteq> PAGE_HEADER_SIZE then (False, sb)
      else let (n, sb) = pwrite sb payload (off + int PAGE_HEADER_SIZE)
           in (n = page_size sb, sb))"

abbreviation (input) BIN_TRIGGER_NOOP :: int where "BIN_TRIGGER_NOOP \<equiv> 0"

text \<open>The three failure paths after a sibling was allocated.\<close>

definition abandon_sibling :: "StorageBackend \<Rightarrow> int \<Rightarrow> (bool \<times> StorageBackend) option" where
  "abandon_sibling sb sibling = do {
     sb \<leftarrow> storage_free sb sibling;
     (_, sb) \<leftarrow> bin_push sb BIN_TRIGGER_NOOP sibling 0;
     Some (False, sb) }"

definition mirror_write ::
  "StorageBackend \<Rightarrow> int \<Rightarrow> (StorageBackend \<Rightarrow> bytes) \<Rightarrow> u32 \<Rightarrow> (bool \<times> StorageBackend) option" where
  "mirror_write sb p payload flags =
     (let off = physical_offset sb p in
      if off < 0 then Some (False, sb)
      else
        let crc = page_crc (payload sb);
            (hdr, sb) = read_page_header sb off;
            ph = (case hdr of Some ph \<Rightarrow> ph
                  | None \<Rightarrow> \<lparr>ph_flags = 0, ph_checksum = 0, ph_generation = 0, ph_mirror_page = -1\<rparr>) in
        if ph_generation ph = 0
        then Some (write_page_record sb off
               \<lparr>ph_flags = flags, ph_checksum = crc, ph_generation = 1, ph_mirror_page = -1\<rparr> (payload sb))
        else if ph_mirror_page ph = -1
        then do {
          (sibling, sb) \<leftarrow> storage_allocate sb 1;
          if sibling < 0 then Some (False, sb)
          else
            let sib_off = indir_lookup sb sibling in
            if sib_off = 0 then abandon_sibling sb sibling
            else
              let (ok, sb) = write_page_record sb sib_off
                    \<lparr>ph_flags = flags, ph_checksum = crc, ph_generation = ph_generation ph + 1,
                     ph_mirror_page = word_of_int p\<rparr> (payload sb) in
              if \<not> ok then abandon_sibling sb sibling
              else
                let (n, sb) = pwrite sb (le_bytes 4 (word_of_int sibling :: u32)) (off + 12) in
                if n \<noteq> 4 then abandon_sibling sb sibling else Some (True, sb) }
        else
          let sib_off = indir_lookup sb (sint (ph_mirror_page ph)) in
          if sib_off = 0 then Some (False, sb)
          else
            let (hdr, sb) = read_page_header sb sib_off in
            case hdr of None \<Rightarrow> Some (False, sb)
            | Some ph_sib \<Rightarrow>
                let (t_off, t_ph) = (if ph_generation ph \<le> ph_generation ph_sib then (off, ph) else (sib_off, ph_sib));
                    new_gen = (if ph_generation ph > ph_generation ph_sib then ph_generation ph
                               else ph_generation ph_sib) + 1
                in Some (write_page_record sb t_off
                     (t_ph\<lparr>ph_flags := flags, ph_checksum := crc, ph_generation := new_gen\<rparr>) (payload sb)))"

section \<open>Flushing the cache (page\_cache.c)\<close>

text \<open>The payload pointer of a cache entry; \<open>b\<close> is what it points to if the entry is gone.\<close>

definition entry_payload :: "int \<Rightarrow> bytes \<Rightarrow> StorageBackend \<Rightarrow> bytes" where
  "entry_payload p b sb = (case cached (sb_cache sb) p of Some b' \<Rightarrow> b' | None \<Rightarrow> b)"

definition cache_mark_clean :: "PageCache \<Rightarrow> int \<Rightarrow> PageCache" where
  "cache_mark_clean c p =
     (case cache_peek c p of
        None \<Rightarrow> c
      | Some e \<Rightarrow> if ce_dirty e
          then (cache_modify c p (\<lambda>e. e\<lparr>ce_dirty := False\<rparr>))\<lparr>dirty_count := dirty_count c - 1\<rparr>
          else c)"

definition flush_entry :: "StorageBackend \<Rightarrow> int \<Rightarrow> CacheEntry \<Rightarrow> StorageBackend option" where
  "flush_entry sb p e = do {
     (ok, sb) \<leftarrow> mirror_write sb p (entry_payload p (ce_payload e)) (of_nat (ce_priority e));
     Some (if ok then sb\<lparr>sb_cache := cache_mark_clean (sb_cache sb) p\<rparr> else sb) }"

definition cache_flush_page :: "StorageBackend \<Rightarrow> int \<Rightarrow> StorageBackend option" where
  "cache_flush_page sb p =
     (let (ce, c) = cache_find (sb_cache sb) p;
          sb = sb\<lparr>sb_cache := c\<rparr> in
      case ce of None \<Rightarrow> Some sb
      | Some e \<Rightarrow>
          if \<not> ce_dirty e \<or> indir_lookup sb p = 0 then Some sb else flush_entry sb p e)"

definition flushable :: "StorageBackend \<Rightarrow> nat \<Rightarrow> CacheEntry \<Rightarrow> bool" where
  "flushable sb prio e \<longleftrightarrow> ce_dirty e \<and> ce_priority e = prio \<and> indir_lookup sb (ce_page e) \<noteq> 0"

fun collect_pages :: "nat \<Rightarrow> nat \<Rightarrow> CacheEntry list \<Rightarrow> StorageBackend \<Rightarrow> int list \<times> StorageBackend" where
  "collect_pages cap n [] sb = ([], sb)"
| "collect_pages cap n (e # es) sb =
     (let (ok, sb') = (if n \<ge> cap then malloc sb else (True, sb)) in
      if \<not> ok then ([], sb')
      else let (ps, sb'') = collect_pages (if n \<ge> cap then 2 * cap else cap) (n + 1) es sb'
           in (ce_page e # ps, sb''))"

primrec flush_collected :: "nat \<Rightarrow> int list \<Rightarrow> StorageBackend \<Rightarrow> StorageBackend option" where
  "flush_collected prio [] sb = Some sb"
| "flush_collected prio (p # ps) sb =
     (let (ce, c) = cache_find (sb_cache sb) p;
          sb = sb\<lparr>sb_cache := c\<rparr> in
      case ce of None \<Rightarrow> flush_collected prio ps sb
      | Some e \<Rightarrow>
          if \<not> ce_dirty e \<or> ce_priority e \<noteq> prio then flush_collected prio ps sb
          else do { sb \<leftarrow> flush_entry sb p e; flush_collected prio ps sb })"

text \<open>The fallback when the list cannot be allocated: walk each chain in place.\<close>

primrec flush_chain :: "nat \<Rightarrow> CacheEntry list \<Rightarrow> StorageBackend \<Rightarrow> StorageBackend option" where
  "flush_chain prio [] sb = Some sb"
| "flush_chain prio (e # es) sb =
     (if flushable sb prio e then do { sb \<leftarrow> flush_entry sb (ce_page e) e; flush_chain prio es sb }
      else flush_chain prio es sb)"

primrec flush_buckets :: "nat \<Rightarrow> nat list \<Rightarrow> StorageBackend \<Rightarrow> StorageBackend option" where
  "flush_buckets prio [] sb = Some sb"
| "flush_buckets prio (i # is) sb = do {
     sb \<leftarrow> flush_chain prio (buckets (sb_cache sb) ! i) sb;
     flush_buckets prio is sb }"

definition flush_prio :: "nat \<Rightarrow> StorageBackend \<Rightarrow> StorageBackend option" where
  "flush_prio prio sb =
     (let (ok, sb) = malloc sb in
      if \<not> ok then flush_buckets prio [0..<length (buckets (sb_cache sb))] sb
      else let (ps, sb) = collect_pages 1024 0 (filter (flushable sb prio) (concat (buckets (sb_cache sb)))) sb
           in flush_collected prio ps sb)"

definition cache_flush_all :: "StorageBackend \<Rightarrow> StorageBackend option" where
  "cache_flush_all sb = do {
     sb \<leftarrow> flush_prio 0 sb; sb \<leftarrow> flush_prio 1 sb; sb \<leftarrow> flush_prio 2 sb; flush_prio 3 sb }"

definition cache_evict_all :: "StorageBackend \<Rightarrow> StorageBackend option" where
  "cache_evict_all sb = do {
     sb \<leftarrow> cache_flush_all sb;
     Some (sb\<lparr>sb_cache := (sb_cache sb)\<lparr>buckets := map (\<lambda>_. []) (buckets (sb_cache sb)), entry_count := 0\<rparr>\<rparr>) }"

section \<open>Flushing the store (storage.c)\<close>

primrec flush_overflow :: "nat list \<Rightarrow> StorageBackend \<Rightarrow> StorageBackend option" where
  "flush_overflow [] sb = Some sb"
| "flush_overflow (i # is) sb =
     (let l = overflow_logical sb ! i in
      if l > 0
      then do {
        (_, sb) \<leftarrow> mirror_write sb l (\<lambda>s. overflow_pages s ! i) (of_nat FLUSH_PRIO_INDIR);
        flush_overflow is sb }
      else flush_overflow is sb)"

definition flush_header :: "StorageBackend \<Rightarrow> StorageBackend" where
  "flush_header sb =
     (let sb = hdr_set sb HDR_OFF_TOTAL_PAGES (total_pages sb);
          sb = hdr_set sb HDR_OFF_PHYS_TAIL (physical_tail sb);
          sb = hdr_set sb HDR_OFF_INDIR_HEAD (indirection_head sb);
          crc = page_crc (header_buf sb);
          (hdr, sb) = read_page_header sb 0 in
      case hdr of None \<Rightarrow> sb
      | Some ph \<Rightarrow>
          let ph = ph\<lparr>ph_flags := XVFS_MAGIC, ph_checksum := crc, ph_generation := ph_generation ph + 1\<rparr>;
              (_, sb) = pwrite sb (ph_bytes ph) 0;
              (_, sb) = pwrite sb (header_buf sb) (int PAGE_HEADER_SIZE)
          in sb)"

definition storage_flush :: "StorageBackend \<Rightarrow> int \<Rightarrow> StorageBackend option" where
  "storage_flush sb p =
     (if p < 0 then do {
        sb \<leftarrow> cache_flush_all sb;
        sb \<leftarrow> flush_overflow [0..<length (overflow_pages sb)] sb;
        Some (flush_header sb) }
      else cache_flush_page sb p)"

definition storage_flush_cache_only :: "StorageBackend \<Rightarrow> StorageBackend option" where
  "storage_flush_cache_only sb = cache_flush_all sb"

section \<open>Records on the file\<close>

definition record_in :: "bytes \<Rightarrow> nat \<Rightarrow> int \<Rightarrow> bool" where
  "record_in f ps off \<longleftrightarrow> 0 \<le> off \<and> off + 16 + int ps \<le> int (length f)"

definition apart :: "nat \<Rightarrow> int \<Rightarrow> int \<Rightarrow> bool" where
  "apart ps a b \<longleftrightarrow> a + 16 + int ps \<le> b \<or> b + 16 + int ps \<le> a"

lemma chunk_file_write_prefix:
  assumes "off + n \<le> length f" "length d \<le> n"
  shows "chunk (file_write f off d) off n = d @ drop (length d) (chunk f off n)"
proof (rule nth_equalityI)
  show len: "length (chunk (file_write f off d) off n) = length (d @ drop (length d) (chunk f off n))"
    using assms by (simp add: length_file_write)
  fix i assume "i < length (chunk (file_write f off d) off n)"
  then have i: "i < n" "off + i < length f" using assms by (auto simp: length_file_write split: if_splits)
  show "chunk (file_write f off d) off n ! i = (d @ drop (length d) (chunk f off n)) ! i"
    using assms i by (cases "d = []") (auto simp: file_write_def chunk_def nth_blit nth_append)
qed

lemma drop_min_len: "length xs \<le> n \<Longrightarrow> drop (min n k) xs = drop k xs"
  by (auto simp: min_def)

lemma rec_header_eq: "record_in f ps off \<Longrightarrow> rec_header f off = Some (ph_parse (chunk f (nat off) 16))"
  by (auto simp: record_in_def rec_header_def)

lemma rec_payload_eq: "record_in f ps off \<Longrightarrow> rec_payload f ps off = chunk f (nat off + 16) ps"
  by (auto simp: record_in_def rec_payload_def nat_add_distrib)

lemma record_in_length: "record_in f ps off \<Longrightarrow> length f \<le> length f' \<Longrightarrow> record_in f' ps off"
  by (auto simp: record_in_def)

lemma record_payload_length: "record_in f ps off \<Longrightarrow> length (rec_payload f ps off) = ps"
  by (auto simp: rec_payload_eq record_in_def)

text \<open>A record whose two writes stop after \<open>k1\<close> bytes of the header and \<open>k2\<close> of the payload.\<close>

definition torn_record :: "bytes \<Rightarrow> int \<Rightarrow> bytes \<Rightarrow> bytes \<Rightarrow> nat \<Rightarrow> nat \<Rightarrow> bytes" where
  "torn_record f off hb pb k1 k2 =
     file_write (file_write f (nat off) (take k1 hb)) (nat off + 16) (take k2 pb)"

lemma length_torn: "length f \<le> length (torn_record f off hb pb k1 k2)"
  by (auto simp: torn_record_def length_file_write)

lemma torn_same:
  assumes r: "record_in f ps off" and l: "length hb = 16" "length pb = ps"
  shows "chunk (torn_record f off hb pb k1 k2) (nat off) 16 = take k1 hb @ drop k1 (chunk f (nat off) 16)"
    and "chunk (torn_record f off hb pb k1 k2) (nat off + 16) ps = take k2 pb @ drop k2 (chunk f (nat off + 16) ps)"
proof -
  let ?f1 = "file_write f (nat off) (take k1 hb)"
  have b: "nat off + 16 + ps \<le> length f" using r by (auto simp: record_in_def)
  have l1: "length f \<le> length ?f1" by (auto simp: length_file_write)
  have "chunk (torn_record f off hb pb k1 k2) (nat off) 16 = chunk ?f1 (nat off) 16"
    unfolding torn_record_def by (rule chunk_file_write_disjoint) (use b l1 in auto)
  also have "\<dots> = take k1 hb @ drop k1 (chunk f (nat off) 16)"
    using chunk_file_write_prefix [of "nat off" 16 f "take k1 hb"] b l by (simp add: drop_min_len)
  finally show "chunk (torn_record f off hb pb k1 k2) (nat off) 16 = take k1 hb @ drop k1 (chunk f (nat off) 16)" .
  have "chunk ?f1 (nat off + 16) ps = chunk f (nat off + 16) ps"
    by (rule chunk_file_write_disjoint) (use b l in auto)
  then show "chunk (torn_record f off hb pb k1 k2) (nat off + 16) ps = take k2 pb @ drop k2 (chunk f (nat off + 16) ps)"
    unfolding torn_record_def using chunk_file_write_prefix [of "nat off + 16" ps ?f1 "take k2 pb"] b l l1
    by (simp add: drop_min_len)
qed

lemma torn_apart:
  assumes r: "0 \<le> off" "record_in f ps o2" and ap: "apart ps off o2"
    and l: "length hb = 16" "length pb = ps"
  shows "rec_header (torn_record f off hb pb k1 k2) o2 = rec_header f o2"
    and "rec_payload (torn_record f off hb pb k1 k2) ps o2 = rec_payload f ps o2"
proof -
  let ?f1 = "file_write f (nat off) (take k1 hb)" and ?f = "torn_record f off hb pb k1 k2"
  have b: "nat o2 + 16 + ps \<le> length f" using r by (auto simp: record_in_def)
  have l1: "length f \<le> length ?f1" by (auto simp: length_file_write)
  have d: "nat off + 16 + ps \<le> nat o2 \<or> nat o2 + 16 + ps \<le> nat off"
    using ap r by (auto simp: apart_def record_in_def)
  have frame: "chunk ?f x n = chunk f x n" if "nat o2 \<le> x" "x + n \<le> nat o2 + 16 + ps" for x n
  proof -
    have "chunk ?f x n = chunk ?f1 x n"
      unfolding torn_record_def by (rule chunk_file_write_disjoint) (use b d l l1 that in auto)
    also have "\<dots> = chunk f x n" by (rule chunk_file_write_disjoint) (use b d l that in auto)
    finally show ?thesis .
  qed
  have r2: "record_in ?f ps o2" by (rule record_in_length [OF r(2) length_torn])
  show "rec_header ?f o2 = rec_header f o2"
    using frame [of "nat o2" 16] by (simp add: rec_header_eq [OF r2] rec_header_eq [OF r(2)])
  show "rec_payload ?f ps o2 = rec_payload f ps o2"
    using frame [of "nat o2 + 16" ps] by (simp add: rec_payload_eq [OF r2] rec_payload_eq [OF r(2)])
qed

lemma io_limit_take: "\<exists>k. io_limit sb d = take k d"
  by (auto simp: io_limit_def split: list.split option.split intro: exI [of _ "length d"])

lemma write_record_torn:
  assumes "0 \<le> off" "length payload = page_size sb" "write_page_record sb off ph payload = (ok, sb')"
  shows "\<exists>k1 k2. sb' = sb\<lparr>sb_file := torn_record (sb_file sb) off (ph_bytes ph) payload k1 k2, sb_io := sb_io sb'\<rparr>
    \<and> (k1 < 16 \<longrightarrow> k2 = 0) \<and> (ok \<longleftrightarrow> 16 \<le> k1 \<and> page_size sb \<le> k2)"
proof -
  obtain k1 where k1: "io_limit sb (ph_bytes ph) = take k1 (ph_bytes ph)" using io_limit_take by blast
  let ?s1 = "sb\<lparr>sb_file := file_write (sb_file sb) (nat off) (take k1 (ph_bytes ph)), sb_io := tl (sb_io sb)\<rparr>"
  have w1: "pwrite sb (ph_bytes ph) off = (min 16 k1, ?s1)" using assms(1) k1 by (simp add: pwrite_def Let_def)
  obtain k2 where k2: "io_limit ?s1 payload = take k2 payload" using io_limit_take by blast
  show ?thesis
  proof (cases "16 \<le> k1")
    case False
    with assms(3) w1 have "ok = False" "sb' = ?s1" by (auto simp: write_page_record_def)
    with False show ?thesis
      by (intro exI [of _ k1] exI [of _ 0]) (simp add: torn_record_def, simp add: file_write_def)
  next
    case True
    have "pwrite ?s1 payload (off + 16)
        = (min (page_size sb) k2, ?s1\<lparr>sb_file := torn_record (sb_file sb) off (ph_bytes ph) payload k1 k2, sb_io := tl (tl (sb_io sb))\<rparr>)"
      using assms(1,2) k2 by (simp add: pwrite_def Let_def torn_record_def nat_add_distrib)
    with assms(3) w1 True show ?thesis
      by (intro exI [of _ k1] exI [of _ k2]) (auto simp: write_page_record_def min_def split: if_splits)
  qed
qed

subsection \<open>Torn headers\<close>

lemma mix_chunk:
  assumes "length a = length b"
  shows "k \<le> off \<Longrightarrow> chunk (take k a @ drop k b) off n = chunk b off n"
    and "off + n \<le> k \<Longrightarrow> chunk (take k a @ drop k b) off n = chunk a off n"
    and "chunk a off n = chunk b off n \<Longrightarrow> chunk (take k a @ drop k b) off n = chunk b off n"
proof -
  define m where "m = take k a @ drop k b"
  have nth: "m ! i = (if i < k then a ! i else b ! i)" if "i < length b" for i
    using that assms by (auto simp: m_def nth_append min_def)
  have len: "length m = length b" using assms by (simp add: m_def)
  show "k \<le> off \<Longrightarrow> chunk (take k a @ drop k b) off n = chunk b off n"
    unfolding m_def [symmetric] by (rule nth_equalityI) (use len nth in \<open>auto simp: chunk_def\<close>)
  show "off + n \<le> k \<Longrightarrow> chunk (take k a @ drop k b) off n = chunk a off n"
    unfolding m_def [symmetric] by (rule nth_equalityI) (use len nth assms in \<open>auto simp: chunk_def\<close>)
  assume eq: "chunk a off n = chunk b off n"
  have "a ! (off + i) = b ! (off + i)" if "i < n" "off + i < length b" for i
    using arg_cong [OF eq, of "\<lambda>xs. xs ! i"] that assms by (simp add: chunk_def)
  then show "chunk (take k a @ drop k b) off n = chunk b off n"
    unfolding m_def [symmetric] by (intro nth_equalityI) (use len nth in \<open>auto simp: chunk_def\<close>)
qed

lemma ph_bytes_chunks:
  "chunk (ph_bytes ph) 4 4 = le_bytes 4 (ph_checksum ph)"
  "chunk (ph_bytes ph) 8 4 = le_bytes 4 (ph_generation ph)"
  "chunk (ph_bytes ph) 12 4 = le_bytes 4 (ph_mirror_page ph)"
  by (simp_all add: ph_bytes_def chunk_def del: le_bytes.simps)

lemma le_word_bytes4: "le_word (le_bytes 4 (w :: u32)) = w"
  by (simp add: le_word_le_bytes take_bit_word_eq_self del: le_bytes.simps)

lemma torn_header:
  fixes k :: nat
  assumes "length ob = 16" "ph_mirror_page nh = ph_mirror_page (ph_parse ob)"
  defines "h \<equiv> ph_parse (take k (ph_bytes nh) @ drop k ob)"
  shows "ph_mirror_page h = ph_mirror_page (ph_parse ob)"
    and "k \<le> 8 \<Longrightarrow> ph_generation h = ph_generation (ph_parse ob)"
    and "8 \<le> k \<Longrightarrow> ph_checksum h = ph_checksum nh"
    and "16 \<le> k \<Longrightarrow> h = nh"
proof -
  have l: "length (ph_bytes nh) = length ob" using assms(1) by simp
  have "le_bytes 4 (le_word (chunk ob 12 4) :: u32) = chunk ob 12 4"
    using assms(1) le_bytes_le_word [where 'a = 32, of "chunk ob 12 4"] by simp
  then have m: "chunk (ph_bytes nh) 12 4 = chunk ob 12 4"
    using assms(2) by (simp add: ph_bytes_chunks ph_parse_def rd4_def)
  show "ph_mirror_page h = ph_mirror_page (ph_parse ob)"
    unfolding h_def using mix_chunk(3) [OF l m] by (simp add: ph_parse_def rd4_def)
  show "k \<le> 8 \<Longrightarrow> ph_generation h = ph_generation (ph_parse ob)"
    unfolding h_def using mix_chunk(1) [OF l, of k 8 4] by (simp add: ph_parse_def rd4_def)
  show "8 \<le> k \<Longrightarrow> ph_checksum h = ph_checksum nh"
    unfolding h_def using mix_chunk(2) [OF l, of 4 4 k]
    by (simp add: ph_parse_def rd4_def ph_bytes_chunks le_word_bytes4)
  show "16 \<le> k \<Longrightarrow> h = nh" unfolding h_def using assms(1) by simp
qed

section \<open>A page with two copies\<close>

lemma disk_two:
  assumes "rec_header f off = Some ph" "ph_mirror_page ph \<noteq> -1" "look (sint (ph_mirror_page ph)) = so" "so \<noteq> 0"
    "rec_header f so = Some sh" "so \<noteq> off"
  shows "disk_status f ps look off =
    (let (a, ah, b, bh) = (if ph_generation sh > ph_generation ph then (so, sh, off, ph) else (off, ph, so, sh)) in
     if copy_ok f ps a ah then (0, rec_payload f ps a)
     else if copy_ok f ps b bh then (0, rec_payload f ps b) else (-2, rec_payload f ps b))"
  using assms by (simp add: disk_status_def Let_def)

text \<open>
  The state of a page after its second write: two records apart from each other, linked
  from the primary one, generations distinct, the newer copy valid with content \<open>cur\<close> and generation \<open>g\<close>.
  \<open>t\<close> is the record the next write goes to, \<open>k\<close> the one that keeps the current content.
\<close>

definition mirrored :: "StorageBackend \<Rightarrow> int \<Rightarrow> int \<Rightarrow> int \<Rightarrow> bytes \<Rightarrow> u32 \<Rightarrow> bool" where
  "mirrored sb p t k cur g \<longleftrightarrow>
     (\<exists>ph sh off so th kh. off = physical_offset sb p \<and> rec_header (sb_file sb) off = Some ph
       \<and> ph_mirror_page ph \<noteq> -1 \<and> ph_generation ph \<noteq> 0 \<and> so = indir_lookup sb (sint (ph_mirror_page ph)) \<and> so \<noteq> 0
       \<and> rec_header (sb_file sb) so = Some sh
       \<and> record_in (sb_file sb) (page_size sb) off \<and> record_in (sb_file sb) (page_size sb) so
       \<and> apart (page_size sb) off so
       \<and> ph_generation ph \<noteq> ph_generation sh
       \<and> (t, th, k, kh) = (if ph_generation ph < ph_generation sh then (off, ph, so, sh) else (so, sh, off, ph))
       \<and> copy_ok (sb_file sb) (page_size sb) k kh \<and> rec_payload (sb_file sb) (page_size sb) k = cur
       \<and> ph_generation kh = g)"

lemma word_less_succ: "y \<noteq> -1 \<Longrightarrow> y < y + 1" for y :: "'a::len word"
  using unatSuc [of y] by (simp add: word_less_nat_alt eq_neg_iff_add_eq_0 add.commute)

lemma mirrored_view:
  assumes "mirrored sb p t k cur g"
  shows "disk_page sb p = Some cur"
proof -
  from assms obtain ph sh th kh where
    *: "rec_header (sb_file sb) (physical_offset sb p) = Some ph" "ph_mirror_page ph \<noteq> -1"
      "indir_lookup sb (sint (ph_mirror_page ph)) \<noteq> 0"
      "rec_header (sb_file sb) (indir_lookup sb (sint (ph_mirror_page ph))) = Some sh"
      "record_in (sb_file sb) (page_size sb) (physical_offset sb p)"
      "apart (page_size sb) (physical_offset sb p) (indir_lookup sb (sint (ph_mirror_page ph)))"
      "ph_generation ph \<noteq> ph_generation sh"
      "(t, th, k, kh) = (if ph_generation ph < ph_generation sh
         then (physical_offset sb p, ph, indir_lookup sb (sint (ph_mirror_page ph)), sh)
         else (indir_lookup sb (sint (ph_mirror_page ph)), sh, physical_offset sb p, ph))"
      "copy_ok (sb_file sb) (page_size sb) k kh" "rec_payload (sb_file sb) (page_size sb) k = cur"
    unfolding mirrored_def by blast
  have ne: "indir_lookup sb (sint (ph_mirror_page ph)) \<noteq> physical_offset sb p" using *(6) by (auto simp: apart_def)
  have "disk_status (sb_file sb) (page_size sb) (indir_lookup sb) (physical_offset sb p) = (0, cur)"
    unfolding disk_two [where look = "indir_lookup sb", OF *(1,2) refl *(3,4) ne] using *(8-10) by (auto split: if_splits)
  moreover have "0 \<le> physical_offset sb p" using *(5) by (simp add: record_in_def)
  ultimately show ?thesis by (simp add: disk_page_eq)
qed

text \<open>
  The heart of crash safety: whatever prefix of the new header and payload reaches the
  target record, the reader returns the current or the new content.
\<close>

lemma torn_pair_read:
  assumes two: "rec_header f off = Some ph" "ph_mirror_page ph \<noteq> -1" "look (sint (ph_mirror_page ph)) = so" "so \<noteq> 0"
      "rec_header f so = Some sh" "record_in f ps off" "record_in f ps so" "apart ps off so"
      "ph_generation ph \<noteq> ph_generation sh"
    and sel: "(t, th, k, kh) = (if ph_generation ph < ph_generation sh then (off, ph, so, sh) else (so, sh, off, ph))"
    and ok: "copy_ok f ps k kh" "ph_generation kh \<noteq> -1"
    and new: "length new = ps" "ph_checksum nh = page_crc new" "ph_generation nh = ph_generation kh + 1"
      "ph_mirror_page nh = ph_mirror_page th"
    and crc: "\<And>n. page_crc (take n new @ drop n (rec_payload f ps t)) = page_crc new
        \<Longrightarrow> take n new @ drop n (rec_payload f ps t) = new"
    and torn: "k1 < 16 \<longrightarrow> k2 = 0"
  defines "f' \<equiv> torn_record f t (ph_bytes nh) new k1 k2"
  shows "disk_status f' ps look off = (0, new)
    \<or> \<not> (16 \<le> k1 \<and> ps \<le> k2) \<and> disk_status f' ps look off = (0, rec_payload f ps k)"
proof -
  have tk: "record_in f ps t" "record_in f ps k" "apart ps t k" "rec_header f t = Some th" "rec_header f k = Some kh"
    "ph_generation th < ph_generation kh"
    using sel two by (auto simp: apart_def split: if_splits)
  have so: "so \<noteq> off" using two(8) by (auto simp: apart_def)
  have l: "length (ph_bytes nh) = 16" by simp
  have r': "record_in f' ps t" unfolding f'_def by (rule record_in_length [OF tk(1) length_torn])
  let ?ob = "chunk f (nat t) 16"
  let ?h = "ph_parse (take k1 (ph_bytes nh) @ drop k1 ?ob)"
  have th: "th = ph_parse ?ob" using tk(4) rec_header_eq [OF tk(1)] by simp
  have hk: "rec_header f' k = Some kh" "rec_payload f' ps k = rec_payload f ps k"
    using torn_apart [OF _ tk(2,3) l new(1)] tk(1,5) by (simp_all add: f'_def record_in_def)
  have ht: "rec_header f' t = Some ?h" "rec_payload f' ps t = take k2 new @ drop k2 (rec_payload f ps t)"
    using torn_same [OF tk(1) l new(1), of k1 k2, folded f'_def]
    by (simp_all add: rec_header_eq [OF r'] rec_payload_eq [OF r'] rec_payload_eq [OF tk(1)])
  have ob: "length ?ob = 16" using tk(1) by (auto simp: record_in_def)
  note tor = torn_header [OF ob, of nh k1]
  have mir: "ph_mirror_page ?h = ph_mirror_page th" using tor(1) new(4) th by simp
  have okk: "copy_ok f' ps k kh" using ok(1) hk(2) by (simp add: copy_ok_def)
  have newt: "rec_payload f' ps t = new" if "copy_ok f' ps t ?h" "\<not> ph_generation ?h < ph_generation kh"
  proof -
    have "\<not> k1 \<le> 8" using that(2) tor(2) new(4) th tk(6) by auto
    then have "ph_checksum ?h = page_crc new" using tor(3) new(2,4) th by simp
    with that(1) have "page_crc (take k2 new @ drop k2 (rec_payload f ps t)) = page_crc new"
      by (simp add: copy_ok_def ht(2))
    from crc [OF this] show ?thesis by (simp add: ht(2))
  qed
  have full: "copy_ok f' ps t ?h \<and> rec_payload f' ps t = new \<and> ph_generation kh < ph_generation ?h"
    if "16 \<le> k1 \<and> ps \<le> k2"
  proof -
    have "rec_payload f' ps t = new" using that new(1) record_payload_length [OF tk(1)] by (simp add: ht(2))
    moreover have "?h = nh" using tor(4) that new(4) th by simp
    ultimately show ?thesis using new word_less_succ [OF ok(2)] by (simp add: copy_ok_def)
  qed
  show ?thesis
  proof (cases "ph_generation ph < ph_generation sh")
    case True
    then have e: "t = off" "th = ph" "k = so" "kh = sh" using sel by simp_all
    have h1: "rec_header f' off = Some ?h" "ph_mirror_page ?h \<noteq> -1" "look (sint (ph_mirror_page ?h)) = so"
      "rec_header f' so = Some sh" using ht(1) hk(1) mir two(2,3) e by simp_all
    show ?thesis
      unfolding disk_two [where look = look, OF h1(1,2,3) two(4) h1(4) so] using okk newt full hk(2) e by (auto simp: Let_def)
  next
    case False
    then have e: "t = so" "th = sh" "k = off" "kh = ph" using sel by simp_all
    have h1: "rec_header f' off = Some ph" "rec_header f' so = Some ?h" using ht(1) hk(1) e by simp_all
    show ?thesis
      unfolding disk_two [where look = look, OF h1(1) two(2,3,4) h1(2) so] using okk newt full hk(2) e by (auto simp: Let_def)
  qed
qed

section \<open>Completed writes\<close>

lemma full_record:
  fixes f :: bytes
  assumes "0 \<le> off" "length hb = 16" "length pb = ps"
  defines "f' \<equiv> torn_record f off hb pb 16 ps"
  shows "record_in f' ps off" "rec_header f' off = Some (ph_parse hb)" "rec_payload f' ps off = pb"
proof -
  let ?f1 = "file_write f (nat off) hb"
  have eq: "f' = file_write ?f1 (nat off + 16) pb" using assms by (simp add: f'_def torn_record_def)
  have l1: "nat off + 16 \<le> length ?f1" using assms by (auto simp: length_file_write)
  have l2: "nat off + 16 + ps \<le> length f'" using l1 assms(3) unfolding eq by (auto simp: length_file_write)
  then show r: "record_in f' ps off" using assms(1) by (auto simp: record_in_def)
  have "chunk f' (nat off) 16 = chunk ?f1 (nat off) 16"
    unfolding eq by (rule chunk_file_write_disjoint) (use l1 in auto)
  also have "\<dots> = hb" using chunk_file_write_same [of f "nat off" hb] assms(2) by simp
  finally show "rec_header f' off = Some (ph_parse hb)" by (simp add: rec_header_eq [OF r])
  show "rec_payload f' ps off = pb"
    unfolding rec_payload_eq [OF r] using chunk_file_write_same [of ?f1 "nat off + 16" pb] assms(3) by (simp add: eq)
qed

lemma write_record_full:
  assumes "sb_io sb = []" "0 \<le> off" "length payload = page_size sb"
  shows "write_page_record sb off ph payload
    = (True, sb\<lparr>sb_file := torn_record (sb_file sb) off (ph_bytes ph) payload 16 (page_size sb)\<rparr>)"
  using assms by (simp add: write_page_record_def pwrite_def io_limit_def torn_record_def nat_add_distrib Let_def)

definition unwritten :: "StorageBackend \<Rightarrow> int \<Rightarrow> bool" where
  "unwritten sb p \<longleftrightarrow> 0 \<le> physical_offset sb p
     \<and> (case rec_header (sb_file sb) (physical_offset sb p) of None \<Rightarrow> True | Some ph \<Rightarrow> ph_generation ph = 0)"

definition single :: "StorageBackend \<Rightarrow> int \<Rightarrow> bytes \<Rightarrow> u32 \<Rightarrow> bool" where
  "single sb p cur g \<longleftrightarrow>
     (\<exists>ph off. off = physical_offset sb p \<and> record_in (sb_file sb) (page_size sb) off
       \<and> rec_header (sb_file sb) off = Some ph \<and> ph_mirror_page ph = -1 \<and> ph_generation ph = g \<and> g \<noteq> 0
       \<and> copy_ok (sb_file sb) (page_size sb) off ph \<and> rec_payload (sb_file sb) (page_size sb) off = cur)"

lemma single_view: "single sb p cur g \<Longrightarrow> disk_page sb p = Some cur"
  by (auto simp: single_def disk_page_eq disk_status_def single_status_def copy_ok_def record_in_def)

lemma copy_ok_full: "length b = ps \<Longrightarrow> rec_payload f ps off = b \<Longrightarrow> ph_checksum ph = page_crc b \<Longrightarrow> copy_ok f ps off ph"
  by (simp add: copy_ok_def)

lemma physical_offset_file [simp]: "physical_offset (sb\<lparr>sb_file := f\<rparr>) p = physical_offset sb p"
  by (simp add: physical_offset_def)

text \<open>First write: one copy of generation 1.\<close>

lemma first_write:
  assumes u: "unwritten sb p" and io: "sb_io sb = []" and b: "length (b sb) = page_size sb"
  shows "\<exists>sb'. mirror_write sb p b flags = Some (True, sb') \<and> sb' = sb\<lparr>sb_file := sb_file sb'\<rparr> \<and> single sb' p (b sb) 1"
proof -
  let ?off = "physical_offset sb p" and ?nh = "\<lparr>ph_flags = flags, ph_checksum = page_crc (b sb), ph_generation = 1, ph_mirror_page = -1\<rparr>"
  let ?f' = "torn_record (sb_file sb) ?off (ph_bytes ?nh) (b sb) 16 (page_size sb)"
  have off: "0 \<le> ?off" using u by (simp add: unwritten_def)
  have "mirror_write sb p b flags = Some (write_page_record sb ?off ?nh (b sb))"
    using u io by (auto simp: mirror_write_def unwritten_def read_page_header_quiet Let_def split: option.splits)
  also have "\<dots> = Some (True, sb\<lparr>sb_file := ?f'\<rparr>)" by (simp add: write_record_full [OF io off b])
  finally have w: "mirror_write sb p b flags = Some (True, sb\<lparr>sb_file := ?f'\<rparr>)" .
  have "single (sb\<lparr>sb_file := ?f'\<rparr>) p (b sb) 1"
    using full_record [OF off, of "ph_bytes ?nh" "b sb" "page_size sb" "sb_file sb"] b
    by (simp add: single_def copy_ok_full)
  with w show ?thesis by (intro exI [of _ "sb\<lparr>sb_file := ?f'\<rparr>"]) simp
qed

text \<open>Later writes: the copies swap roles.\<close>

lemma later_write:
  assumes m: "mirrored sb p t k cur g" "g \<noteq> -1" and io: "sb_io sb = []" and b: "length (b sb) = page_size sb"
  shows "\<exists>sb'. mirror_write sb p b flags = Some (True, sb') \<and> sb' = sb\<lparr>sb_file := sb_file sb'\<rparr>
    \<and> mirrored sb' p k t (b sb) (g + 1)"
proof -
  let ?f = "sb_file sb" and ?ps = "page_size sb"
  from m(1) obtain ph sh off so th kh where
    off: "off = physical_offset sb p" and so: "so = indir_lookup sb (sint (ph_mirror_page ph))"
    and h: "rec_header ?f off = Some ph" "ph_mirror_page ph \<noteq> -1" "so \<noteq> 0"
      "rec_header ?f so = Some sh" "record_in ?f ?ps off" "record_in ?f ?ps so" "apart ?ps off so"
      "ph_generation ph \<noteq> ph_generation sh"
    and sel: "(t, th, k, kh) = (if ph_generation ph < ph_generation sh then (off, ph, so, sh) else (so, sh, off, ph))"
    and ok: "copy_ok ?f ?ps k kh" "ph_generation kh = g" and g0: "ph_generation ph \<noteq> 0"
    unfolding mirrored_def by blast
  define nh where "nh = th\<lparr>ph_flags := flags, ph_checksum := page_crc (b sb), ph_generation := g + 1\<rparr>"
  let ?f' = "torn_record ?f t (ph_bytes nh) (b sb) 16 ?ps"
  have tk: "0 \<le> off" "0 \<le> t" "record_in ?f ?ps k" "record_in ?f ?ps t" "apart ?ps t k" "rec_header ?f k = Some kh"
    using h sel by (auto simp: record_in_def apart_def split: if_splits)
  have gle: "ph_generation ph \<le> ph_generation sh \<longleftrightarrow> ph_generation ph < ph_generation sh"
    using h(8) by (simp add: le_less)
  have "mirror_write sb p b flags = Some (write_page_record sb t nh (b sb))"
    unfolding mirror_write_def off [symmetric]
    using tk(1) io h so g0 sel gle ok(2)
    by (auto simp: read_page_header_quiet Let_def nh_def split: if_splits)
  also have "\<dots> = Some (True, sb\<lparr>sb_file := ?f'\<rparr>)" by (simp add: write_record_full [OF io tk(2) b])
  finally have w: "mirror_write sb p b flags = Some (True, sb\<lparr>sb_file := ?f'\<rparr>)" .
  note fr = full_record [OF tk(2), of "ph_bytes nh" "b sb" ?ps ?f]
  have kf: "rec_header ?f' k = Some kh" "rec_payload ?f' ?ps k = rec_payload ?f ?ps k" "record_in ?f' ?ps k"
    using torn_apart [OF tk(2,3,5), of "ph_bytes nh" "b sb"] b tk(6) record_in_length [OF tk(3) length_torn] by simp_all
  have tf: "rec_header ?f' t = Some nh" "rec_payload ?f' ?ps t = b sb" "record_in ?f' ?ps t" "copy_ok ?f' ?ps t nh"
    using fr b by (simp_all add: copy_ok_full nh_def)
  have gen: "g < g + 1" "g + 1 \<noteq> 0" "ph_generation nh = g + 1" "ph_mirror_page nh = ph_mirror_page th"
    using word_less_succ [OF m(2)] by (auto simp: nh_def eq_neg_iff_add_eq_0 m(2))
  have "mirrored (sb\<lparr>sb_file := ?f'\<rparr>) p k t (b sb) (g + 1)"
  proof (cases "ph_generation ph < ph_generation sh")
    case True
    then have e: "t = off" "th = ph" "k = so" "kh = sh" using sel by simp_all
    show ?thesis
      unfolding mirrored_def
      by (intro exI [of _ nh] exI [of _ sh] exI [of _ off] exI [of _ so] exI [of _ sh] exI [of _ nh])
        (use e off so h kf tf gen ok(2) in auto)
  next
    case False
    then have e: "t = so" "th = sh" "k = off" "kh = ph" using sel by simp_all
    show ?thesis
      unfolding mirrored_def
      by (intro exI [of _ ph] exI [of _ nh] exI [of _ off] exI [of _ so] exI [of _ ph] exI [of _ nh])
        (use e off so h kf tf gen ok(2) g0 in auto)
  qed
  with w show ?thesis by (intro exI [of _ "sb\<lparr>sb_file := ?f'\<rparr>"]) simp
qed

text \<open>Second write: a sibling page is allocated, written, and linked from the first copy.\<close>

lemma parse_header_chunks:
  assumes "n + 16 \<le> length f"
  shows "ph_parse (chunk f n 16) = \<lparr>ph_flags = le_word (chunk f n 4), ph_checksum = le_word (chunk f (n + 4) 4),
    ph_generation = le_word (chunk f (n + 8) 4), ph_mirror_page = le_word (chunk f (n + 12) 4)\<rparr>"
proof -
  have "chunk (chunk f n 16) i 4 = chunk f (n + i) 4" if "i \<le> 12" for i
    using that by (simp add: chunk_def drop_take add.commute)
  then show ?thesis by (simp add: ph_parse_def rd4_def)
qed

lemma link_record:
  fixes w :: u32
  assumes r: "record_in f ps off" "rec_header f off = Some ph"
  defines "f' \<equiv> file_write f (nat off + 12) (le_bytes 4 w)"
  shows "rec_header f' off = Some (ph\<lparr>ph_mirror_page := w\<rparr>)" "rec_payload f' ps off = rec_payload f ps off"
    and "record_in f ps o2 \<Longrightarrow> apart ps off o2 \<Longrightarrow> rec_header f' o2 = rec_header f o2"
    and "record_in f ps o2 \<Longrightarrow> apart ps off o2 \<Longrightarrow> rec_payload f' ps o2 = rec_payload f ps o2"
    and "record_in f ps o2 \<Longrightarrow> record_in f' ps o2"
proof -
  have b: "0 \<le> off" "nat off + 16 + ps \<le> length f" using r by (auto simp: record_in_def)
  have len: "length f \<le> length f'" by (simp add: f'_def length_file_write del: le_bytes.simps)
  have r': "record_in f' ps o2" if "record_in f ps o2" for o2 using record_in_length [OF that len] .
  then show "record_in f ps o2 \<Longrightarrow> record_in f' ps o2" .
  have dis: "chunk f' x n = chunk f x n" if "x + n \<le> length f" "x + n \<le> nat off + 12 \<or> nat off + 16 \<le> x" for x n
    unfolding f'_def by (rule chunk_file_write_disjoint) (use that in \<open>simp_all add: add.commute del: le_bytes.simps\<close>)
  have lnk: "chunk f' (nat off + 12) 4 = le_bytes 4 w"
    unfolding f'_def using chunk_file_write_same [of f "nat off + 12" "le_bytes 4 w"] by (simp del: le_bytes.simps)
  have ph: "ph = ph_parse (chunk f (nat off) 16)" using r rec_header_eq [OF r(1)] by simp
  have "nat off + 16 \<le> length f" "nat off + 16 \<le> length f'" using b len by simp_all
  then show "rec_header f' off = Some (ph\<lparr>ph_mirror_page := w\<rparr>)"
    using dis [of "nat off" 4] dis [of "nat off + 4" 4] dis [of "nat off + 8" 4] lnk b
    by (simp add: rec_header_eq [OF r' [OF r(1)]] ph parse_header_chunks le_word_bytes4 del: le_bytes.simps)
  show "rec_payload f' ps off = rec_payload f ps off"
    using dis [of "nat off + 16" ps] b by (simp add: rec_payload_eq [OF r' [OF r(1)]] rec_payload_eq [OF r(1)])
  assume o2: "record_in f ps o2" "apart ps off o2"
  then have "nat o2 + 16 + ps \<le> nat off \<or> nat off + 16 + ps \<le> nat o2" "nat o2 + 16 + ps \<le> length f"
    using b by (auto simp: record_in_def apart_def)
  then show "rec_header f' o2 = rec_header f o2" "rec_payload f' ps o2 = rec_payload f ps o2"
    using dis [of "nat o2" 16] dis [of "nat o2 + 16" ps]
    by (auto simp: rec_header_eq [OF r' [OF o2(1)]] rec_header_eq [OF o2(1)] rec_payload_eq [OF r' [OF o2(1)]] rec_payload_eq [OF o2(1)])
qed

lemma allocate_tail:
  assumes "table_inv sb" "sb_heap sb = []" "hdr_get sb HDR_OFF_FREE_LIST_COUNT \<le> 0"
    and "physical_tail sb + 2 * phys_record_size sb < 2 ^ 63"
  shows "\<exists>p sb'. storage_allocate sb 1 = Some (p, sb') \<and> table_inv sb' \<and> extends sb sb'
    \<and> total_pages sb \<le> p \<and> p \<le> total_pages sb + 1 \<and> indir_lookup sb p = 0
    \<and> physical_tail sb \<le> indir_lookup sb' p"
proof -
  have "dequeue_loop (Suc retry) sb = (0, sb)" for retry using assms(3) by simp
  from this [of 999] have "dequeue_from_free_list sb = (0, sb)" by (simp add: dequeue_from_free_list_def)
  then have "storage_allocate sb 1 = storage_allocate_tail_advance sb 1" by (simp add: storage_allocate_def)
  with tail_advance_ok [OF assms(1,2,4)] show ?thesis by auto
qed

lemma second_write:
  assumes s: "single sb p cur g" "g \<noteq> -1" and io: "sb_io sb = []" "sb_heap sb = []" and b: "length (b sb) = page_size sb"
    and pay: "\<And>s. sb_cache s = sb_cache sb \<Longrightarrow> b s = b sb"
    and inv: "table_inv sb" "hdr_get sb HDR_OFF_FREE_LIST_COUNT \<le> 0"
      "physical_tail sb + 2 * phys_record_size sb < 2 ^ 63" "total_pages sb + 1 < 2 ^ 31"
    and p: "0 \<le> p" "indir_lookup sb p = physical_offset sb p" "indir_lookup sb p \<noteq> 0"
  shows "\<exists>sb' t k. mirror_write sb p b flags = Some (True, sb') \<and> sb_cache sb' = sb_cache sb
    \<and> table_inv sb' \<and> (\<forall>q \<ge> 0. indir_lookup sb q \<noteq> 0 \<longrightarrow> indir_lookup sb' q = indir_lookup sb q)
    \<and> mirrored sb' p t k (b sb) (g + 1)"
proof -
  let ?f = "sb_file sb" and ?ps = "page_size sb" and ?off = "physical_offset sb p"
  from s(1) obtain ph where ph: "record_in ?f ?ps ?off" "rec_header ?f ?off = Some ph" "ph_mirror_page ph = -1"
    "ph_generation ph = g" "g \<noteq> 0" by (auto simp: single_def)
  have off: "0 \<le> ?off" using ph(1) by (simp add: record_in_def)
  from allocate_tail [OF inv(1) io(2) inv(2,3)] obtain q s1 where
    q: "storage_allocate sb 1 = Some (q, s1)" "table_inv s1" "extends sb s1" "total_pages sb \<le> q" "q \<le> total_pages sb + 1"
      "indir_lookup sb q = 0" "physical_tail sb \<le> indir_lookup s1 q" by blast
  let ?so = "indir_lookup s1 q"
  have ex: "page_size s1 = ?ps" "sb_file s1 = ?f" "sb_io s1 = []" "sb_cache s1 = sb_cache sb" "indir_lookup s1 p = ?off"
    using q(3) io p by (simp_all add: extends_def)
  have rec: "records_ok sb" "records_ok s1" "2 \<le> total_pages sb" using inv(1) q(2) by (simp_all add: table_inv_def)
  have q0: "0 \<le> q" "2 \<le> q" using q(4) rec(3) by simp_all
  have so: "?so \<noteq> 0" "0 < ?so" using q(7) rec(1) by (simp_all add: records_ok_def)
  have qp: "q \<noteq> p" using q(6) p(3) by auto
  have ap: "apart ?ps ?so ?off" "apart ?ps ?off ?so"
    using records_apart [OF rec(2) q0(1) p(1) qp so(1)] ex(1,5) p(2,3)
    by (auto simp: apart_def phys_record_size_def)
  define nh where "nh = \<lparr>ph_flags = flags, ph_checksum = page_crc (b sb), ph_generation = g + 1, ph_mirror_page = (word_of_int p :: u32)\<rparr>"
  let ?f1 = "torn_record ?f ?so (ph_bytes nh) (b sb) 16 ?ps"
  let ?f2 = "file_write ?f1 (nat ?off + 12) (le_bytes 4 (word_of_int q :: u32))"
  let ?r = "s1\<lparr>sb_file := ?f2\<rparr>"
  have wr: "write_page_record s1 ?so nh (b sb) = (True, s1\<lparr>sb_file := ?f1\<rparr>)"
    using write_record_full [OF ex(3), of ?so "b sb" nh] so b ex by simp
  have "nat (?off + 12) = nat ?off + 12" using off by (simp add: nat_add_distrib)
  then have lk: "pwrite (s1\<lparr>sb_file := ?f1\<rparr>) (le_bytes 4 (word_of_int q :: u32)) (?off + 12) = (4, ?r)"
    using off ex(3) by (simp add: pwrite_def io_limit_def Let_def del: le_bytes.simps)
  have "mirror_write sb p b flags = Some (True, ?r)"
    unfolding mirror_write_def
    using off ph io q(1) q0 so wr lk pay [OF ex(4)]
    by (simp add: read_page_header_quiet Let_def nh_def [symmetric] del: le_bytes.simps)
  note fr = full_record [of ?so "ph_bytes nh" "b sb" ?ps ?f]
  have f1: "record_in ?f1 ?ps ?so" "rec_header ?f1 ?so = Some nh" "rec_payload ?f1 ?ps ?so = b sb"
    using fr so b by simp_all
  have f1': "rec_header ?f1 ?off = Some ph" "record_in ?f1 ?ps ?off"
    using torn_apart(1) [OF _ ph(1) ap(1)] ph(2) b so record_in_length [OF ph(1) length_torn] by simp_all
  note ln = link_record [OF f1'(2,1), where w = "word_of_int q"]
  have mq: "sint (word_of_int q :: u32) = q" using q0 q(5) inv(4) by (intro sint_word_of_int_32) (simp add: i32_def)
  have mne: "(word_of_int q :: u32) \<noteq> -1"
  proof
    assume "(word_of_int q :: u32) = -1"
    then have "sint (word_of_int q :: u32) = -1" by simp
    with mq q0 show False by simp
  qed
  have po: "physical_offset ?r p = ?off" using ex(1,5) p(2) by (simp add: physical_offset_def split: if_splits)
  have gen: "g < g + 1" using word_less_succ [OF s(2)] .
  have "mirrored ?r p ?off ?so (b sb) (g + 1)"
    unfolding mirrored_def
    by (intro exI [of _ "ph\<lparr>ph_mirror_page := word_of_int q\<rparr>"] exI [of _ nh] exI [of _ ?off] exI [of _ ?so]
        exI [of _ "ph\<lparr>ph_mirror_page := word_of_int q\<rparr>"] exI [of _ nh])
      (use po mq mne ph(4,5) so ln(1) ln(3) [OF f1(1) ap(2)] ln(4) [OF f1(1) ap(2)] ln(5) [OF f1'(2)] ln(5) [OF f1(1)] f1 ap(2)
         gen ex(1) b in \<open>simp add: nh_def copy_ok_def\<close>)
  moreover have "table_inv ?r"
    by (rule table_inv_cong [OF q(2)]) (use q(2) in \<open>simp_all add: table_inv_def indir_wf_def\<close>)
  ultimately show ?thesis
    using \<open>mirror_write sb p b flags = Some (True, ?r)\<close> q(3) ex(4)
    by (intro exI [of _ ?r] exI [of _ ?off] exI [of _ ?so]) (simp add: extends_def)
qed

section \<open>Properties\<close>

lemma read_header_ok:
  "sb_io sb = None # w \<Longrightarrow> read_page_header sb off = (rec_header (sb_file sb) off, sb\<lparr>sb_io := w\<rparr>)"
  by (auto simp: read_page_header_def pread_def io_limit_def rec_header_def)

lemma disk_page_file:
  assumes "0 \<le> physical_offset sb p"
  shows "disk_page (sb\<lparr>sb_file := f, sb_io := io\<rparr>) p =
    (case disk_status f (page_size sb) (indir_lookup sb) (physical_offset sb p) of (st, b) \<Rightarrow> if st = 0 then Some b else None)"
  using assms by (auto simp: disk_page_eq physical_offset_def)


text \<open>A page with two copies: page 1 of the small store, its sibling page 2. The older copy is all
  zero, the newer one all five; the next write goes to the older one.\<close>

definition demo_mirror_file :: bytes where
  "demo_mirror_file = zero_bytes 144
     @ ph_bytes \<lparr>ph_flags = 0, ph_checksum = page_crc (zero_bytes 128), ph_generation = 1, ph_mirror_page = 2\<rparr> @ zero_bytes 128
     @ ph_bytes \<lparr>ph_flags = 0, ph_checksum = page_crc (replicate 128 5), ph_generation = 2, ph_mirror_page = 1\<rparr> @ replicate 128 5"

definition demo_mirror_sb :: StorageBackend where
  "demo_mirror_sb = (put_entry demo_sb 2 288)\<lparr>sb_file := demo_mirror_file, sb_io := [None, None, None, Some 0]\<rparr>"

lemma demo_lookup2: "indir_lookup (put_entry demo_sb 2 288) 2 = 288"
  using indir_lookup_put [OF demo_wf(1), of 2 2 288]
  by (simp add: in_table_def i64_def) (simp add: demo_sb_def total_entries_def inline_entry_count_def)

lemma demo_mirrored: "mirrored demo_mirror_sb 1 144 288 (replicate 128 5) 2"
proof -
  have ps: "page_size demo_mirror_sb = 128" by (simp add: demo_mirror_sb_def demo_sb_def)
  have po: "physical_offset demo_mirror_sb 1 = 144" by (simp add: physical_offset_def ps)
  have lo: "indir_lookup demo_mirror_sb 2 = 288" using demo_lookup2 by (simp add: demo_mirror_sb_def)
  have f: "sb_file demo_mirror_sb = demo_mirror_file" by (simp add: demo_mirror_sb_def)
  have len: "length demo_mirror_file = 432" by (simp add: demo_mirror_file_def)
  have h1: "rec_header demo_mirror_file 144
      = Some \<lparr>ph_flags = 0, ph_checksum = page_crc (zero_bytes 128), ph_generation = 1, ph_mirror_page = 2\<rparr>"
    and h2: "rec_header demo_mirror_file 288
      = Some \<lparr>ph_flags = 0, ph_checksum = page_crc (replicate 128 5), ph_generation = 2, ph_mirror_page = 1\<rparr>"
    by (simp_all add: rec_header_def len) (simp_all add: demo_mirror_file_def chunk_def)
  have p2: "rec_payload demo_mirror_file 128 288 = replicate 128 5"
    by (simp add: rec_payload_def demo_mirror_file_def chunk_def)
  show ?thesis
    unfolding mirrored_def f ps po
    by (intro exI [of _ "\<lparr>ph_flags = 0, ph_checksum = page_crc (zero_bytes 128), ph_generation = 1, ph_mirror_page = 2\<rparr>"]
        exI [of _ "\<lparr>ph_flags = 0, ph_checksum = page_crc (replicate 128 5), ph_generation = 2, ph_mirror_page = 1\<rparr>"]
        exI [of _ 144] exI [of _ 288]
        exI [of _ "\<lparr>ph_flags = 0, ph_checksum = page_crc (zero_bytes 128), ph_generation = 1, ph_mirror_page = 2\<rparr>"]
        exI [of _ "\<lparr>ph_flags = 0, ph_checksum = page_crc (replicate 128 5), ph_generation = 2, ph_mirror_page = 1\<rparr>"])
      (simp add: h1 h2 p2 lo record_in_def len apart_def copy_ok_def)
qed

lemma page_crc_first_byte: "page_crc (0 # zero_bytes 127) \<noteq> page_crc (1 # zero_bytes 127)"
  using crc32c_spec_burst [of "[0]" "[1]" "[]" "zero_bytes 127"]
  by (simp add: page_crc_def vfs_crc32c_def crc32c_sw_eq_spec)


text \<open>The state of a page on disk, in the three stages of its life, with generations left.\<close>

definition on_disk :: "StorageBackend \<Rightarrow> int \<Rightarrow> bool" where
  "on_disk sb p \<longleftrightarrow> unwritten sb p \<or> (\<exists>cur g. single sb p cur g \<and> g \<noteq> -1)
     \<or> (\<exists>t k cur g. mirrored sb p t k cur g \<and> g \<noteq> -1)"

lemma physical_offset_cache [simp]: "physical_offset (sb\<lparr>sb_cache := c\<rparr>) p = physical_offset sb p"
  by (simp add: physical_offset_def)

lemma on_disk_cache [simp]: "on_disk (sb\<lparr>sb_cache := c\<rparr>) p = on_disk sb p"
  by (simp add: on_disk_def unwritten_def single_def mirrored_def)

text \<open>What the write path asks of the store: no faults, the table invariant, an empty free-page queue, and
  room for one more record.\<close>

definition write_ready :: "StorageBackend \<Rightarrow> bool" where
  "write_ready sb \<longleftrightarrow> healthy sb \<and> table_inv sb \<and> hdr_get sb HDR_OFF_FREE_LIST_COUNT \<le> 0
     \<and> physical_tail sb + 2 * phys_record_size sb < 2 ^ 63 \<and> total_pages sb + 1 < 2 ^ 31"

lemma write_completes:
  assumes "on_disk sb p" "write_ready sb" "length (b sb) = page_size sb"
    and pay: "\<And>s. sb_cache s = sb_cache sb \<Longrightarrow> b s = b sb"
    and p: "0 \<le> p" "indir_lookup sb p = physical_offset sb p" "indir_lookup sb p \<noteq> 0"
  shows "\<exists>sb'. mirror_write sb p b flags = Some (True, sb') \<and> sb_cache sb' = sb_cache sb
    \<and> disk_page sb' p = Some (b sb) \<and> table_inv sb'
    \<and> (\<forall>q \<ge> 0. indir_lookup sb q \<noteq> 0 \<longrightarrow> indir_lookup sb' q = indir_lookup sb q)"
proof -
  have io: "sb_io sb = []" "sb_heap sb = []" and ti: "table_inv sb"
    using assms(2) by (simp_all add: write_ready_def healthy_def)
  have ti': "table_inv (sb\<lparr>sb_file := f\<rparr>)" for f
    by (rule table_inv_cong [OF ti]) (use ti in \<open>simp_all add: table_inv_def indir_wf_def\<close>)
  from assms(1) consider "unwritten sb p" | cur g where "single sb p cur g" "g \<noteq> -1"
    | t k cur g where "mirrored sb p t k cur g" "g \<noteq> -1" unfolding on_disk_def by blast
  then show ?thesis
  proof cases
    case 1
    from first_write [where b = b and flags = flags, OF 1 io(1) assms(3)] obtain sb' where
      w: "mirror_write sb p b flags = Some (True, sb')" "sb' = sb\<lparr>sb_file := sb_file sb'\<rparr>" "single sb' p (b sb) 1" by blast
    obtain f where f: "sb' = sb\<lparr>sb_file := f\<rparr>" using w(2) ..
    show ?thesis
      using w(1) single_view [OF w(3)] ti' unfolding f by (intro exI [of _ "sb\<lparr>sb_file := f\<rparr>"]) simp
  next
    case 2
    have "hdr_get sb 56 \<le> 0" "physical_tail sb + 2 * phys_record_size sb < 2 ^ 63" "total_pages sb + 1 < 2 ^ 31"
      using assms(2) by (simp_all add: write_ready_def)
    from second_write [where b = b and flags = flags, OF 2 io assms(3) pay ti this p] obtain sb' t k where
      w: "mirror_write sb p b flags = Some (True, sb')" "sb_cache sb' = sb_cache sb" "table_inv sb'"
        "\<forall>q \<ge> 0. indir_lookup sb q \<noteq> 0 \<longrightarrow> indir_lookup sb' q = indir_lookup sb q" "mirrored sb' p t k (b sb) (g + 1)" by blast
    show ?thesis using w(1-4) mirrored_view [OF w(5)] by (intro exI [of _ sb']) simp
  next
    case 3
    from later_write [where b = b and flags = flags, OF 3 io(1) assms(3)] obtain sb' where
      w: "mirror_write sb p b flags = Some (True, sb')" "sb' = sb\<lparr>sb_file := sb_file sb'\<rparr>" "mirrored sb' p k t (b sb) (g + 1)" by blast
    obtain f where f: "sb' = sb\<lparr>sb_file := f\<rparr>" using w(2) ..
    show ?thesis
      using w(1) mirrored_view [OF w(3)] ti' unfolding f by (intro exI [of _ "sb\<lparr>sb_file := f\<rparr>"]) simp
  qed
qed

text \<open>C13: the write path and the read path of the lazy mirror fit together. In each stage of
  the life of a page (never written, one copy, two copies) a write on a working store completes, also
  when it has to allocate the sibling first, and the page then reads from the file as what was written; no mapped page
  moves.\<close>

theorem mirror_write_read_back:
  assumes "on_disk sb p" "write_ready sb" "length b = page_size sb"
    and "0 \<le> p" "indir_lookup sb p = physical_offset sb p" "indir_lookup sb p \<noteq> 0"
  shows "\<exists>sb'. mirror_write sb p (\<lambda>_. b) flags = Some (True, sb')
    \<and> fst (mirror_read_with_status (sb'\<lparr>sb_io := []\<rparr>) p) = 0
    \<and> fst (snd (mirror_read_with_status (sb'\<lparr>sb_io := []\<rparr>) p)) = b \<and> table_inv sb'
    \<and> (\<forall>q \<ge> 0. indir_lookup sb q \<noteq> 0 \<longrightarrow> indir_lookup sb' q = indir_lookup sb q)"
proof -
  from write_completes [where b = "\<lambda>_. b" and flags = flags, OF assms(1,2,3) refl assms(4-6)] obtain sb' where
    w: "mirror_write sb p (\<lambda>_. b) flags = Some (True, sb')" "disk_page sb' p = Some b" "table_inv sb'"
      "\<forall>q \<ge> 0. indir_lookup sb q \<noteq> 0 \<longrightarrow> indir_lookup sb' q = indir_lookup sb q" by blast
  have "disk_page (sb'\<lparr>sb_io := []\<rparr>) p = Some b" using w(2) by simp
  then have "0 \<le> physical_offset sb' p \<and> disk_status (sb_file sb') (page_size sb') (indir_lookup sb') (physical_offset sb' p) = (0, b)"
    by (simp add: disk_page_eq physical_offset_def split: if_splits prod.splits)
  then have "mirror_read_with_status (sb'\<lparr>sb_io := []\<rparr>) p = (0, b, sb'\<lparr>sb_io := []\<rparr>)"
    using mirror_read_quiet [of "sb'\<lparr>sb_io := []\<rparr>" p] by (simp add: physical_offset_def split: if_splits)
  with w show ?thesis by auto
qed

lemma demo_on_disk: "unwritten demo_sb 1" "write_ready demo_sb" "indir_lookup demo_sb 1 = physical_offset demo_sb 1"
proof -
  have po: "physical_offset demo_sb 1 = 144" by (simp add: physical_offset_def demo_sb_def)
  have "rec_header (zero_bytes 288) 144 = Some (ph_parse (zero_bytes 16))"
    by (simp add: rec_header_def chunk_def)
  moreover have "sb_file demo_sb = zero_bytes 288" by (simp add: demo_sb_def)
  ultimately show "unwritten demo_sb 1" by (simp add: unwritten_def po ph_parse_def)
  show "write_ready demo_sb"
    using demo_table_inv demo_wf(2) by (simp add: write_ready_def) (simp add: demo_sb_def phys_record_size_def buf_simps)
  show "indir_lookup demo_sb 1 = physical_offset demo_sb 1" by (simp add: po demo_lookup)
qed

theorem mirror_write_read_back_witness:
  "\<exists>sb'. mirror_write demo_sb 1 (\<lambda>_. replicate 128 3) 1 = Some (True, sb')
    \<and> fst (snd (mirror_read_with_status (sb'\<lparr>sb_io := []\<rparr>) 1)) = replicate 128 3"
proof -
  have "on_disk demo_sb 1" "length (replicate 128 3 :: bytes) = page_size demo_sb" "indir_lookup demo_sb 1 \<noteq> 0"
    using demo_on_disk(1) by (simp_all add: on_disk_def demo_lookup) (simp add: demo_sb_def)
  from mirror_write_read_back [OF this(1) demo_on_disk(2) this(2) _ demo_on_disk(3) this(3), of 1] show ?thesis by auto
qed

lemma clean_laws:
  assumes "cache_wf c"
  shows "cached (cache_mark_clean c p) = cached c"
    and "\<exists>e. cache_peek c p = Some e \<Longrightarrow> \<exists>e. cache_peek (cache_mark_clean c p) p = Some e \<and> \<not> ce_dirty e"
proof -
  have sh: "cache_shape c" using assms by (simp add: cache_wf_def)
  show "cached (cache_mark_clean c p) = cached c"
    using sh by (auto simp: cache_mark_clean_def cached_modify_same split: option.split)
  show "\<exists>e. cache_peek c p = Some e \<Longrightarrow> \<exists>e. cache_peek (cache_mark_clean c p) p = Some e \<and> \<not> ce_dirty e"
    using sh by (auto simp: cache_mark_clean_def cache_peek_modify split: option.split)
qed


lemma insert_dirty:
  assumes "cache_wf (sb_cache sb)" "sb_heap sb = []" "cache_peek (sb_cache sb) p = None"
  shows "\<exists>e. cache_peek (sb_cache (cache_insert sb p b n True)) p = Some e \<and> ce_dirty e \<and> ce_payload e = b"
proof -
  have "malloc sb = (True, sb)" "cache_shape (sb_cache sb)" using assms by (simp_all add: malloc_def cache_wf_def)
  then show ?thesis using assms(3) by (simp add: cache_insert_def Let_def cache_peek_set_bucket)
qed


end
