(* ===== verification/Nodes.thy ===== *)
theory Nodes
  imports Prelude
begin

text \<open>
  The 32-byte slot formats of \<^verbatim>\<open>src/nodes.h\<close> and \<^verbatim>\<open>src/nodes.c\<close>: one record per node
  type, one writer and one reader per type, at the offsets of the header. Slots are byte
  lists; a writer takes the old slot and returns the new one, since fields it does not
  name keep their bytes.

  The lemmas are the round trips of every type, and the two layouts the tree code relies on: all
  leaf types read the same through the \<^verbatim>\<open>LEAF_OFF\<close> offsets, all inner types through the
  \<^verbatim>\<open>ANCHOR_OFF\<close> offsets.
\<close>

section \<open>Constants\<close>

abbreviation (input) ANCHOR_KIND_SEGMENT_FILE :: u16 where "ANCHOR_KIND_SEGMENT_FILE \<equiv> 0x20"
abbreviation (input) ANCHOR_KIND_SEGMENT_DIR :: u16 where "ANCHOR_KIND_SEGMENT_DIR \<equiv> 0x21"
abbreviation (input) ANCHOR_KIND_UNIT_PAGE :: u16 where "ANCHOR_KIND_UNIT_PAGE \<equiv> 0x30"
abbreviation (input) ANCHOR_KIND_UNIT_SLOT :: u16 where "ANCHOR_KIND_UNIT_SLOT \<equiv> 0x31"
abbreviation (input) NODE_TYPE_DIR :: u16 where "NODE_TYPE_DIR \<equiv> 0x01"
abbreviation (input) NODE_TYPE_FILE :: u16 where "NODE_TYPE_FILE \<equiv> 0x03"
abbreviation (input) NODE_TYPE_INDEX_INTERNAL :: u8 where "NODE_TYPE_INDEX_INTERNAL \<equiv> 0x02"
abbreviation (input) NODE_TYPE_INDEX_LEAF :: u8 where "NODE_TYPE_INDEX_LEAF \<equiv> 0x03"
abbreviation (input) MAPPER_FLAG_TRAVERSAL_APPLY :: u16 where "MAPPER_FLAG_TRAVERSAL_APPLY \<equiv> 0x0001"

abbreviation (input) LEAF_OFF_EPOCH :: nat where "LEAF_OFF_EPOCH \<equiv> 0"
abbreviation (input) LEAF_OFF_KIND_SPECIFIC :: nat where "LEAF_OFF_KIND_SPECIFIC \<equiv> 4"
abbreviation (input) LEAF_OFF_PRIMARY :: nat where "LEAF_OFF_PRIMARY \<equiv> 8"
abbreviation (input) LEAF_OFF_SECONDARY :: nat where "LEAF_OFF_SECONDARY \<equiv> 16"
abbreviation (input) LEAF_OFF_NEXTPTR :: nat where "LEAF_OFF_NEXTPTR \<equiv> 24"
abbreviation (input) ANCHOR_OFF_HEADPTR :: nat where "ANCHOR_OFF_HEADPTR \<equiv> 8"
abbreviation (input) ANCHOR_OFF_SIBPTR :: nat where "ANCHOR_OFF_SIBPTR \<equiv> 16"

section \<open>Name hash\<close>

definition splitmix64_hash :: "bytes \<Rightarrow> u64" where
  "splitmix64_hash data =
     (let h = foldl (\<lambda>h b. (h XOR ucast b) * 1099511628211) 14695981039346656037 data;
          h = h + 0x9e3779b97f4a7c15;
          h = (h XOR drop_bit 30 h) * 0xbf58476d1ce4e5b9;
          h = (h XOR drop_bit 27 h) * 0x94d049bb133111eb
      in h XOR drop_bit 31 h)"

definition name_hash_compute :: "bytes \<Rightarrow> u64" where
  "name_hash_compute name = splitmix64_hash name"

section \<open>Directory and file nodes\<close>

record DirNode =
  dn_nodeId :: u32
  dn_headPtr :: int
  dn_indexHeadPtr :: int
  dn_createdAt :: int

definition nodes_write_dirnode :: "bytes \<Rightarrow> DirNode \<Rightarrow> bytes" where
  "nodes_write_dirnode slot n =
     (let slot = wr2 slot 0 NODE_TYPE_DIR;
          slot = wr2 slot 2 0;
          slot = wr4 slot 4 (dn_nodeId n);
          slot = wr8i slot 8 (dn_headPtr n);
          slot = wr8i slot 16 (dn_indexHeadPtr n)
      in wr8i slot 24 (dn_createdAt n))"

definition nodes_read_dirnode :: "bytes \<Rightarrow> DirNode" where
  "nodes_read_dirnode slot =
     \<lparr>dn_nodeId = rd4 slot 4, dn_headPtr = rd8i slot 8, dn_indexHeadPtr = rd8i slot 16, dn_createdAt = rd8i slot 24\<rparr>"

record FileNode =
  fn_nodeId :: u32
  fn_headPtr :: int
  fn_sizePtr :: int
  fn_createdAt :: int

definition nodes_write_filenode :: "bytes \<Rightarrow> FileNode \<Rightarrow> bytes" where
  "nodes_write_filenode slot n =
     (let slot = wr2 slot 0 NODE_TYPE_FILE;
          slot = wr2 slot 2 0;
          slot = wr4 slot 4 (fn_nodeId n);
          slot = wr8i slot 8 (fn_headPtr n);
          slot = wr8i slot 16 (fn_sizePtr n)
      in wr8i slot 24 (fn_createdAt n))"

definition nodes_read_filenode :: "bytes \<Rightarrow> FileNode" where
  "nodes_read_filenode slot =
     \<lparr>fn_nodeId = rd4 slot 4, fn_headPtr = rd8i slot 8, fn_sizePtr = rd8i slot 16, fn_createdAt = rd8i slot 24\<rparr>"

definition nodes_read_filenode_ctime :: "bytes \<Rightarrow> int" where
  "nodes_read_filenode_ctime slot = rd8i slot 24"

section \<open>Directory index\<close>

record DirContentIndex =
  ix_nibble :: u8
  ix_nodeType :: u8
  ix_listVP :: int
  ix_nextVP :: int

definition nodes_write_dircontentindex :: "bytes \<Rightarrow> DirContentIndex \<Rightarrow> bytes" where
  "nodes_write_dircontentindex slot n =
     (let slot = wr1 slot 0 (ix_nibble n);
          slot = wr1 slot 1 (ix_nodeType n);
          slot = blit slot 2 (zero_bytes 6);
          slot = wr8i slot 8 (ix_listVP n);
          slot = wr8i slot 16 (ix_nextVP n)
      in blit slot 24 (zero_bytes 8))"

definition nodes_read_dircontentindex :: "bytes \<Rightarrow> DirContentIndex" where
  "nodes_read_dircontentindex slot =
     \<lparr>ix_nibble = rd1 slot 0, ix_nodeType = rd1 slot 1, ix_listVP = rd8i slot 8, ix_nextVP = rd8i slot 16\<rparr>"

record DirContentLink =
  lk_dirContentVP :: int
  lk_nextVP :: int

definition nodes_write_dircontentlink :: "bytes \<Rightarrow> DirContentLink \<Rightarrow> bytes" where
  "nodes_write_dircontentlink slot n =
     (let slot = blit slot 0 (zero_bytes 8);
          slot = wr8i slot 8 (lk_dirContentVP n);
          slot = wr8i slot 16 (lk_nextVP n)
      in blit slot 24 (zero_bytes 8))"

definition nodes_read_dircontentlink :: "bytes \<Rightarrow> DirContentLink" where
  "nodes_read_dircontentlink slot = \<lparr>lk_dirContentVP = rd8i slot 8, lk_nextVP = rd8i slot 16\<rparr>"

section \<open>Anchors\<close>

record Anchor =
  an_kind :: u16
  an_id :: u32
  an_headPtr :: int
  an_sibPtr :: int
  an_count :: u32

definition nodes_write_anchor :: "bytes \<Rightarrow> Anchor \<Rightarrow> bytes" where
  "nodes_write_anchor slot n =
     (let slot = wr2 slot 0 (an_kind n);
          slot = wr2 slot 2 0;
          slot = wr4 slot 4 (an_id n);
          slot = wr8i slot 8 (an_headPtr n);
          slot = wr8i slot 16 (an_sibPtr n);
          slot = wr4 slot 24 (an_count n)
      in wr4 slot 28 0)"

definition nodes_read_anchor :: "bytes \<Rightarrow> Anchor" where
  "nodes_read_anchor slot =
     \<lparr>an_kind = rd2 slot 0, an_id = rd4 slot 4, an_headPtr = rd8i slot 8, an_sibPtr = rd8i slot 16, an_count = rd4 slot 24\<rparr>"

record FileContent =
  fc_pageRootPtr :: int
  fc_nextPtr :: int

definition nodes_write_filecontent :: "bytes \<Rightarrow> FileContent \<Rightarrow> bytes" where
  "nodes_write_filecontent slot n =
     (let slot = wr2 slot 0 ANCHOR_KIND_SEGMENT_FILE;
          slot = wr2 slot 2 0;
          slot = wr4 slot 4 0;
          slot = wr8i slot 8 (fc_pageRootPtr n);
          slot = wr8i slot 16 (fc_nextPtr n);
          slot = wr4 slot 24 0
      in wr4 slot 28 0)"

definition nodes_read_filecontent :: "bytes \<Rightarrow> FileContent" where
  "nodes_read_filecontent slot = \<lparr>fc_pageRootPtr = rd8i slot 8, fc_nextPtr = rd8i slot 16\<rparr>"

record PageNode =
  pn_versionRootPtr :: int
  pn_nextPtr :: int
  pn_page_index :: u32

definition nodes_write_pagenode :: "bytes \<Rightarrow> PageNode \<Rightarrow> bytes" where
  "nodes_write_pagenode slot n =
     (let slot = wr2 slot 0 ANCHOR_KIND_UNIT_PAGE;
          slot = wr2 slot 2 0;
          slot = wr4 slot 4 (pn_page_index n);
          slot = wr8i slot 8 (pn_versionRootPtr n);
          slot = wr8i slot 16 (pn_nextPtr n);
          slot = wr4 slot 24 0
      in wr4 slot 28 0)"

definition nodes_read_pagenode :: "bytes \<Rightarrow> PageNode" where
  "nodes_read_pagenode slot = \<lparr>pn_versionRootPtr = rd8i slot 8, pn_nextPtr = rd8i slot 16, pn_page_index = rd4 slot 4\<rparr>"

section \<open>Leaves\<close>

record DirContent =
  dc_childNodeId :: u32
  dc_epoch :: u32
  dc_childPtr :: int
  dc_namePtr :: int
  dc_nextPtr :: int

definition nodes_write_dircontent :: "bytes \<Rightarrow> DirContent \<Rightarrow> bytes" where
  "nodes_write_dircontent slot n =
     (let slot = wr4 slot 0 (dc_epoch n);
          slot = wr4 slot 4 (dc_childNodeId n);
          slot = wr8i slot 8 (dc_childPtr n);
          slot = wr8i slot 16 (dc_namePtr n)
      in wr8i slot 24 (dc_nextPtr n))"

definition nodes_read_dircontent :: "bytes \<Rightarrow> DirContent" where
  "nodes_read_dircontent slot =
     \<lparr>dc_childNodeId = rd4 slot 4, dc_epoch = rd4 slot 0, dc_childPtr = rd8i slot 8, dc_namePtr = rd8i slot 16,
      dc_nextPtr = rd8i slot 24\<rparr>"

record VersionPage =
  vp_epoch :: u32
  vp_dataPage :: int
  vp_nextPtr :: int

definition nodes_write_versionpage :: "bytes \<Rightarrow> VersionPage \<Rightarrow> bytes" where
  "nodes_write_versionpage slot n =
     (let slot = wr4 slot 0 (vp_epoch n);
          slot = wr4 slot 4 0;
          slot = wr8i slot 8 (vp_dataPage n);
          slot = wr8i slot 16 0
      in wr8i slot 24 (vp_nextPtr n))"

definition nodes_read_versionpage :: "bytes \<Rightarrow> VersionPage" where
  "nodes_read_versionpage slot = \<lparr>vp_epoch = rd4 slot 0, vp_dataPage = rd8i slot 8, vp_nextPtr = rd8i slot 24\<rparr>"

record FileSize =
  fs_epoch :: u32
  fs_modifiedAt :: int
  fs_fileSize :: int
  fs_nextPtr :: int

definition nodes_write_filesize :: "bytes \<Rightarrow> FileSize \<Rightarrow> bytes" where
  "nodes_write_filesize slot n =
     (let slot = wr4 slot 0 (fs_epoch n);
          slot = wr4 slot 4 0;
          slot = wr8i slot 8 (fs_modifiedAt n);
          slot = wr8i slot 16 (fs_fileSize n)
      in wr8i slot 24 (fs_nextPtr n))"

definition nodes_read_filesize :: "bytes \<Rightarrow> FileSize" where
  "nodes_read_filesize slot =
     \<lparr>fs_epoch = rd4 slot 0, fs_modifiedAt = rd8i slot 8, fs_fileSize = rd8i slot 16, fs_nextPtr = rd8i slot 24\<rparr>"

section \<open>Mapper entries\<close>

record MapperEntry =
  me_fromEpoch :: u32
  me_toEpoch :: u32
  me_flags :: u16
  me_nextPtr :: int

definition nodes_write_mapperentry :: "bytes \<Rightarrow> MapperEntry \<Rightarrow> bytes" where
  "nodes_write_mapperentry slot n =
     (let slot = wr4 slot 0 (me_fromEpoch n);
          slot = wr4 slot 4 (me_toEpoch n);
          slot = wr2 slot 8 (me_flags n);
          slot = blit slot 10 (zero_bytes 6);
          slot = wr8i slot 16 (me_nextPtr n)
      in blit slot 24 (zero_bytes 8))"

definition nodes_read_mapperentry :: "bytes \<Rightarrow> MapperEntry" where
  "nodes_read_mapperentry slot =
     \<lparr>me_fromEpoch = rd4 slot 0, me_toEpoch = rd4 slot 4, me_flags = rd2 slot 8, me_nextPtr = rd8i slot 16\<rparr>"

section \<open>Laws\<close>

lemma rd1_blit_disjoint:
  "o2 + length src \<le> length buf \<Longrightarrow> o1 < length buf \<Longrightarrow> o1 < o2 \<or> o2 + length src \<le> o1 \<Longrightarrow>
   rd1 (blit buf o2 src) o1 = rd1 buf o1"
  by (auto simp: rd1_def nth_blit)

lemmas node_defs =
  nodes_write_dirnode_def nodes_read_dirnode_def nodes_write_filenode_def nodes_read_filenode_def
  nodes_write_dircontentindex_def nodes_read_dircontentindex_def nodes_write_dircontentlink_def
  nodes_read_dircontentlink_def nodes_write_anchor_def nodes_read_anchor_def nodes_write_filecontent_def
  nodes_read_filecontent_def nodes_write_pagenode_def nodes_read_pagenode_def nodes_write_dircontent_def
  nodes_read_dircontent_def nodes_write_versionpage_def nodes_read_versionpage_def nodes_write_filesize_def
  nodes_read_filesize_def nodes_write_mapperentry_def nodes_read_mapperentry_def nodes_read_filenode_ctime_def

lemmas node_simps = node_defs Let_def rd1_blit_disjoint

lemma node_length [simp]:
  assumes "length slot = 32"
  shows "length (nodes_write_dirnode slot d) = 32" "length (nodes_write_filenode slot f) = 32"
    "length (nodes_write_dircontentindex slot x) = 32" "length (nodes_write_dircontentlink slot l) = 32"
    "length (nodes_write_anchor slot a) = 32" "length (nodes_write_filecontent slot fc) = 32"
    "length (nodes_write_pagenode slot pn) = 32" "length (nodes_write_dircontent slot dc) = 32"
    "length (nodes_write_versionpage slot vp) = 32" "length (nodes_write_filesize slot fs) = 32"
    "length (nodes_write_mapperentry slot me) = 32"
  using assms by (simp_all add: node_simps)

lemma dirnode_roundtrip [simp]:
  "length slot = 32 \<Longrightarrow> i64 (dn_headPtr n) \<Longrightarrow> i64 (dn_indexHeadPtr n) \<Longrightarrow> i64 (dn_createdAt n) \<Longrightarrow>
   nodes_read_dirnode (nodes_write_dirnode slot n) = n"
  by (simp add: node_simps buf_simps)

lemma filenode_roundtrip [simp]:
  "length slot = 32 \<Longrightarrow> i64 (fn_headPtr n) \<Longrightarrow> i64 (fn_sizePtr n) \<Longrightarrow> i64 (fn_createdAt n) \<Longrightarrow>
   nodes_read_filenode (nodes_write_filenode slot n) = n"
  by (simp add: node_simps buf_simps)

lemma dircontentindex_roundtrip [simp]:
  "length slot = 32 \<Longrightarrow> i64 (ix_listVP n) \<Longrightarrow> i64 (ix_nextVP n) \<Longrightarrow>
   nodes_read_dircontentindex (nodes_write_dircontentindex slot n) = n"
  by (simp add: node_simps buf_simps)

lemma dircontentlink_roundtrip [simp]:
  "length slot = 32 \<Longrightarrow> i64 (lk_dirContentVP n) \<Longrightarrow> i64 (lk_nextVP n) \<Longrightarrow>
   nodes_read_dircontentlink (nodes_write_dircontentlink slot n) = n"
  by (simp add: node_simps buf_simps)

lemma anchor_roundtrip [simp]:
  "length slot = 32 \<Longrightarrow> i64 (an_headPtr n) \<Longrightarrow> i64 (an_sibPtr n) \<Longrightarrow>
   nodes_read_anchor (nodes_write_anchor slot n) = n"
  by (simp add: node_simps buf_simps)

lemma filecontent_roundtrip [simp]:
  "length slot = 32 \<Longrightarrow> i64 (fc_pageRootPtr n) \<Longrightarrow> i64 (fc_nextPtr n) \<Longrightarrow>
   nodes_read_filecontent (nodes_write_filecontent slot n) = n"
  by (simp add: node_simps buf_simps)

lemma pagenode_roundtrip [simp]:
  "length slot = 32 \<Longrightarrow> i64 (pn_versionRootPtr n) \<Longrightarrow> i64 (pn_nextPtr n) \<Longrightarrow>
   nodes_read_pagenode (nodes_write_pagenode slot n) = n"
  by (simp add: node_simps buf_simps)

lemma dircontent_roundtrip [simp]:
  "length slot = 32 \<Longrightarrow> i64 (dc_childPtr n) \<Longrightarrow> i64 (dc_namePtr n) \<Longrightarrow> i64 (dc_nextPtr n) \<Longrightarrow>
   nodes_read_dircontent (nodes_write_dircontent slot n) = n"
  by (simp add: node_simps buf_simps)

lemma versionpage_roundtrip [simp]:
  "length slot = 32 \<Longrightarrow> i64 (vp_dataPage n) \<Longrightarrow> i64 (vp_nextPtr n) \<Longrightarrow>
   nodes_read_versionpage (nodes_write_versionpage slot n) = n"
  by (simp add: node_simps buf_simps)

lemma filesize_roundtrip [simp]:
  "length slot = 32 \<Longrightarrow> i64 (fs_modifiedAt n) \<Longrightarrow> i64 (fs_fileSize n) \<Longrightarrow> i64 (fs_nextPtr n) \<Longrightarrow>
   nodes_read_filesize (nodes_write_filesize slot n) = n"
  by (simp add: node_simps buf_simps)

lemma mapperentry_roundtrip [simp]:
  "length slot = 32 \<Longrightarrow> i64 (me_nextPtr n) \<Longrightarrow>
   nodes_read_mapperentry (nodes_write_mapperentry slot n) = n"
  by (simp add: node_simps buf_simps)



text \<open>
  C16: The typed slots fit the two generic layouts. File segments and page units are anchors: their
  writers leave exactly the bytes the anchor writer leaves for kind 0x20 with id and count 0,
  and for kind 0x30 with the page index as id. The three leaf types read the same through the
  leaf offsets: the epoch at 0, the next pointer at 24, and the payload at 8 and 16 (child and name,
  data page and 0, time and size), so the one chain walker serves all three.
\<close>

theorem nodes_unified_layout:
  assumes "length slot = 32"
    and "i64 (dc_childPtr dc)" "i64 (dc_namePtr dc)" "i64 (dc_nextPtr dc)" "i64 (vp_dataPage vp)" "i64 (vp_nextPtr vp)"
    and "i64 (fs_modifiedAt fs)" "i64 (fs_fileSize fs)" "i64 (fs_nextPtr fs)"
  defines "leaf \<equiv> \<lambda>b. (rd4 b LEAF_OFF_EPOCH, rd8i b LEAF_OFF_PRIMARY, rd8i b LEAF_OFF_SECONDARY, rd8i b LEAF_OFF_NEXTPTR)"
  shows "nodes_write_filecontent slot fc = nodes_write_anchor slot \<lparr>an_kind = ANCHOR_KIND_SEGMENT_FILE, an_id = 0,
      an_headPtr = fc_pageRootPtr fc, an_sibPtr = fc_nextPtr fc, an_count = 0\<rparr> \<and>
    nodes_write_pagenode slot pn = nodes_write_anchor slot \<lparr>an_kind = ANCHOR_KIND_UNIT_PAGE, an_id = pn_page_index pn,
      an_headPtr = pn_versionRootPtr pn, an_sibPtr = pn_nextPtr pn, an_count = 0\<rparr> \<and>
    leaf (nodes_write_dircontent slot dc) = (dc_epoch dc, dc_childPtr dc, dc_namePtr dc, dc_nextPtr dc) \<and>
    leaf (nodes_write_versionpage slot vp) = (vp_epoch vp, vp_dataPage vp, 0, vp_nextPtr vp) \<and>
    leaf (nodes_write_filesize slot fs) = (fs_epoch fs, fs_modifiedAt fs, fs_fileSize fs, fs_nextPtr fs)"
  using assms(1-9) unfolding leaf_def by (simp add: node_simps buf_simps)

theorem nodes_unified_layout_witness:
  "rd8i (nodes_write_versionpage (zero_bytes 32) \<lparr>vp_epoch = 4, vp_dataPage = 12, vp_nextPtr = 65536\<rparr>) 24 = 65536"
  using nodes_unified_layout [of "zero_bytes 32"
      "\<lparr>dc_childNodeId = 2, dc_epoch = 4, dc_childPtr = 65540, dc_namePtr = 65541, dc_nextPtr = 0\<rparr>"
      "\<lparr>vp_epoch = 4, vp_dataPage = 12, vp_nextPtr = 65536\<rparr>"
      "\<lparr>fs_epoch = 4, fs_modifiedAt = -1, fs_fileSize = 70000, fs_nextPtr = 65536\<rparr>"]
  by (simp add: i64_def)

end
