(* ===== verification/Pool.thy ===== *)
theory Pool
  imports Mirror Nodes
begin

text \<open>
  The slot pool (\<^verbatim>\<open>src/pool.h\<close>, \<^verbatim>\<open>src/pool.c\<close>): pages cut into 32-byte slots, a free list
  threaded through the free slots of each page, and a list of pool pages from the superblock.

  \<^item> The \<^verbatim>\<open>Pool\<close> handle is a record holding the storage state, the list head it points to and the
    allocation counter. \<^verbatim>\<open>pool_list_find_free\<close> and \<^verbatim>\<open>pool_alloc\<close> loop without a bound, so they are
    partial functions and None means that the call does not return.
  \<^item> One thread runs at a time, so a compare-and-swap of the value just loaded succeeds; the retry
    branches of \<^verbatim>\<open>pool_list_add\<close>, \<^verbatim>\<open>pool_alloc\<close> and \<^verbatim>\<open>pool_free\<close> for a lost race are not taken.
  \<^item> The locale \<open>slot_store\<close> is what the tree code relies on: acquire copies a slot out, release
    copies it back when it was pinned. It is interpreted on \<^verbatim>\<open>pool_acquire\<close> and \<^verbatim>\<open>pool_release\<close>.
\<close>

section \<open>Virtual pointers and the packed page state\<close>

abbreviation (input) VFS_POOL_FREE_TERMINAL :: u16 where "VFS_POOL_FREE_TERMINAL \<equiv> 0xFFFF"
abbreviation (input) POOL_OFF_NEXT :: nat where "POOL_OFF_NEXT \<equiv> 0"
abbreviation (input) POOL_OFF_STATE :: nat where "POOL_OFF_STATE \<equiv> 8"

definition VFS_VPTR_MAKE :: "int \<Rightarrow> int \<Rightarrow> int" where
  "VFS_VPTR_MAKE pg sl = sint (word_of_int (push_bit 16 pg OR (sl AND 0xFFFF)) :: u64)"

definition VFS_VPTR_PAGE :: "int \<Rightarrow> int" where
  "VFS_VPTR_PAGE vp = uint (drop_bit 16 (word_of_int vp :: u64))"

definition VFS_VPTR_SLOT :: "int \<Rightarrow> nat" where
  "VFS_VPTR_SLOT vp = unat ((word_of_int vp :: u64) AND 0xFFFF)"

definition VFS_POOL_SLOTS_FOR_PAGE :: "nat \<Rightarrow> nat" where
  "VFS_POOL_SLOTS_FOR_PAGE ps = (ps - 16) div 32"

definition slot_offset :: "nat \<Rightarrow> nat" where
  "slot_offset s = 16 + s * 32"

definition pool_state_pack :: "u16 \<Rightarrow> u16 \<Rightarrow> u32" where
  "pool_state_pack free_count first_free = push_bit 16 (ucast free_count) OR ucast first_free"

definition pool_state_free_count :: "u32 \<Rightarrow> u16" where
  "pool_state_free_count state = ucast (drop_bit 16 state)"

definition pool_state_first_free :: "u32 \<Rightarrow> u16" where
  "pool_state_first_free state = ucast (state AND 0xFFFF)"

section \<open>Pages\<close>

definition pool_page_init :: "nat \<Rightarrow> bytes" where
  "pool_page_init ps =
     (let slot_count = min 65535 (VFS_POOL_SLOTS_FOR_PAGE ps);
          payload = zero_bytes ps;
          payload = fold (\<lambda>i b. wr2 b (slot_offset i) (of_nat (i + 1))) [0..<slot_count - 1] payload;
          payload = wr2 payload (slot_offset (slot_count - 1)) VFS_POOL_FREE_TERMINAL;
          payload = wr4 payload POOL_OFF_STATE (pool_state_pack (of_nat slot_count) 0)
      in wr8i payload POOL_OFF_NEXT 0)"

record Pool =
  pool_sb :: StorageBackend
  list_head :: int
  alloc_count :: int

definition pool_init :: "StorageBackend \<Rightarrow> int \<Rightarrow> Pool" where
  "pool_init sb head = \<lparr>pool_sb = sb, list_head = head, alloc_count = 0\<rparr>"

definition pool_list_add :: "Pool \<Rightarrow> int \<Rightarrow> bytes \<Rightarrow> bytes \<times> Pool" where
  "pool_list_add pool page_index payload =
     (wr8i payload POOL_OFF_NEXT (list_head pool), pool\<lparr>list_head := page_index\<rparr>)"

partial_function (option) find_free_from :: "int \<Rightarrow> StorageBackend \<Rightarrow> (int \<times> StorageBackend) option" where
  "find_free_from page sb =
     (if page = 0 then Some (0, sb)
      else
        let (payload, st, sb) = storage_read_with_status sb page in
        case payload of
          None \<Rightarrow> Some (0, sb)
        | Some b \<Rightarrow>
            if pool_state_free_count (rd4 b POOL_OFF_STATE) > 0 then Some (page, sb)
            else find_free_from (rd8i b POOL_OFF_NEXT) sb)"

definition pool_list_find_free :: "Pool \<Rightarrow> (int \<times> Pool) option" where
  "pool_list_find_free pool = do {
     (page, sb) \<leftarrow> find_free_from (list_head pool) (pool_sb pool);
     Some (page, pool\<lparr>pool_sb := sb\<rparr>)
   }"

text \<open>
  Step 2 of \<^verbatim>\<open>pool_alloc\<close>: a new page. The store keeps its own copy of the payload, so the link
  that \<^verbatim>\<open>pool_list_add\<close> puts into the local buffer afterwards is discarded with it.
\<close>

definition pool_new_page :: "Pool \<Rightarrow> (int option \<times> Pool) option" where
  "pool_new_page pool = do {
     (page_index, sb) \<leftarrow> storage_allocate (pool_sb pool) 1;
     if page_index < 0 then Some (None, pool\<lparr>pool_sb := sb\<rparr>)
     else
       let (ok, sb) = malloc sb in
       if \<not> ok then Some (None, pool\<lparr>pool_sb := sb\<rparr>)
       else
         let payload = pool_page_init (page_size sb);
             sb = storage_write sb page_index payload FLUSH_PRIO_POOL;
             (payload, pool) = pool_list_add (pool\<lparr>pool_sb := sb\<rparr>) page_index payload
         in Some (Some page_index, pool)
   }"

partial_function (option) pool_alloc :: "Pool \<Rightarrow> (int \<times> Pool) option" where
  "pool_alloc pool = do {
     (found, pool) \<leftarrow> pool_list_find_free pool;
     (page, pool) \<leftarrow> (if found = 0 then pool_new_page pool else Some (Some found, pool));
     case page of
       None \<Rightarrow> Some (0, pool)
     | Some page_index \<Rightarrow>
         let (payload, st, sb) = storage_read_with_status (pool_sb pool) page_index;
             pool = pool\<lparr>pool_sb := sb\<rparr> in
         case payload of
           None \<Rightarrow> Some (0, pool)
         | Some b \<Rightarrow>
             let state = rd4 b POOL_OFF_STATE;
                 free_count = pool_state_free_count state in
             if free_count = 0 then pool_alloc pool
             else
               let first_free = pool_state_first_free state;
                   next_free = rd2 b (slot_offset (unat first_free));
                   new_state = pool_state_pack (free_count - 1) next_free;
                   sb = cache_poke sb page_index (\<lambda>b. wr4 b POOL_OFF_STATE new_state);
                   sb = sb_mark_dirty sb page_index FLUSH_PRIO_POOL
               in Some (VFS_VPTR_MAKE page_index (uint first_free),
                        pool\<lparr>pool_sb := sb, alloc_count := alloc_count pool + 1\<rparr>)
   }"

section \<open>Slots by value\<close>

record PoolSlot =
  ps_vptr :: int
  pinnedPage :: bool
  ps_bytes :: bytes

definition pool_acquire :: "Pool \<Rightarrow> int \<Rightarrow> bool \<Rightarrow> PoolSlot \<times> Pool" where
  "pool_acquire pool vptr pinPage =
     (let out = \<lparr>ps_vptr = vptr, pinnedPage = False, ps_bytes = zero_bytes 32\<rparr> in
      if vptr = 0 then (out, pool)
      else
        let page_index = VFS_VPTR_PAGE vptr;
            (payload, st, sb) = storage_read_with_status (pool_sb pool) page_index in
        case payload of
          None \<Rightarrow> (out, pool\<lparr>pool_sb := sb\<rparr>)
        | Some b \<Rightarrow>
            let out = out\<lparr>ps_bytes := chunk b (slot_offset (VFS_VPTR_SLOT vptr)) 32\<rparr> in
            if pinPage
            then (out\<lparr>pinnedPage := True\<rparr>, pool\<lparr>pool_sb := sb_mark_dirty sb page_index FLUSH_PRIO_POOL\<rparr>)
            else (out, pool\<lparr>pool_sb := sb\<rparr>))"

definition pool_release :: "Pool \<Rightarrow> PoolSlot \<Rightarrow> PoolSlot \<times> Pool" where
  "pool_release pool slot =
     (if \<not> pinnedPage slot then (slot, pool)
      else
        let page_index = VFS_VPTR_PAGE (ps_vptr slot);
            (payload, st, sb) = storage_read_with_status (pool_sb pool) page_index;
            sb = (case payload of
                    None \<Rightarrow> sb
                  | Some _ \<Rightarrow> cache_poke sb page_index
                      (\<lambda>b. blit b (slot_offset (VFS_VPTR_SLOT (ps_vptr slot))) (ps_bytes slot)));
            sb = sb_mark_dirty sb page_index FLUSH_PRIO_POOL
        in (slot\<lparr>pinnedPage := False\<rparr>, pool\<lparr>pool_sb := sb\<rparr>))"

definition pool_free :: "Pool \<Rightarrow> int \<Rightarrow> vfs_error_t \<times> Pool" where
  "pool_free pool slot_vp =
     (if slot_vp = 0 then (VFS_ERR_IO, pool)
      else
        let page_index = VFS_VPTR_PAGE slot_vp;
            slot_index = VFS_VPTR_SLOT slot_vp in
        if page_index < 2 then (VFS_ERR_IO, pool)
        else
          let (slot_probe, pool) = pool_acquire pool slot_vp False in
          if ps_vptr slot_probe = 0 then (VFS_ERR_IO, pool)
          else
            let (payload, st, sb) = storage_read_with_status (pool_sb pool) page_index;
                pool = pool\<lparr>pool_sb := sb\<rparr> in
            case payload of
              None \<Rightarrow> (VFS_ERR_IO, pool)
            | Some b \<Rightarrow>
                let state = rd4 b POOL_OFF_STATE;
                    free_count = pool_state_free_count state;
                    first_free = pool_state_first_free state;
                    sb = cache_poke sb page_index (\<lambda>b. wr2 b (slot_offset slot_index) first_free);
                    new_state = pool_state_pack (free_count + 1) (of_nat slot_index);
                    sb = cache_poke sb page_index (\<lambda>b. wr4 b POOL_OFF_STATE new_state);
                    sb = sb_mark_dirty sb page_index FLUSH_PRIO_POOL
                in (VFS_OK, pool\<lparr>pool_sb := sb, alloc_count := alloc_count pool - 1\<rparr>))"

section \<open>Laws of the encodings\<close>

lemma vptr_make_arith:
  assumes "0 \<le> pg" "pg < 2 ^ 47" "0 \<le> sl" "sl < 2 ^ 16"
  shows "VFS_VPTR_MAKE pg sl = pg * 65536 + sl"
proof -
  have "sl AND 0xFFFF = take_bit 16 sl" by (simp add: take_bit_eq_mask mask_eq_exp_minus_1)
  then have "push_bit 16 pg OR (sl AND 0xFFFF) = concat_bit 16 sl pg"
    by (simp add: concat_bit_def or.commute)
  also have "\<dots> = pg * 65536 + sl"
    using assms by (simp add: concat_bit_eq take_bit_int_eq_self push_bit_eq_mult)
  finally have eq: "push_bit 16 pg OR (sl AND 0xFFFF) = pg * 65536 + sl" .
  have "i64 (pg * 65536 + sl)" using assms by (simp add: i64_def)
  then show ?thesis unfolding VFS_VPTR_MAKE_def eq by (rule sint_word_of_int_64)
qed

lemma vptr_page_arith: "0 \<le> vp \<Longrightarrow> vp < 2 ^ 63 \<Longrightarrow> VFS_VPTR_PAGE vp = vp div 65536"
  unfolding VFS_VPTR_PAGE_def unsigned_drop_bit_eq uint_word_of_int_eq
  by (simp add: take_bit_int_eq_self drop_bit_eq_div)

lemma vptr_slot_arith: "0 \<le> vp \<Longrightarrow> vp < 2 ^ 63 \<Longrightarrow> VFS_VPTR_SLOT vp = nat (vp mod 65536)"
proof -
  assume vp: "0 \<le> vp" "vp < 2 ^ 63"
  have "(word_of_int vp :: u64) AND 0xFFFF = take_bit 16 (word_of_int vp)"
    by (simp add: take_bit_eq_mask mask_eq_exp_minus_1)
  then have "uint ((word_of_int vp :: u64) AND 0xFFFF) = take_bit 16 (take_bit 64 vp)"
    by (simp only: unsigned_take_bit_eq uint_word_of_int_eq len_bit0 len_num1) simp
  then show ?thesis
    using vp by (simp add: VFS_VPTR_SLOT_def take_bit_int_eq_self flip: nat_uint_eq) (simp add: take_bit_eq_mod)
qed

lemma vptr_roundtrip:
  assumes "0 \<le> pg" "pg < 2 ^ 47" "s < 65536"
  shows "VFS_VPTR_PAGE (VFS_VPTR_MAKE pg (int s)) = pg" "VFS_VPTR_SLOT (VFS_VPTR_MAKE pg (int s)) = s"
    "0 < pg \<Longrightarrow> 0 < VFS_VPTR_MAKE pg (int s)" "VFS_VPTR_MAKE pg (int s) < 2 ^ 63"
proof -
  have m: "VFS_VPTR_MAKE pg (int s) = pg * 65536 + int s" using assms by (simp add: vptr_make_arith)
  have b: "0 \<le> pg * 65536 + int s" "pg * 65536 + int s < 2 ^ 63" using assms by simp_all
  show "VFS_VPTR_PAGE (VFS_VPTR_MAKE pg (int s)) = pg" "VFS_VPTR_SLOT (VFS_VPTR_MAKE pg (int s)) = s"
    "0 < pg \<Longrightarrow> 0 < VFS_VPTR_MAKE pg (int s)" "VFS_VPTR_MAKE pg (int s) < 2 ^ 63"
    using assms b by (simp_all add: m vptr_page_arith vptr_slot_arith)
qed

lemma vptr_eqI:
  assumes "0 \<le> v" "v < 2 ^ 63" "0 \<le> w" "w < 2 ^ 63"
    and "VFS_VPTR_PAGE v = VFS_VPTR_PAGE w" "VFS_VPTR_SLOT v = VFS_VPTR_SLOT w"
  shows "v = w"
proof -
  have "v div 65536 = w div 65536" "v mod 65536 = w mod 65536"
    using assms by (simp_all add: vptr_page_arith vptr_slot_arith)
  then show ?thesis by (metis div_mult_mod_eq)
qed

lemma pool_state_laws [simp]:
  "pool_state_free_count (pool_state_pack n f) = n" "pool_state_first_free (pool_state_pack n f) = f"
proof -
  have "drop_bit 16 (ucast f :: u32) = 0"
    by (rule bit_eqI) (auto simp: bit_drop_bit_eq bit_ucast_iff dest: bit_imp_le_length)
  then show "pool_state_free_count (pool_state_pack n f) = n"
    by (simp add: pool_state_free_count_def pool_state_pack_def)
       (rule bit_eqI, auto simp: bit_ucast_iff bit_drop_bit_eq bit_push_bit_iff bit_or_iff dest: bit_imp_le_length)
  have m: "(w AND 0xFFFF :: u32) = take_bit 16 w" for w
    by (simp add: take_bit_eq_mask mask_eq_exp_minus_1)
  show "pool_state_first_free (pool_state_pack n f) = f"
    unfolding pool_state_first_free_def pool_state_pack_def m
    by (rule bit_eqI) (auto simp: bit_ucast_iff bit_take_bit_iff bit_or_iff bit_push_bit_iff dest: bit_imp_le_length)
qed

section \<open>The slot contract\<close>

text \<open>
  \<open>valid\<close> says which pointers name a whole slot; \<open>look\<close> is what a slot holds. An acquire returns the slot's
  bytes, zeros when it cannot be read, and pins only what it could read. A release of a pinned slot replaces
  exactly that slot.
\<close>

locale slot_store =
  fixes inv :: "'s \<Rightarrow> bool"
    and valid :: "'s \<Rightarrow> int \<Rightarrow> bool"
    and look :: "'s \<Rightarrow> int \<Rightarrow> bytes option"
    and acq :: "'s \<Rightarrow> int \<Rightarrow> bool \<Rightarrow> PoolSlot \<times> 's"
    and rel :: "'s \<Rightarrow> PoolSlot \<Rightarrow> PoolSlot \<times> 's"
  assumes null_law: "acq s 0 pin = (\<lparr>ps_vptr = 0, pinnedPage = False, ps_bytes = zero_bytes 32\<rparr>, s)"
    and look_valid: "look s v = Some b \<Longrightarrow> valid s v"
    and look_length: "inv s \<Longrightarrow> look s v = Some b \<Longrightarrow> length b = 32"
    and acq_law: "inv s \<Longrightarrow> valid s v \<Longrightarrow> acq s v pin = (slot, s') \<Longrightarrow>
      inv s' \<and> look s' = look s \<and> valid s' = valid s \<and> ps_vptr slot = v
      \<and> ps_bytes slot = (case look s v of None \<Rightarrow> zero_bytes 32 | Some b \<Rightarrow> b)
      \<and> (pinnedPage slot \<longleftrightarrow> pin \<and> look s v \<noteq> None)"
    and rel_law: "inv s \<Longrightarrow> length (ps_bytes slot) = 32 \<Longrightarrow> pinnedPage slot \<Longrightarrow> valid s (ps_vptr slot) \<Longrightarrow>
      rel s slot = (slot', s') \<Longrightarrow>
      inv s' \<and> valid s' = valid s \<and> slot' = slot\<lparr>pinnedPage := False\<rparr>
      \<and> look s' = (look s)(ps_vptr slot := map_option (\<lambda>_. ps_bytes slot) (look s (ps_vptr slot)))"
    and rel_unpinned: "\<not> pinnedPage slot \<Longrightarrow> rel s slot = (slot, s)"
begin

text \<open>Acquire pinned, change the copy, release: the update of one slot. The second release is a no-op.\<close>

lemma update_law:
  assumes "inv s" "valid s v" "acq s v True = (slot, s1)" "length b = 32"
    and "rel s1 (slot\<lparr>ps_bytes := b\<rparr>) = (slot', s2)"
  shows "inv s2 \<and> valid s2 = valid s \<and> look s2 = (look s)(v := map_option (\<lambda>_. b) (look s v))
    \<and> rel s2 slot' = (slot', s2)"
proof -
  note a = acq_law [OF assms(1-3)]
  show ?thesis
  proof (cases "look s v")
    case None
    with a have "\<not> pinnedPage (slot\<lparr>ps_bytes := b\<rparr>)" by simp
    from rel_unpinned [OF this, of s1] assms(5) have "s2 = s1" "slot' = slot\<lparr>ps_bytes := b\<rparr>" by simp_all
    with a None \<open>\<not> pinnedPage (slot\<lparr>ps_bytes := b\<rparr>)\<close> show ?thesis by (auto simp: rel_unpinned)
  next
    case (Some b0)
    with a have p: "pinnedPage (slot\<lparr>ps_bytes := b\<rparr>)" "ps_vptr (slot\<lparr>ps_bytes := b\<rparr>) = v" "inv s1"
      "look s1 = look s" "valid s1 = valid s" by simp_all
    from rel_law [OF p(3) _ p(1) _ assms(5)] p assms(2,4) show ?thesis by (simp add: rel_unpinned)
  qed
qed

lemma read_law:
  assumes a: "inv s" "look s v = Some b"
  shows "\<exists>slot s'. acq s v pin = (slot, s') \<and> inv s' \<and> look s' = look s \<and> valid s' = valid s \<and> ps_vptr slot = v
     \<and> ps_bytes slot = b \<and> pinnedPage slot = pin"
proof -
  obtain slot s' where r: "acq s v pin = (slot, s')" by (cases "acq s v pin") auto
  from acq_law [OF a(1) look_valid [OF a(2)] r] r a(2) show ?thesis by simp
qed

end

definition vptr_ok :: "nat \<Rightarrow> int \<Rightarrow> bool" where
  "vptr_ok ps v \<longleftrightarrow> 0 < v \<and> v < 2 ^ 63 \<and> slot_offset (VFS_VPTR_SLOT v) + 32 \<le> ps"

definition pool_inv :: "Pool \<Rightarrow> bool" where
  "pool_inv pool \<longleftrightarrow> store_inv (pool_sb pool)"

definition pool_valid :: "Pool \<Rightarrow> int \<Rightarrow> bool" where
  "pool_valid pool = vptr_ok (page_size (pool_sb pool))"

definition view_slot :: "nat \<Rightarrow> (int \<Rightarrow> bytes option) \<Rightarrow> int \<Rightarrow> bytes option" where
  "view_slot ps view v =
     (if vptr_ok ps v then map_option (\<lambda>b. chunk b (slot_offset (VFS_VPTR_SLOT v)) 32) (view (VFS_VPTR_PAGE v)) else None)"

definition slot_view :: "Pool \<Rightarrow> int \<Rightarrow> bytes option" where
  "slot_view pool = view_slot (page_size (pool_sb pool)) (page_view (pool_sb pool))"

text \<open>Slots of one page do not overlap, and none overlaps the page header.\<close>

lemma slot_offsets_apart: "s \<noteq> t \<Longrightarrow> slot_offset s + 32 \<le> slot_offset t \<or> slot_offset t + 32 \<le> slot_offset s"
  by (auto simp: slot_offset_def)

lemma view_slot_blit:
  assumes "vptr_ok ps v" "length d = 32" "\<And>q b. view q = Some b \<Longrightarrow> length b = ps"
  shows "view_slot ps (view(VFS_VPTR_PAGE v := map_option (\<lambda>b. blit b (slot_offset (VFS_VPTR_SLOT v)) d) (view (VFS_VPTR_PAGE v))))
    = (view_slot ps view)(v := map_option (\<lambda>_. d) (view_slot ps view v))" (is "?l = ?r")
proof
  fix w
  let ?o = "\<lambda>u. slot_offset (VFS_VPTR_SLOT u)"
  show "?l w = ?r w"
  proof (cases "vptr_ok ps w \<and> VFS_VPTR_PAGE w = VFS_VPTR_PAGE v")
    case False
    then show ?thesis using assms(1) by (auto simp: view_slot_def)
  next
    case True
    show ?thesis
    proof (cases "w = v")
      case True
      then show ?thesis using assms
        by (cases "view (VFS_VPTR_PAGE v)") (auto simp: view_slot_def vptr_ok_def chunk_blit_same)
    next
      case False
      with True assms(1) vptr_eqI [of v w] have "VFS_VPTR_SLOT v \<noteq> VFS_VPTR_SLOT w"
        by (auto simp: vptr_ok_def)
      from slot_offsets_apart [OF this] have "chunk (blit b (?o v) d) (?o w) 32 = chunk b (?o w) 32"
        if "view (VFS_VPTR_PAGE v) = Some b" for b
        using assms(1,2) assms(3) [OF that] by (intro chunk_blit_disjoint) (auto simp: vptr_ok_def)
      then show ?thesis using True False by (cases "view (VFS_VPTR_PAGE v)") (auto simp: view_slot_def)
    qed
  qed
qed

interpretation pls: slot_store pool_inv pool_valid slot_view pool_acquire pool_release
proof
  fix s pin show "pool_acquire s 0 pin = (\<lparr>ps_vptr = 0, pinnedPage = False, ps_bytes = zero_bytes 32\<rparr>, s)"
    by (simp add: pool_acquire_def)
next
  fix s v b assume "slot_view s v = Some b"
  then show "pool_valid s v" by (simp add: slot_view_def view_slot_def pool_valid_def split: if_splits)
next
  fix s v b assume "pool_inv s" "slot_view s v = Some b"
  then show "length b = 32"
    by (auto simp: pool_inv_def slot_view_def view_slot_def vptr_ok_def page_view_length split: if_splits)
next
  fix s v pin slot s'
  assume inv: "pool_inv s" and v: "pool_valid s v" and a: "pool_acquire s v pin = (slot, s')"
  obtain r st sb where r: "storage_read_with_status (pool_sb s) (VFS_VPTR_PAGE v) = (r, st, sb)"
    by (metis prod_cases3)
  note law = sbs.rd_law [OF inv [unfolded pool_inv_def] r]
  have vw: "page_view (pool_sb s) (VFS_VPTR_PAGE v) = r" and sb: "store_inv sb" "page_view sb = page_view (pool_sb s)"
      "page_size sb = page_size (pool_sb s)" using law by simp_all
  note mark = sbs.mark_law [OF sb(1), of "VFS_VPTR_PAGE v" FLUSH_PRIO_POOL]
  have ok: "vptr_ok (page_size (pool_sb s)) v" "v \<noteq> 0" using v by (simp_all add: pool_valid_def vptr_ok_def)
  have sv: "slot_view s v = map_option (\<lambda>b. chunk b (slot_offset (VFS_VPTR_SLOT v)) 32) r"
    using ok vw by (simp add: slot_view_def view_slot_def)
  have s': "s' = s\<lparr>pool_sb := if pin \<and> r \<noteq> None then sb_mark_dirty sb (VFS_VPTR_PAGE v) FLUSH_PRIO_POOL else sb\<rparr>"
    "ps_vptr slot = v" "pinnedPage slot \<longleftrightarrow> pin \<and> r \<noteq> None"
    "ps_bytes slot = (case r of None \<Rightarrow> zero_bytes 32 | Some b \<Rightarrow> chunk b (slot_offset (VFS_VPTR_SLOT v)) 32)"
    using a r ok(2) by (auto simp: pool_acquire_def Let_def split: option.splits if_splits)
  have same: "pool_inv s'" "slot_view s' = slot_view s" "pool_valid s' = pool_valid s"
    using mark sb by (simp_all add: s'(1) pool_inv_def slot_view_def pool_valid_def)
  show "pool_inv s' \<and> slot_view s' = slot_view s \<and> pool_valid s' = pool_valid s \<and> ps_vptr slot = v
      \<and> ps_bytes slot = (case slot_view s v of None \<Rightarrow> zero_bytes 32 | Some b \<Rightarrow> b)
      \<and> (pinnedPage slot \<longleftrightarrow> pin \<and> slot_view s v \<noteq> None)"
    using same s'(2-4) by (cases r) (simp_all add: sv)
next
  fix s slot slot' s'
  assume inv: "pool_inv s" and len: "length (ps_bytes slot) = 32" and pin: "pinnedPage slot"
    and v: "pool_valid s (ps_vptr slot)" and rel: "pool_release s slot = (slot', s')"
  let ?v = "ps_vptr slot" let ?p = "VFS_VPTR_PAGE ?v"
  let ?f = "\<lambda>b. blit b (slot_offset (VFS_VPTR_SLOT ?v)) (ps_bytes slot)"
  let ?view = "page_view (pool_sb s)"
  have inv': "store_inv (pool_sb s)" using inv by (simp add: pool_inv_def)
  obtain r st sb where r: "storage_read_with_status (pool_sb s) ?p = (r, st, sb)" by (metis prod_cases3)
  note law = sbs.rd_law [OF inv' r]
  define sb1 where "sb1 = (case r of None \<Rightarrow> sb | Some _ \<Rightarrow> cache_poke sb ?p ?f)"
  have s': "s' = s\<lparr>pool_sb := sb_mark_dirty sb1 ?p FLUSH_PRIO_POOL\<rparr>" "slot' = slot\<lparr>pinnedPage := False\<rparr>"
    using rel pin r by (auto simp: pool_release_def sb1_def Let_def)
  have f: "length b = page_size sb \<Longrightarrow> length (?f b) = length b" for b
    using v len law by (simp add: pool_valid_def vptr_ok_def)
  have sb1: "store_inv sb1" "page_size sb1 = page_size (pool_sb s)"
    "page_view sb1 = ?view(?p := map_option ?f (?view ?p))"
  proof -
    have vw: "?view ?p = r" and sb: "store_inv sb" "page_view sb = ?view" "page_size sb = page_size (pool_sb s)"
      using law by simp_all
    have "store_inv sb1 \<and> page_size sb1 = page_size (pool_sb s) \<and> page_view sb1 = ?view(?p := map_option ?f (?view ?p))"
    proof (cases r)
      case None
      with sb vw show ?thesis by (simp add: sb1_def fun_upd_idem)
    next
      case (Some b)
      with law have "sb_resident sb ?p" by simp
      from sbs.poke_law [where f = ?f, OF sb(1) this f] sb Some show ?thesis by (simp add: sb1_def)
    qed
    then show "store_inv sb1" "page_size sb1 = page_size (pool_sb s)"
      "page_view sb1 = ?view(?p := map_option ?f (?view ?p))" by simp_all
  qed
  note mark = sbs.mark_law [OF sb1(1), of ?p FLUSH_PRIO_POOL]
  have "view_slot (page_size (pool_sb s)) (?view(?p := map_option ?f (?view ?p)))
      = (slot_view s)(?v := map_option (\<lambda>_. ps_bytes slot) (slot_view s ?v))"
    using v len page_view_length [OF inv'] unfolding slot_view_def
    by (intro view_slot_blit) (simp_all add: pool_valid_def)
  then have look: "slot_view s' = (slot_view s)(?v := map_option (\<lambda>_. ps_bytes slot) (slot_view s ?v))"
    using mark sb1 by (simp add: s' slot_view_def)
  show "pool_inv s' \<and> pool_valid s' = pool_valid s \<and> slot' = slot\<lparr>pinnedPage := False\<rparr>
      \<and> slot_view s' = (slot_view s)(?v := map_option (\<lambda>_. ps_bytes slot) (slot_view s ?v))"
    using mark sb1 look by (simp add: s' pool_inv_def pool_valid_def)
next
  fix slot :: PoolSlot and s assume "\<not> pinnedPage slot"
  then show "pool_release s slot = (slot, s)" by (simp add: pool_release_def)
qed

section \<open>A store without loose ends\<close>

text \<open>
  The states the tree works on: no faults, the table invariant, an empty free-page queue, only mapped
  pages in the cache, no mirror link to an unmapped page, and no bytes beyond the data area. Allocation keeps what every page shows.
\<close>

definition links_mapped :: "StorageBackend \<Rightarrow> bool" where
  "links_mapped sb \<longleftrightarrow> (\<forall>q ph. 0 \<le> q \<longrightarrow> q \<le> 1 \<or> indir_lookup sb q \<noteq> 0 \<longrightarrow> rec_header (sb_file sb) (physical_offset sb q) = Some ph \<longrightarrow>
     ph_mirror_page ph = -1 \<or> 0 \<le> sint (ph_mirror_page ph) \<and> indir_lookup sb (sint (ph_mirror_page ph)) \<noteq> 0)"

definition store_ok :: "StorageBackend \<Rightarrow> bool" where
  "store_ok sb \<longleftrightarrow> store_inv sb \<and> table_inv sb \<and> hdr_get sb HDR_OFF_FREE_LIST_COUNT \<le> 0
     \<and> (\<forall>q b. cached (sb_cache sb) q = Some b \<longrightarrow> 0 \<le> q \<and> indir_lookup sb q \<noteq> 0) \<and> links_mapped sb
     \<and> int (length (sb_file sb)) \<le> physical_tail sb"

definition store_room :: "StorageBackend \<Rightarrow> nat \<Rightarrow> bool" where
  "store_room sb k \<longleftrightarrow> physical_tail sb + 2 * int k * phys_record_size sb < 2 ^ 63 \<and> total_pages sb + 2 * int k < 2 ^ 31"

lemma store_room_mono: "store_room sb k \<Longrightarrow> j \<le> k \<Longrightarrow> store_room sb j"
proof -
  assume r: "store_room sb k" and "j \<le> k"
  then have "2 * int j * phys_record_size sb \<le> 2 * int k * phys_record_size sb"
    by (intro mult_right_mono) simp_all
  with r \<open>j \<le> k\<close> show ?thesis unfolding store_room_def by linarith
qed

lemma extends_page_view:
  assumes "extends sb sb'" "links_mapped sb" "0 \<le> q" "indir_lookup sb q \<noteq> 0"
  shows "page_view sb' q = page_view sb q"
proof -
  have e: "page_size sb' = page_size sb" "sb_file sb' = sb_file sb" "sb_cache sb' = sb_cache sb"
    "\<And>q. 0 \<le> q \<Longrightarrow> indir_lookup sb q \<noteq> 0 \<Longrightarrow> indir_lookup sb' q = indir_lookup sb q"
    using assms(1) by (simp_all add: extends_def)
  have l: "indir_lookup sb' q = indir_lookup sb q" using e(4) assms(3,4) by simp
  then have po: "physical_offset sb' q = physical_offset sb q"
    by (simp add: physical_offset_def e(1))
  have "disk_status (sb_file sb) (page_size sb) (indir_lookup sb') (physical_offset sb q)
      = disk_status (sb_file sb) (page_size sb) (indir_lookup sb) (physical_offset sb q)"
  proof (cases "rec_header (sb_file sb) (physical_offset sb q)")
    case (Some ph)
    then have "ph_mirror_page ph = -1 \<or> indir_lookup sb' (sint (ph_mirror_page ph)) = indir_lookup sb (sint (ph_mirror_page ph))"
      using assms(2-4) e(4) unfolding links_mapped_def by metis
    then show ?thesis by (auto simp: disk_status_def Some)
  qed (simp add: disk_status_def)
  then have "disk_page sb' q = disk_page sb q"
    by (simp add: disk_page_eq po e(1,2))
  then show ?thesis using l e(3) by (simp add: page_view_def split: option.split)
qed

lemma store_ok_cache:
  assumes "store_ok sb" "store_inv (sb\<lparr>sb_cache := c\<rparr>)"
    and "\<And>q b. cached c q = Some b \<Longrightarrow> 0 \<le> q \<and> page_view sb q \<noteq> None"
  shows "store_ok (sb\<lparr>sb_cache := c\<rparr>)"
proof -
  have "0 \<le> q \<and> indir_lookup sb q \<noteq> 0" if "cached c q = Some b" for q b
    using assms(3) [OF that] assms(1) by (cases "cached (sb_cache sb) q") (auto simp: store_ok_def page_view_def split: if_splits)
  moreover have "physical_offset (sb\<lparr>sb_cache := c\<rparr>) = physical_offset sb" by (simp add: fun_eq_iff physical_offset_def)
  then have "links_mapped (sb\<lparr>sb_cache := c\<rparr>)"
    using assms(1) by (simp add: store_ok_def links_mapped_def)
  moreover have ti: "table_inv sb" using assms(1) by (simp add: store_ok_def)
  then have "indir_wf (sb\<lparr>sb_cache := c\<rparr>)" by (simp add: table_inv_def indir_wf_def)
  then have "table_inv (sb\<lparr>sb_cache := c\<rparr>)"
    by (intro table_inv_cong [OF ti]) simp_all
  moreover have "hdr_get (sb\<lparr>sb_cache := c\<rparr>) HDR_OFF_FREE_LIST_COUNT \<le> 0"
    "int (length (sb_file sb)) \<le> physical_tail sb" using assms(1) by (simp_all add: store_ok_def)
  ultimately show ?thesis unfolding store_ok_def using assms(2) by simp
qed

lemma page_view_mapped: "store_ok sb \<Longrightarrow> page_view sb q = Some b \<Longrightarrow> indir_lookup sb q \<noteq> 0"
  by (auto simp: store_ok_def page_view_def split: option.splits if_splits)

lemma read_ok:
  assumes "store_ok sb" "storage_read_with_status sb p = (r, st, sb')" "0 \<le> p"
  shows "r = page_view sb p \<and> store_ok sb' \<and> page_view sb' = page_view sb \<and> same_but_cache sb sb'
    \<and> cached (sb_cache sb') p = page_view sb p"
proof -
  have inv: "store_inv sb" using assms(1) by (simp add: store_ok_def)
  from storage_read_law [OF inv assms(2)] obtain c where c: "sb' = sb\<lparr>sb_cache := c\<rparr>" "r = page_view sb p"
    "page_view sb' = page_view sb" "\<forall>b. r = Some b \<longrightarrow> cached c p = Some b"
    "\<forall>q. q \<noteq> p \<longrightarrow> cached c q = cached (sb_cache sb) q" by blast
  have pv: "page_view sb' q = Some b" if "cached c q = Some b" for q b
    using that by (simp add: c(1) page_view_cache)
  have "0 \<le> q" if "cached c q = Some b" for q b
  proof (cases "q = p")
    case False
    with that c(5) have "cached (sb_cache sb) q = Some b" by simp
    then show ?thesis using assms(1) unfolding store_ok_def by blast
  qed (use assms(3) in simp)
  then have dom: "0 \<le> q \<and> page_view sb q \<noteq> None" if "cached c q = Some b" for q b
    using that pv [OF that] c(3) by fastforce
  have "store_inv (sb\<lparr>sb_cache := c\<rparr>)" using sbs.rd_law [OF inv assms(2)] c(1) by blast
  from store_ok_cache [OF assms(1) this dom] have "store_ok sb'" using c(1) by simp
  moreover have "cached c p = r"
  proof (cases r)
    case None
    show ?thesis
    proof (cases "cached c p")
      case (Some b)
      from pv [OF this] have "page_view sb p = Some b" unfolding c(3) .
      with None c(2) show ?thesis by simp
    qed (use None in simp)
  qed (use c(4) in simp)
  ultimately show ?thesis using c(2,3) unfolding same_but_cache_def by (simp add: c(1))
qed

lemma mark_ok:
  assumes "store_ok sb"
  shows "store_ok (sb_mark_dirty sb p n)" "page_view (sb_mark_dirty sb p n) = page_view sb"
    "same_but_cache sb (sb_mark_dirty sb p n)"
    "cached (sb_cache (sb_mark_dirty sb p n)) = cached (sb_cache sb)"
proof -
  have inv: "store_inv sb" using assms by (simp add: store_ok_def)
  then have c: "cached (cache_mark_dirty (sb_cache sb) p n) = cached (sb_cache sb)"
    by (simp add: store_inv_def cache_wf_def)
  show "page_view (sb_mark_dirty sb p n) = page_view sb" using sbs.mark_law [OF inv] by simp
  show "store_ok (sb_mark_dirty sb p n)"
    using assms sbs.mark_law [OF inv, of p n]
    by (intro store_ok_cache) (simp_all add: c page_view_def store_ok_def)
  show "same_but_cache sb (sb_mark_dirty sb p n)" by (simp add: same_but_cache_def)
  show "cached (sb_cache (sb_mark_dirty sb p n)) = cached (sb_cache sb)" using c by simp
qed

lemma poke_ok:
  assumes "store_ok sb" "cached (sb_cache sb) p = Some b" "\<And>b. length b = page_size sb \<Longrightarrow> length (f b) = length b"
  shows "store_ok (cache_poke sb p f)" "page_view (cache_poke sb p f) = (page_view sb)(p \<mapsto> f b)"
    "same_but_cache sb (cache_poke sb p f)"
    "cached (sb_cache (cache_poke sb p f)) = (cached (sb_cache sb))(p \<mapsto> f b)"
proof -
  have inv: "store_inv sb" using assms by (simp add: store_ok_def)
  have v: "page_view sb p = Some b" using assms(2) by (simp add: page_view_def)
  note law = sbs.poke_law [OF inv _ assms(3), of p]
  from poke_laws [OF inv assms(2,3)] obtain c where
    c: "store_inv (cache_poke sb p f)" "cached (sb_cache (cache_poke sb p f)) = (cached (sb_cache sb))(p \<mapsto> f b)"
      "cache_poke sb p f = sb\<lparr>sb_cache := c\<rparr>" by blast
  show "cached (sb_cache (cache_poke sb p f)) = (cached (sb_cache sb))(p \<mapsto> f b)" by (rule c(2))
  show "same_but_cache sb (cache_poke sb p f)" by (simp add: same_but_cache_def c(3))
  show "page_view (cache_poke sb p f) = (page_view sb)(p \<mapsto> f b)"
    using law v assms(2) by (simp add: sb_resident_def)
  show "store_ok (cache_poke sb p f)"
  proof -
    have "0 \<le> q \<and> page_view sb q \<noteq> None" if "cached c q = Some b'" for q b'
    proof (cases "q = p")
      case True
      then show ?thesis using v assms(1,2) unfolding store_ok_def by blast
    next
      case False
      with that c have "cached (sb_cache sb) q = Some b'" by simp
      then show ?thesis using assms(1) unfolding store_ok_def by (simp add: page_view_def)
    qed
    then show ?thesis unfolding c(3) using assms(1) c(1,3) by (intro store_ok_cache) simp_all
  qed
qed

section \<open>The free list of a page\<close>

primrec chain_slots :: "nat \<Rightarrow> bytes \<Rightarrow> u16 \<Rightarrow> nat list" where
  "chain_slots 0 b f = []"
| "chain_slots (Suc n) b f = unat f # chain_slots n b (rd2 b (slot_offset (unat f)))"

definition free_slots :: "bytes \<Rightarrow> nat list" where
  "free_slots b = chain_slots (unat (pool_state_free_count (rd4 b POOL_OFF_STATE))) b
     (pool_state_first_free (rd4 b POOL_OFF_STATE))"

definition pool_slots :: "nat \<Rightarrow> nat" where
  "pool_slots ps = min 65535 (VFS_POOL_SLOTS_FOR_PAGE ps)"

definition pool_page_ok :: "nat \<Rightarrow> bytes \<Rightarrow> bool" where
  "pool_page_ok ps b \<longleftrightarrow> distinct (free_slots b) \<and> (\<forall>s \<in> set (free_slots b). s < pool_slots ps)"

lemma pool_slots_offset: "s < pool_slots ps \<Longrightarrow> slot_offset s + 32 \<le> ps"
  unfolding pool_slots_def VFS_POOL_SLOTS_FOR_PAGE_def slot_offset_def by linarith

lemma pool_slots_less: "s < pool_slots ps \<Longrightarrow> s < 65535"
  by (simp add: pool_slots_def)

lemma free_slots_length: "length (free_slots b) = unat (pool_state_free_count (rd4 b POOL_OFF_STATE))"
proof -
  have "length (chain_slots n b f) = n" for n f by (induction n arbitrary: f) auto
  then show ?thesis by (simp add: free_slots_def)
qed

lemma chain_slots_cong:
  "(\<And>s. s \<in> set (chain_slots n b f) \<Longrightarrow> rd2 b' (slot_offset s) = rd2 b (slot_offset s)) \<Longrightarrow>
   chain_slots n b' f = chain_slots n b f"
  by (induction n arbitrary: f) simp_all

lemma slot_offset_ge: "16 \<le> slot_offset s"
  by (simp add: slot_offset_def)

text \<open>Taking the first slot: only the state word changes.\<close>

lemma free_slots_pop:
  assumes "free_slots b = s # ss" "16 \<le> length b"
    and "n = pool_state_free_count (rd4 b POOL_OFF_STATE)" "f = pool_state_first_free (rd4 b POOL_OFF_STATE)"
  shows "unat f = s" "n \<noteq> 0" "free_slots (wr4 b POOL_OFF_STATE (pool_state_pack (n - 1) (rd2 b (slot_offset s)))) = ss"
proof -
  let ?b = "wr4 b POOL_OFF_STATE (pool_state_pack (n - 1) (rd2 b (slot_offset s)))"
  from assms(1) obtain m where m: "unat n = Suc m" by (cases "unat n") (auto simp: free_slots_def assms(3))
  then show n: "n \<noteq> 0" by auto
  from m assms(1) show f: "unat f = s" by (simp add: free_slots_def assms(3,4))
  have "unat (n - 1) = m" using m n by (simp add: unat_minus_one)
  moreover have "rd2 ?b (slot_offset t) = rd2 b (slot_offset t)" for t
    using assms(2) slot_offset_ge [of t] by (simp add: buf_simps)
  then have "chain_slots m ?b g = chain_slots m b g" for g by (intro chain_slots_cong) simp
  ultimately show "free_slots ?b = ss"
    using assms(1,2) m f by (simp add: free_slots_def buf_simps assms(3,4))
qed

text \<open>Pushing a slot that is not on the list.\<close>

lemma free_slots_push:
  assumes "pool_page_ok (length b) b" "s \<notin> set (free_slots b)" "s < pool_slots (length b)"
    and "n = pool_state_free_count (rd4 b POOL_OFF_STATE)" "f = pool_state_first_free (rd4 b POOL_OFF_STATE)"
  defines "b' \<equiv> wr4 (wr2 b (slot_offset s) f) POOL_OFF_STATE (pool_state_pack (n + 1) (of_nat s))"
  shows "free_slots b' = s # free_slots b" "pool_page_ok (length b) b'" "length b' = length b"
proof -
  let ?m = "pool_slots (length b)"
  have off: "slot_offset s + 32 \<le> length b" using assms(3) by (rule pool_slots_offset)
  have len: "16 \<le> length b" using off slot_offset_ge [of s] by linarith
  show "length b' = length b" using off len by (simp add: b'_def)
  have "insert s (set (free_slots b)) \<subseteq> {..<?m}" using assms(1,3) by (auto simp: pool_page_ok_def)
  from card_mono [OF _ this] have "Suc (length (free_slots b)) \<le> ?m"
    using assms(1,2) by (simp add: pool_page_ok_def distinct_card)
  then have n: "unat (n + 1) = Suc (unat n)"
    by (simp add: free_slots_length assms(4) [symmetric] pool_slots_def unat_word_ariths)
  have s: "unat (of_nat s :: u16) = s" using pool_slots_less [OF assms(3)] by (simp add: unat_of_nat)
  have "rd2 b' (slot_offset t) = rd2 b (slot_offset t)" if "t \<in> set (free_slots b)" for t
  proof -
    have "t \<noteq> s" "slot_offset t + 32 \<le> length b"
      using that assms(1,2) by (auto simp: pool_page_ok_def intro: pool_slots_offset)
    with slot_offsets_apart [of t s] slot_offset_ge [of s] slot_offset_ge [of t] off show ?thesis
      by (auto simp: b'_def buf_simps)
  qed
  then have "chain_slots (unat n) b' f = free_slots b"
    unfolding free_slots_def assms(4,5) by (intro chain_slots_cong) simp
  moreover have "rd2 b' (slot_offset s) = f" "rd4 b' POOL_OFF_STATE = pool_state_pack (n + 1) (of_nat s)"
    using off len slot_offset_ge [of s] by (simp_all add: b'_def buf_simps)
  ultimately show "free_slots b' = s # free_slots b"
    unfolding free_slots_def [of b'] by (simp add: n s)
  then show "pool_page_ok (length b) b'" using assms(1-3) by (simp add: pool_page_ok_def)
qed

text \<open>A fresh page: every slot is on the list, in order.\<close>

lemma init_links:
  assumes "slot_offset k \<le> length b"
  defines "g \<equiv> fold (\<lambda>i b. wr2 b (slot_offset i) (of_nat (i + 1))) [0..<k] b"
  shows "length g = length b \<and> (\<forall>i < k. rd2 g (slot_offset i) = of_nat (i + 1))"
  using assms(1) unfolding g_def
proof (induction k)
  case (Suc k)
  let ?g = "fold (\<lambda>i b. wr2 b (slot_offset i) (of_nat (i + 1))) [0..<k] b"
  have k: "slot_offset k + 32 \<le> length b" using Suc.prems by (simp add: slot_offset_def)
  with Suc.IH have ih: "length ?g = length b" "\<And>i. i < k \<Longrightarrow> rd2 ?g (slot_offset i) = of_nat (i + 1)" by simp_all
  have "rd2 (wr2 ?g (slot_offset k) (of_nat (k + 1))) (slot_offset i) = of_nat (i + 1)" if "i < Suc k" for i
  proof (cases "i = k")
    case False
    with that have "slot_offset i + 32 \<le> slot_offset k" by (simp add: slot_offset_def)
    with False that k ih show ?thesis by (simp add: buf_simps)
  qed (use k ih in \<open>simp add: buf_simps\<close>)
  with k ih show ?case by simp
qed simp

lemma chain_slots_upt:
  "(\<And>j. i \<le> j \<Longrightarrow> Suc j < i + n \<Longrightarrow> rd2 b (slot_offset j) = of_nat (j + 1)) \<Longrightarrow> i + n \<le> 65536 \<Longrightarrow>
   chain_slots n b (of_nat i) = [i..<i + n]"
proof (induction n arbitrary: i)
  case (Suc n)
  have i: "unat (of_nat i :: u16) = i" using Suc.prems(2) by (simp add: unat_of_nat)
  show ?case
  proof (cases n)
    case (Suc m)
    then have "rd2 b (slot_offset i) = of_nat (Suc i)" using Suc.prems(1) [of i] by simp
    moreover have "chain_slots n b (of_nat (Suc i)) = [Suc i..<Suc i + n]"
      using Suc.prems by (intro Suc.IH) auto
    ultimately show ?thesis using i by (simp add: upt_conv_Cons del: of_nat_Suc)
  qed (simp add: i)
qed simp

lemma pool_page_init_ok:
  assumes "48 \<le> ps"
  shows "length (pool_page_init ps) = ps" "free_slots (pool_page_init ps) = [0..<pool_slots ps]"
    "pool_page_ok ps (pool_page_init ps)" "rd8i (pool_page_init ps) POOL_OFF_NEXT = 0" "0 < pool_slots ps"
proof -
  define n where "n = pool_slots ps"
  have n: "0 < n" "n \<le> 65535" using assms by (auto simp: n_def pool_slots_def VFS_POOL_SLOTS_FOR_PAGE_def)
  show "0 < pool_slots ps" using n by (simp add: n_def)
  have last: "slot_offset (n - 1) + 32 \<le> ps" using n by (intro pool_slots_offset) (simp add: n_def)
  let ?g = "fold (\<lambda>i b. wr2 b (slot_offset i) (of_nat (i + 1))) [0..<n - 1] (zero_bytes ps)"
  let ?h = "wr2 ?g (slot_offset (n - 1)) VFS_POOL_FREE_TERMINAL"
  have g: "length ?g = ps" "\<And>i. i < n - 1 \<Longrightarrow> rd2 ?g (slot_offset i) = of_nat (i + 1)"
    using init_links [of "n - 1" "zero_bytes ps"] last by simp_all
  have h: "length ?h = ps" using g last by simp
  have b: "pool_page_init ps = wr8i (wr4 ?h POOL_OFF_STATE (pool_state_pack (of_nat n) 0)) POOL_OFF_NEXT 0"
    by (simp add: pool_page_init_def Let_def n_def pool_slots_def)
  show len: "length (pool_page_init ps) = ps" using h assms by (simp add: b)
  show "rd8i (pool_page_init ps) POOL_OFF_NEXT = 0" using h assms by (simp add: b buf_simps)
  have st: "rd4 (pool_page_init ps) POOL_OFF_STATE = pool_state_pack (of_nat n) 0" using h assms by (simp add: b buf_simps)
  have "rd2 (pool_page_init ps) (slot_offset j) = of_nat (j + 1)" if "Suc j < n" for j
  proof -
    have "slot_offset j + 32 \<le> slot_offset (n - 1)" using that by (simp add: slot_offset_def)
    with that last g h slot_offset_ge [of j] assms show ?thesis by (simp add: b buf_simps)
  qed
  then have "chain_slots n (pool_page_init ps) (of_nat 0) = [0..<0 + n]" using n by (intro chain_slots_upt) simp_all
  moreover have "unat (of_nat n :: u16) = n" using n by (simp add: unat_of_nat)
  ultimately show fs: "free_slots (pool_page_init ps) = [0..<pool_slots ps]"
    by (simp add: free_slots_def st n_def)
  then show "pool_page_ok ps (pool_page_init ps)" by (simp add: pool_page_ok_def)
qed

section \<open>The list of pool pages\<close>

primrec pool_pages :: "(int \<Rightarrow> bytes option) \<Rightarrow> int \<Rightarrow> int list \<Rightarrow> bool" where
  "pool_pages view h [] \<longleftrightarrow> h = 0"
| "pool_pages view h (p # ps) \<longleftrightarrow> h = p \<and> p \<noteq> 0 \<and> (\<exists>b. view p = Some b \<and> pool_pages view (rd8i b POOL_OFF_NEXT) ps)"

lemma pool_pages_members: "pool_pages view h xs \<Longrightarrow> q \<in> set xs \<Longrightarrow> q \<noteq> 0 \<and> view q \<noteq> None"
  by (induction xs arbitrary: h) auto

lemma pool_pages_unique: "pool_pages view h xs \<Longrightarrow> pool_pages view h ys \<Longrightarrow> xs = ys"
proof (induction xs arbitrary: h ys)
  case Nil
  then show ?case by (cases ys) auto
next
  case (Cons x xs)
  then show ?case by (cases ys) auto
qed

definition has_free :: "(int \<Rightarrow> bytes option) \<Rightarrow> int \<Rightarrow> bool" where
  "has_free view p \<longleftrightarrow> (case view p of None \<Rightarrow> False | Some b \<Rightarrow> free_slots b \<noteq> [])"

definition first_free_page :: "(int \<Rightarrow> bytes option) \<Rightarrow> int list \<Rightarrow> int" where
  "first_free_page view pages = (case find (has_free view) pages of None \<Rightarrow> 0 | Some p \<Rightarrow> p)"

definition pool_ok :: "Pool \<Rightarrow> bool" where
  "pool_ok pool \<longleftrightarrow> store_ok (pool_sb pool) \<and> (\<exists>pages. pool_pages (page_view (pool_sb pool)) (list_head pool) pages \<and>
     (\<forall>p \<in> set pages. 2 \<le> p \<and> p < 2 ^ 31 \<and>
        (\<forall>b. page_view (pool_sb pool) p = Some b \<longrightarrow> pool_page_ok (page_size (pool_sb pool)) b)))"

text \<open>A slot in use: it can be read and is not on the free list of its page.\<close>

definition live :: "Pool \<Rightarrow> int \<Rightarrow> bool" where
  "live pool v \<longleftrightarrow> vptr_ok (page_size (pool_sb pool)) v \<and>
     (case page_view (pool_sb pool) (VFS_VPTR_PAGE v) of None \<Rightarrow> False | Some b \<Rightarrow> VFS_VPTR_SLOT v \<notin> set (free_slots b))"

lemma free_slots_nonempty: "free_slots b \<noteq> [] \<longleftrightarrow> 0 < pool_state_free_count (rd4 b POOL_OFF_STATE)"
proof -
  have "free_slots b \<noteq> [] \<longleftrightarrow> 0 < length (free_slots b)" by simp
  also have "\<dots> \<longleftrightarrow> 0 < pool_state_free_count (rd4 b POOL_OFF_STATE)"
    by (simp add: free_slots_length unat_gt_0 word_neq_0_conv)
  finally show ?thesis .
qed

lemma find_free_law:
  assumes "store_ok sb" "pool_pages (page_view sb) h pages" "\<And>p. p \<in> set pages \<Longrightarrow> 0 \<le> p"
  shows "\<exists>sb'. find_free_from h sb = Some (first_free_page (page_view sb) pages, sb') \<and> store_ok sb'
    \<and> page_view sb' = page_view sb \<and> same_but_cache sb sb'"
  using assms
proof (induction pages arbitrary: h sb)
  case Nil
  then show ?case by (auto simp: find_free_from.simps first_free_page_def)
next
  case (Cons p pages)
  from Cons.prems obtain b where b: "h = p" "p \<noteq> 0" "page_view sb p = Some b"
    "pool_pages (page_view sb) (rd8i b POOL_OFF_NEXT) pages" "0 \<le> p" by auto
  obtain r st sb1 where r: "storage_read_with_status sb p = (r, st, sb1)" by (metis prod_cases3)
  note law = read_ok [OF Cons.prems(1) r b(5)]
  show ?case
  proof (cases "free_slots b = []")
    case False
    then have "find_free_from h sb = Some (p, sb1)"
      using b r law free_slots_nonempty [of b] by (simp add: find_free_from.simps)
    moreover have "first_free_page (page_view sb) (p # pages) = p"
      using False b by (simp add: first_free_page_def has_free_def)
    ultimately show ?thesis using law by auto
  next
    case True
    then have "find_free_from h sb = find_free_from (rd8i b POOL_OFF_NEXT) sb1"
      using b r law free_slots_nonempty [of b] by (subst find_free_from.simps) simp
    moreover have "first_free_page (page_view sb) (p # pages) = first_free_page (page_view sb) pages"
      using True b by (simp add: first_free_page_def has_free_def)
    moreover from Cons.IH [of sb1 "rd8i b POOL_OFF_NEXT"] law b(4) Cons.prems(3) obtain sb' where
      "find_free_from (rd8i b POOL_OFF_NEXT) sb1 = Some (first_free_page (page_view sb) pages, sb')" "store_ok sb'"
      "page_view sb' = page_view sb" "same_but_cache sb1 sb'" by auto
    ultimately show ?thesis using law same_but_cache_trans by auto
  qed
qed

lemma first_free_page_cases:
  assumes "pool_pages view h pages"
  obtains (found) p b where "first_free_page view pages = p" "p \<in> set pages" "p \<noteq> 0" "view p = Some b" "free_slots b \<noteq> []"
  | (full) "first_free_page view pages = 0" "\<And>p b. p \<in> set pages \<Longrightarrow> view p = Some b \<Longrightarrow> free_slots b = []"
proof (cases "find (has_free view) pages")
  case None
  then have "free_slots b = []" if "p \<in> set pages" "view p = Some b" for p b
    using that by (auto simp: find_None_iff has_free_def split: option.splits)
  then show thesis using full None by (simp add: first_free_page_def)
next
  case (Some p)
  then have "p \<in> set pages" "has_free view p" by (auto simp: find_Some_iff)
  moreover have "0 \<notin> set pages" using pool_pages_members [OF assms] by blast
  ultimately show thesis
    using found Some by (auto simp: first_free_page_def has_free_def split: option.splits)
qed

section \<open>Allocation\<close>

lemma same_but_cache_fields:
  "same_but_cache sb sb' \<Longrightarrow> page_size sb' = page_size sb \<and> store_room sb' k = store_room sb k"
  unfolding same_but_cache_def by (cases sb; cases sb') (simp add: store_room_def phys_record_size_def)

text \<open>Step 3 to 11 of \<^verbatim>\<open>pool_alloc\<close> on a page with a free slot.\<close>

lemma pool_alloc_take:
  assumes ok: "store_ok (pool_sb pool)" and p: "0 \<le> p" "page_view (pool_sb pool) p = Some b" "free_slots b = s # ss"
    and find: "pool_list_find_free pool0 = Some (q, pool1)"
      "(if q = 0 then pool_new_page pool1 else Some (Some q, pool1)) = Some (Some p, pool)"
  shows "\<exists>sb' b'. pool_alloc pool0 = Some (VFS_VPTR_MAKE p (int s), pool\<lparr>pool_sb := sb', alloc_count := alloc_count pool + 1\<rparr>)
    \<and> store_ok sb' \<and> same_but_cache (pool_sb pool) sb' \<and> page_view sb' = (page_view (pool_sb pool))(p \<mapsto> b')
    \<and> length b' = length b \<and> free_slots b' = ss \<and> rd8i b' POOL_OFF_NEXT = rd8i b POOL_OFF_NEXT
    \<and> (\<forall>t. chunk b' (slot_offset t) 32 = chunk b (slot_offset t) 32)"
proof -
  let ?sb = "pool_sb pool"
  obtain r st sb1 where r: "storage_read_with_status ?sb p = (r, st, sb1)" by (metis prod_cases3)
  note law = read_ok [OF ok r p(1)]
  define n where "n = pool_state_free_count (rd4 b POOL_OFF_STATE)"
  define f where "f = pool_state_first_free (rd4 b POOL_OFF_STATE)"
  define w where "w = pool_state_pack (n - 1) (rd2 b (slot_offset s))"
  have inv: "store_inv ?sb" "table_inv ?sb" using ok by (simp_all add: store_ok_def)
  have len: "length b = page_size ?sb" "128 \<le> length b"
    using page_view_length [OF inv(1) p(2)] inv(2) by (simp_all add: table_inv_def indir_wf_def)
  have pop: "unat f = s" "n \<noteq> 0" "free_slots (wr4 b POOL_OFF_STATE w) = ss"
    using free_slots_pop [OF p(3) _ n_def f_def] len by (simp_all add: w_def)
  let ?g = "\<lambda>b. wr4 b POOL_OFF_STATE w"
  have ps: "page_size sb1 = page_size ?sb" using law same_but_cache_fields by blast
  have g: "length b = page_size sb1 \<Longrightarrow> length (?g b) = length b" for b using len ps by simp
  have c: "cached (sb_cache sb1) p = Some b" "store_ok sb1" using law p(2) by simp_all
  note poke = poke_ok [where f = ?g, OF c(2,1) g]
  let ?sb2 = "cache_poke sb1 p ?g"
  note mark = mark_ok [OF poke(1), of p FLUSH_PRIO_POOL]
  let ?sb3 = "sb_mark_dirty ?sb2 p FLUSH_PRIO_POOL"
  have "pool_alloc pool0 = Some (VFS_VPTR_MAKE p (int s), pool\<lparr>pool_sb := ?sb3, alloc_count := alloc_count pool + 1\<rparr>)"
  proof -
    have "r = Some b" using law p(2) by simp
    moreover have "uint f = int s" using pop(1) by (simp add: uint_nat)
    ultimately show ?thesis
      using find r pop(1,2) by (subst pool_alloc.simps) (simp add: w_def n_def f_def Let_def)
  qed
  moreover have "same_but_cache ?sb ?sb3" using law poke(3) mark(3) same_but_cache_trans by blast
  moreover have "chunk (?g b) (slot_offset t) 32 = chunk b (slot_offset t) 32" for t
    using len slot_offset_ge [of t] by (simp add: wr4_def chunk_blit_disjoint del: le_bytes.simps)
  moreover have "rd8i (?g b) POOL_OFF_NEXT = rd8i b POOL_OFF_NEXT" "length (?g b) = length b"
    using len by (simp_all add: buf_simps)
  moreover have "page_view ?sb3 = (page_view ?sb)(p \<mapsto> ?g b)" using poke(2) mark(2) law by simp
  ultimately show ?thesis using mark(1) pop(3) by blast
qed

text \<open>A page allocation keeps the state in order and changes no page that shows content.\<close>

lemma allocate_ok:
  assumes ok: "store_ok sb" and room: "store_room sb (Suc k)"
  shows "\<exists>p sb'. storage_allocate sb 1 = Some (p, sb') \<and> store_ok sb' \<and> store_room sb' k \<and> 2 \<le> p \<and> p < 2 ^ 31
    \<and> page_view sb p = None \<and> indir_lookup sb' p \<noteq> 0 \<and> page_size sb' = page_size sb \<and> sb_heap sb' = []
    \<and> (\<forall>q b. page_view sb q = Some b \<longrightarrow> 0 \<le> q \<longrightarrow> page_view sb' q = Some b)"
proof -
  have inv: "store_inv sb" "table_inv sb" "hdr_get sb HDR_OFF_FREE_LIST_COUNT \<le> 0" "links_mapped sb"
    "int (length (sb_file sb)) \<le> physical_tail sb"
    and cm: "\<And>q b. cached (sb_cache sb) q = Some b \<Longrightarrow> 0 \<le> q \<and> indir_lookup sb q \<noteq> 0"
    using ok by (simp_all add: store_ok_def)
  have h: "sb_heap sb = []" using inv(1) by (simp add: store_inv_def healthy_def)
  have rm: "physical_tail sb + 2 * phys_record_size sb + 2 * int k * phys_record_size sb < 2 ^ 63"
    "total_pages sb + 2 * int k + 2 < 2 ^ 31" using room by (simp_all add: store_room_def algebra_simps)
  have nn: "0 \<le> 2 * int k * phys_record_size sb" by simp
  have "physical_tail sb + 2 * phys_record_size sb < 2 ^ 63" using rm(1) nn by linarith
  from tail_advance_ok [OF inv(2) h this] obtain p sb' where
    r: "storage_allocate_tail_advance sb 1 = Some (p, sb')" "table_inv sb'" "extends sb sb'" "total_pages sb \<le> p"
      "p \<le> total_pages sb + 1" "total_pages sb' = p + 1" "indir_lookup sb p = 0"
      "physical_tail sb \<le> indir_lookup sb' p" "physical_tail sb' \<le> physical_tail sb + 2 * phys_record_size sb" by blast
  have e: "page_size sb' = page_size sb" "sb_file sb' = sb_file sb" "sb_io sb' = sb_io sb" "sb_heap sb' = sb_heap sb"
    "sb_cache sb' = sb_cache sb" "take 96 (header_buf sb') = take 96 (header_buf sb)" "physical_tail sb \<le> physical_tail sb'"
    and el: "\<And>q. 0 \<le> q \<Longrightarrow> indir_lookup sb q \<noteq> 0 \<Longrightarrow> indir_lookup sb' q = indir_lookup sb q"
    and en: "\<And>q. 0 \<le> q \<Longrightarrow> indir_lookup sb q = 0 \<Longrightarrow> indir_lookup sb' q = 0 \<or> physical_tail sb \<le> indir_lookup sb' q"
    using r(3) by (simp_all add: extends_def)
  have pos: "2 \<le> p" "0 < physical_tail sb" using r(4) inv(2) by (simp_all add: table_inv_def records_ok_def)
  have "storage_allocate sb 1 = Some (p, sb')"
  proof -
    have "dequeue_loop (Suc retry) sb = (0, sb)" for retry using inv(3) by simp
    from this [of 999] have "dequeue_from_free_list sb = (0, sb)" by (simp add: dequeue_from_free_list_def)
    then show ?thesis using r(1) by (simp add: storage_allocate_def)
  qed
  moreover have "hdr_get sb' HDR_OFF_FREE_LIST_COUNT = hdr_get sb HDR_OFF_FREE_LIST_COUNT"
    using rd8_take [of HDR_OFF_FREE_LIST_COUNT 96 "header_buf sb'"] rd8_take [of HDR_OFF_FREE_LIST_COUNT 96 "header_buf sb"] e(6) by simp
  moreover have "store_inv sb'"
    by (rule store_inv_frame [OF inv(1) e(3,4,1)]) (use inv(1) e(5) in \<open>simp_all add: store_inv_def\<close>)
  moreover have "store_room sb' k"
  proof -
    have "phys_record_size sb' = phys_record_size sb" using e(1) by (simp add: phys_record_size_def)
    then have "physical_tail sb' + 2 * int k * phys_record_size sb' \<le> physical_tail sb + 2 * phys_record_size sb
        + 2 * int k * phys_record_size sb" using r(9) by simp
    moreover have "total_pages sb' + 2 * int k < 2 ^ 31" using rm(2) r(5,6) by linarith
    ultimately show ?thesis using rm(1) unfolding store_room_def by (blast intro: order_le_less_trans)
  qed
  moreover have "page_view sb' q = Some b" if "page_view sb q = Some b" "0 \<le> q" for q b
    using extends_page_view [OF r(3) inv(4) that(2) page_view_mapped [OF ok that(1)]] that(1) by simp
  moreover have "page_view sb p = None" using r(7) cm [of p] by (cases "cached (sb_cache sb) p") (auto simp: page_view_def)
  moreover have "p < 2 ^ 31" using r(5) rm(2) by linarith
  moreover have "indir_lookup sb' p \<noteq> 0" using r(8) pos(2) by simp
  moreover have "links_mapped sb'"
    unfolding links_mapped_def
  proof (intro allI impI)
    fix q ph assume q: "0 \<le> q" "q \<le> 1 \<or> indir_lookup sb' q \<noteq> 0" "rec_header (sb_file sb') (physical_offset sb' q) = Some ph"
    have old: "(q \<le> 1 \<or> indir_lookup sb q \<noteq> 0) \<and> physical_offset sb' q = physical_offset sb q"
    proof (cases "q \<le> 1 \<or> indir_lookup sb q \<noteq> 0")
      case True
      with q(1) el [of q] e(1) show ?thesis by (auto simp: physical_offset_def)
    next
      case False
      with en [of q] q have "physical_tail sb \<le> physical_offset sb' q" by (auto simp: physical_offset_def)
      with q(3) inv(5) e(2) show ?thesis by (auto simp: rec_header_def split: if_splits)
    qed
    with q(1,3) e(2) inv(4) have "ph_mirror_page ph = -1 \<or>
        0 \<le> sint (ph_mirror_page ph) \<and> indir_lookup sb (sint (ph_mirror_page ph)) \<noteq> 0"
      unfolding links_mapped_def by metis
    with el [of "sint (ph_mirror_page ph)"] show "ph_mirror_page ph = -1 \<or>
        0 \<le> sint (ph_mirror_page ph) \<and> indir_lookup sb' (sint (ph_mirror_page ph)) \<noteq> 0" by auto
  qed
  ultimately show ?thesis
    using r(2) pos(1) e(1,2,4,5,7) inv(3,5) h cm el by (intro exI [of _ p] exI [of _ sb']) (auto simp: store_ok_def)
qed

lemma write_ok:
  assumes ok: "store_ok sb" and p: "0 \<le> p" "indir_lookup sb p \<noteq> 0" and len: "length b = page_size sb"
  shows "store_ok (storage_write sb p b n)" "page_view (storage_write sb p b n) = (page_view sb)(p \<mapsto> b)"
    "same_but_cache sb (storage_write sb p b n)"
proof -
  have inv: "store_inv sb" using ok by (simp add: store_ok_def)
  note law = sbs.wr_law [OF inv len, of p n]
  show "page_view (storage_write sb p b n) = (page_view sb)(p \<mapsto> b)" using law by simp
  from inv cache_insert_healthy [of sb p b n True] obtain c where
    c: "storage_write sb p b n = sb\<lparr>sb_cache := c\<rparr>" "cached c = (cached (sb_cache sb))(p \<mapsto> b)"
    by (auto simp: store_inv_def storage_write_def)
  show "same_but_cache sb (storage_write sb p b n)" by (simp add: c(1) same_but_cache_def)
  have "0 \<le> q \<and> indir_lookup sb q \<noteq> 0" if "cached c q = Some b'" for q b'
    using that p ok unfolding c(2) store_ok_def by (cases "q = p") auto
  moreover have "physical_offset (sb\<lparr>sb_cache := c\<rparr>) = physical_offset sb" by (simp add: fun_eq_iff physical_offset_def)
  then have "links_mapped (sb\<lparr>sb_cache := c\<rparr>)"
    using ok by (simp add: store_ok_def links_mapped_def)
  moreover have ti: "table_inv sb" using ok by (simp add: store_ok_def)
  then have "indir_wf (sb\<lparr>sb_cache := c\<rparr>)" by (simp add: table_inv_def indir_wf_def)
  then have "table_inv (sb\<lparr>sb_cache := c\<rparr>)" by (intro table_inv_cong [OF ti]) simp_all
  moreover have "hdr_get (sb\<lparr>sb_cache := c\<rparr>) HDR_OFF_FREE_LIST_COUNT \<le> 0"
    "int (length (sb_file sb)) \<le> physical_tail sb" using ok by (simp_all add: store_ok_def)
  ultimately show "store_ok (storage_write sb p b n)" unfolding store_ok_def using law c(1) by simp
qed

lemma pool_new_page_ok:
  assumes ok: "store_ok (pool_sb pool)" and room: "store_room (pool_sb pool) (Suc k)"
  shows "\<exists>p sb'. pool_new_page pool = Some (Some p, pool\<lparr>pool_sb := sb', list_head := p\<rparr>) \<and> store_ok sb' \<and> store_room sb' k
    \<and> 2 \<le> p \<and> p < 2 ^ 31 \<and> page_view (pool_sb pool) p = None \<and> page_size sb' = page_size (pool_sb pool)
    \<and> page_view sb' p = Some (pool_page_init (page_size (pool_sb pool)))
    \<and> (\<forall>q b. page_view (pool_sb pool) q = Some b \<longrightarrow> 0 \<le> q \<longrightarrow> page_view sb' q = Some b)"
proof -
  let ?sb = "pool_sb pool" and ?b = "pool_page_init (page_size (pool_sb pool))"
  from allocate_ok [OF ok room] obtain p sb1 where
    a: "storage_allocate ?sb 1 = Some (p, sb1)" "store_ok sb1" "store_room sb1 k" "2 \<le> p" "p < 2 ^ 31"
      "page_view ?sb p = None" "indir_lookup sb1 p \<noteq> 0" "page_size sb1 = page_size ?sb" "sb_heap sb1 = []"
      "\<And>q b. page_view ?sb q = Some b \<Longrightarrow> 0 \<le> q \<Longrightarrow> page_view sb1 q = Some b" by blast
  have "48 \<le> page_size ?sb" using ok by (simp add: store_ok_def table_inv_def indir_wf_def)
  then have len: "length ?b = page_size sb1" using pool_page_init_ok(1) a(8) by simp
  have "0 \<le> p" using a(4) by simp
  note w = write_ok [OF a(2) this a(7) len, of FLUSH_PRIO_POOL]
  let ?sb2 = "storage_write sb1 p ?b FLUSH_PRIO_POOL"
  have m: "malloc sb1 = (True, sb1)" using a(2) by (simp add: store_ok_def store_inv_def)
  have "pool_new_page pool = Some (Some p, pool\<lparr>pool_sb := ?sb2, list_head := p\<rparr>)"
    using a(1,4,8) m by (simp add: pool_new_page_def pool_list_add_def Let_def)
  moreover have "page_view ?sb2 q = Some b" if "page_view ?sb q = Some b" "0 \<le> q" for q b
    using a(6,10) that w(2) by (cases "q = p") auto
  ultimately show ?thesis
    using w same_but_cache_fields [OF w(3), of k] a by (intro exI [of _ p] exI [of _ ?sb2]) simp
qed

lemma pool_pages_cong:
  "pool_pages view h pages \<Longrightarrow> (\<And>p b. p \<in> set pages \<Longrightarrow> view p = Some b \<Longrightarrow>
     \<exists>b'. view' p = Some b' \<and> rd8i b' POOL_OFF_NEXT = rd8i b POOL_OFF_NEXT) \<Longrightarrow> pool_pages view' h pages"
  by (induction pages arbitrary: h) fastforce+

lemma live_view:
  "live pool v \<longleftrightarrow> vptr_ok (page_size (pool_sb pool)) v \<and>
     (\<exists>b. page_view (pool_sb pool) (VFS_VPTR_PAGE v) = Some b \<and> VFS_VPTR_SLOT v \<notin> set (free_slots b))"
  by (auto simp: live_def split: option.splits)

lemma vptr_page_nonneg [simp]: "0 \<le> VFS_VPTR_PAGE v"
  by (simp add: VFS_VPTR_PAGE_def)

lemma vptr_ok_make:
  assumes "2 \<le> p" "p < 2 ^ 31" "s < pool_slots ps"
  shows "vptr_ok ps (VFS_VPTR_MAKE p (int s))" "VFS_VPTR_PAGE (VFS_VPTR_MAKE p (int s)) = p"
    "VFS_VPTR_SLOT (VFS_VPTR_MAKE p (int s)) = s" "VFS_VPTR_MAKE p (int s) \<noteq> 0"
proof -
  have "0 \<le> p" "p < 2 ^ 47" "s < 65536" "0 < p" using assms pool_slots_less [OF assms(3)] by simp_all
  note r = vptr_roundtrip [OF this(1-3)]
  show "VFS_VPTR_PAGE (VFS_VPTR_MAKE p (int s)) = p" "VFS_VPTR_SLOT (VFS_VPTR_MAKE p (int s)) = s"
    "VFS_VPTR_MAKE p (int s) \<noteq> 0" using r \<open>0 < p\<close> by simp_all
  show "vptr_ok ps (VFS_VPTR_MAKE p (int s))" using r \<open>0 < p\<close> pool_slots_offset [OF assms(3)] by (simp add: vptr_ok_def)
qed

lemma vptr_make_split:
  assumes "0 \<le> v" "v < 2 ^ 63" "VFS_VPTR_PAGE v < 2 ^ 47"
  shows "VFS_VPTR_MAKE (VFS_VPTR_PAGE v) (int (VFS_VPTR_SLOT v)) = v"
proof -
  have "VFS_VPTR_MAKE (VFS_VPTR_PAGE v) (int (VFS_VPTR_SLOT v)) = v div 65536 * 65536 + v mod 65536"
    using assms by (subst vptr_make_arith) (simp_all add: vptr_page_arith vptr_slot_arith)
  then show ?thesis by simp
qed

text \<open>
  What one allocation does: the slot was not in use and is now; every slot in use keeps its
  content and stays in use; no other page changes.
\<close>

definition alloc_step :: "Pool \<Rightarrow> int \<Rightarrow> Pool \<Rightarrow> bool" where
  "alloc_step pool v pool' \<longleftrightarrow> v \<noteq> 0 \<and> \<not> live pool v \<and> live pool' v
     \<and> (\<forall>w. live pool w \<longrightarrow> live pool' w \<and> slot_view pool' w = slot_view pool w)
     \<and> page_size (pool_sb pool') = page_size (pool_sb pool) \<and> alloc_count pool' = alloc_count pool + 1
     \<and> (\<forall>q b. q \<noteq> VFS_VPTR_PAGE v \<longrightarrow> 0 \<le> q \<longrightarrow> page_view (pool_sb pool) q = Some b \<longrightarrow> page_view (pool_sb pool') q = Some b)"

lemma alloc_stepI:
  assumes p: "2 \<le> p" "p < 2 ^ 31" "page_view (pool_sb pool') p = Some b'" "s < pool_slots (page_size (pool_sb pool))"
    and s: "s \<notin> set (free_slots b')" "\<And>b. page_view (pool_sb pool) p = Some b \<Longrightarrow> s \<in> set (free_slots b) \<and>
        set (free_slots b') \<subseteq> set (free_slots b) \<and> (\<forall>t. chunk b' (slot_offset t) 32 = chunk b (slot_offset t) 32)"
    and other: "\<And>q b. q \<noteq> p \<Longrightarrow> 0 \<le> q \<Longrightarrow> page_view (pool_sb pool) q = Some b \<Longrightarrow> page_view (pool_sb pool') q = Some b"
    and ps: "page_size (pool_sb pool') = page_size (pool_sb pool)" "alloc_count pool' = alloc_count pool + 1"
  shows "alloc_step pool (VFS_VPTR_MAKE p (int s)) pool'"
proof -
  note v = vptr_ok_make [OF p(1,2,4)]
  have "live pool' w \<and> slot_view pool' w = slot_view pool w" if "live pool w" for w
  proof -
    from that obtain b where b: "vptr_ok (page_size (pool_sb pool)) w" "page_view (pool_sb pool) (VFS_VPTR_PAGE w) = Some b"
      "VFS_VPTR_SLOT w \<notin> set (free_slots b)" by (auto simp: live_view)
    show ?thesis
    proof (cases "VFS_VPTR_PAGE w = p")
      case True
      with b s(2) p(3) show ?thesis by (auto simp: live_view slot_view_def view_slot_def ps)
    next
      case False
      from other [OF this _ b(2)] b show ?thesis by (auto simp: live_view slot_view_def view_slot_def ps)
    qed
  qed
  moreover have "\<not> live pool (VFS_VPTR_MAKE p (int s))" using v s(2) by (auto simp: live_view)
  moreover have "live pool' (VFS_VPTR_MAKE p (int s))" using v p(3) s(1) by (auto simp: live_view ps)
  ultimately show ?thesis using v other ps by (simp add: alloc_step_def)
qed

lemma pool_alloc_grow:
  assumes ok: "store_ok (pool_sb pool)" and room: "store_room (pool_sb pool) (Suc k)"
    and find: "pool_list_find_free pool = Some (0, pool\<lparr>pool_sb := sb1\<rparr>)" "store_ok sb1"
      "page_view sb1 = page_view (pool_sb pool)" "same_but_cache (pool_sb pool) sb1"
  shows "\<exists>p pool'. pool_alloc pool = Some (VFS_VPTR_MAKE p (int 0), pool') \<and> pool_ok pool' \<and> store_room (pool_sb pool') k
    \<and> alloc_step pool (VFS_VPTR_MAKE p (int 0)) pool' \<and> list_head pool' = p \<and> page_view (pool_sb pool) p = None
    \<and> pool_pages (page_view (pool_sb pool')) p [p]"
proof -
  let ?sb = "pool_sb pool" and ?ps = "page_size (pool_sb pool)" and ?pool1 = "pool\<lparr>pool_sb := sb1\<rparr>"
  note same = same_but_cache_fields [OF find(4)]
  have r1: "store_room (pool_sb ?pool1) (Suc k)" using room same by simp
  from pool_new_page_ok [of ?pool1, OF _ r1] find(2,3) same obtain p sb2 where
    n: "pool_new_page ?pool1 = Some (Some p, ?pool1\<lparr>pool_sb := sb2, list_head := p\<rparr>)" "store_ok sb2" "store_room sb2 k"
      "2 \<le> p" "p < 2 ^ 31" "page_view ?sb p = None" "page_size sb2 = ?ps" "page_view sb2 p = Some (pool_page_init ?ps)"
      "\<And>q b. page_view ?sb q = Some b \<Longrightarrow> 0 \<le> q \<Longrightarrow> page_view sb2 q = Some b" by auto
  have "48 \<le> ?ps" using ok by (simp add: store_ok_def table_inv_def indir_wf_def)
  note init = pool_page_init_ok [OF this]
  have fs: "free_slots (pool_page_init ?ps) = 0 # [1..<pool_slots ?ps]" using init(2,5) by (simp add: upt_conv_Cons)
  let ?pool2 = "?pool1\<lparr>pool_sb := sb2, list_head := p\<rparr>"
  from pool_alloc_take [of ?pool2 p _ 0 "[1..<pool_slots ?ps]" pool 0 ?pool1] n(1,2,4,8) fs find(1) obtain sb' b' where
    t: "pool_alloc pool = Some (VFS_VPTR_MAKE p (int 0), ?pool2\<lparr>pool_sb := sb', alloc_count := alloc_count ?pool2 + 1\<rparr>)"
      "store_ok sb'" "same_but_cache sb2 sb'" "page_view sb' = (page_view sb2)(p \<mapsto> b')"
      "free_slots b' = [1..<pool_slots ?ps]" "rd8i b' POOL_OFF_NEXT = 0" using init(4) by auto
  let ?pool' = "?pool2\<lparr>pool_sb := sb', alloc_count := alloc_count ?pool2 + 1\<rparr>"
  have ps: "page_size sb' = ?ps" "store_room sb' k = store_room sb2 k"
    using n(7) same_but_cache_fields [OF t(3)] by simp_all
  have "alloc_step pool (VFS_VPTR_MAKE p (int 0)) ?pool'"
    using n t init(5) ps by (intro alloc_stepI [where b' = b']) auto
  moreover have pg: "pool_pages (page_view sb') p [p]" using t n(4) by simp
  have "pool_ok ?pool'"
    using t n(4,5) ps pg unfolding pool_ok_def by (intro conjI exI [of _ "[p]"]) (auto simp: pool_page_ok_def)
  moreover have "store_room (pool_sb ?pool') k" "list_head ?pool' = p" using ps n(3) by simp_all
  ultimately show ?thesis using t(1) n(6) pg by (intro exI [of _ p] exI [of _ ?pool']) simp
qed

text \<open>The pages on the list of pool pages.\<close>

definition in_list :: "Pool \<Rightarrow> int \<Rightarrow> bool" where
  "in_list pool p \<longleftrightarrow> (\<exists>pages. pool_pages (page_view (pool_sb pool)) (list_head pool) pages \<and> p \<in> set pages)"

lemma in_list_pages: "pool_pages (page_view (pool_sb pool)) (list_head pool) pages \<Longrightarrow> in_list pool p \<longleftrightarrow> p \<in> set pages"
  unfolding in_list_def using pool_pages_unique by blast

lemma pool_ok_listed: "pool_ok pool \<Longrightarrow> in_list pool p \<Longrightarrow> 2 \<le> p \<and> p < 2 ^ 31"
  unfolding pool_ok_def using in_list_pages by blast

lemma pool_alloc_listed:
  assumes ok: "pool_ok pool" and room: "store_room (pool_sb pool) (Suc k)"
  shows "\<exists>v pool'. pool_alloc pool = Some (v, pool') \<and> pool_ok pool' \<and> store_room (pool_sb pool') k \<and> alloc_step pool v pool'
    \<and> (in_list pool (VFS_VPTR_PAGE v) \<or> page_view (pool_sb pool) (VFS_VPTR_PAGE v) = None)
    \<and> (\<forall>p. in_list pool' p \<longrightarrow> p = VFS_VPTR_PAGE v \<or> in_list pool p)"
proof -
  let ?sb = "pool_sb pool" and ?ps = "page_size (pool_sb pool)"
  from ok obtain pages where so: "store_ok ?sb" and pg: "pool_pages (page_view ?sb) (list_head pool) pages"
    and each: "\<And>p. p \<in> set pages \<Longrightarrow> 2 \<le> p \<and> p < 2 ^ 31 \<and> (\<forall>b. page_view ?sb p = Some b \<longrightarrow> pool_page_ok ?ps b)"
    by (auto simp: pool_ok_def)
  have nn: "\<And>p. p \<in> set pages \<Longrightarrow> 0 \<le> p" using each by fastforce
  from find_free_law [OF so pg nn] obtain sb1 where f: "find_free_from (list_head pool) ?sb = Some (first_free_page (page_view ?sb) pages, sb1)"
    "store_ok sb1" "page_view sb1 = page_view ?sb" "same_but_cache ?sb sb1" by blast
  let ?pool1 = "pool\<lparr>pool_sb := sb1\<rparr>"
  have ff: "pool_list_find_free pool = Some (first_free_page (page_view ?sb) pages, ?pool1)"
    using f(1) by (simp add: pool_list_find_free_def)
  note same = same_but_cache_fields [OF f(4)]
  show ?thesis
  proof (rule first_free_page_cases [OF pg])
    fix p b assume p: "first_free_page (page_view ?sb) pages = p" "p \<in> set pages" "p \<noteq> 0" "page_view ?sb p = Some b" "free_slots b \<noteq> []"
    then obtain s ss where fs: "free_slots b = s # ss" by (cases "free_slots b") auto
    have v1: "page_view (pool_sb ?pool1) p = Some b" using p f(3) by simp
    from pool_alloc_take [of ?pool1 p b s ss pool p ?pool1] f(2) nn [OF p(2)] v1 fs ff p(1,3) obtain sb' b' where
      t: "pool_alloc pool = Some (VFS_VPTR_MAKE p (int s), ?pool1\<lparr>pool_sb := sb', alloc_count := alloc_count ?pool1 + 1\<rparr>)"
        "store_ok sb'" "same_but_cache sb1 sb'" "page_view sb' = (page_view ?sb)(p \<mapsto> b')" "length b' = length b"
        "free_slots b' = ss" "rd8i b' POOL_OFF_NEXT = rd8i b POOL_OFF_NEXT"
        "\<And>t. chunk b' (slot_offset t) 32 = chunk b (slot_offset t) 32" using f(3) by auto
    let ?pool' = "?pool1\<lparr>pool_sb := sb', alloc_count := alloc_count ?pool1 + 1\<rparr>"
    have ps: "page_size sb' = ?ps" "store_room sb' k = store_room ?sb k"
      using same same_but_cache_fields [OF t(3)] by simp_all
    have bok: "pool_page_ok ?ps b" using each [OF p(2)] p(4) by blast
    then have s: "s < pool_slots ?ps" "s \<notin> set ss" "pool_page_ok ?ps b'"
      using fs t(6) by (simp_all add: pool_page_ok_def)
    have "alloc_step pool (VFS_VPTR_MAKE p (int s)) ?pool'"
      using each [OF p(2)] t s fs p(4) ps by (intro alloc_stepI [where b' = b']) auto
    moreover have "pool_pages (page_view sb') (list_head pool) pages"
      by (rule pool_pages_cong [OF pg]) (use t p(4) in auto)
    then have "pool_ok ?pool'" and listed: "in_list ?pool' q \<longleftrightarrow> q \<in> set pages" for q
      using t(2,4) s(3) each ps in_list_pages [of ?pool' pages] unfolding pool_ok_def by (auto intro!: exI [of _ pages])
    moreover have "VFS_VPTR_PAGE (VFS_VPTR_MAKE p (int s)) = p" using each [OF p(2)] s(1) by (intro vptr_ok_make) auto
    ultimately show ?thesis
      using t(1) ps store_room_mono [OF room, of k] p(2) in_list_pages [OF pg]
      by (intro exI [of _ "VFS_VPTR_MAKE p (int s)"] exI [of _ ?pool']) simp
  next
    assume full: "first_free_page (page_view ?sb) pages = 0" "\<And>p b. p \<in> set pages \<Longrightarrow> page_view ?sb p = Some b \<Longrightarrow> free_slots b = []"
    from pool_alloc_grow [OF so room _ f(2-4)] ff full(1) obtain p pool' where
      g: "pool_alloc pool = Some (VFS_VPTR_MAKE p (int 0), pool')" "pool_ok pool'" "store_room (pool_sb pool') k"
        "alloc_step pool (VFS_VPTR_MAKE p (int 0)) pool'" "list_head pool' = p" "page_view ?sb p = None"
        "pool_pages (page_view (pool_sb pool')) p [p]" by auto
    have "2 \<le> p \<and> p < 2 ^ 31"
      using pool_ok_listed [OF g(2)] in_list_pages [of pool' "[p]"] g(5,7) by simp
    then have page: "VFS_VPTR_PAGE (VFS_VPTR_MAKE p (int 0)) = p"
      using vptr_roundtrip [of p 0] by simp
    have "in_list pool' q \<longleftrightarrow> q = p" for q using in_list_pages [of pool' "[p]"] g(5,7) by simp
    with g page show ?thesis by (intro exI [of _ "VFS_VPTR_MAKE p (int 0)"] exI [of _ pool']) simp
  qed
qed

lemma pool_alloc_law:
  assumes "pool_ok pool" "store_room (pool_sb pool) (Suc k)"
  shows "\<exists>v pool'. pool_alloc pool = Some (v, pool') \<and> pool_ok pool' \<and> store_room (pool_sb pool') k \<and> alloc_step pool v pool'"
  using pool_alloc_listed [OF assms] by blast

section \<open>Slots as a heap\<close>

text \<open>
  The view of the tree code: slots in use hold 32 bytes, a new slot is disjoint from all in use, and writing
  one slot in use leaves the others alone. \<open>room s k\<close> says that \<open>k\<close> more allocations fit.
\<close>

locale slot_heap =
  fixes inv :: "'s \<Rightarrow> bool"
    and live :: "'s \<Rightarrow> int \<Rightarrow> bool"
    and look :: "'s \<Rightarrow> int \<Rightarrow> bytes option"
    and room :: "'s \<Rightarrow> nat \<Rightarrow> bool"
    and acq :: "'s \<Rightarrow> int \<Rightarrow> bool \<Rightarrow> PoolSlot \<times> 's"
    and rel :: "'s \<Rightarrow> PoolSlot \<Rightarrow> PoolSlot \<times> 's"
    and alloc :: "'s \<Rightarrow> (int \<times> 's) option"
  assumes live_nonzero: "\<not> live s 0"
    and acq_law: "inv s \<Longrightarrow> live s v \<Longrightarrow> \<exists>slot s'. acq s v pin = (slot, s') \<and> inv s' \<and> look s' = look s
      \<and> live s' = live s \<and> room s' = room s \<and> ps_vptr slot = v \<and> look s v = Some (ps_bytes slot)
      \<and> length (ps_bytes slot) = 32 \<and> pinnedPage slot = pin"
    and rel_law: "inv s \<Longrightarrow> live s (ps_vptr slot) \<Longrightarrow> pinnedPage slot \<Longrightarrow> length (ps_bytes slot) = 32 \<Longrightarrow>
      \<exists>s'. rel s slot = (slot\<lparr>pinnedPage := False\<rparr>, s') \<and> inv s' \<and> look s' = (look s)(ps_vptr slot \<mapsto> ps_bytes slot)
      \<and> live s' = live s \<and> room s' = room s"
    and alloc_law: "inv s \<Longrightarrow> room s (Suc k) \<Longrightarrow> \<exists>v s'. alloc s = Some (v, s') \<and> inv s' \<and> room s' k
      \<and> \<not> live s v \<and> live s' v \<and> (\<forall>w. live s w \<longrightarrow> live s' w \<and> look s' w = look s w)"
begin

lemma look_live: "inv s \<Longrightarrow> live s v \<Longrightarrow> \<exists>b. look s v = Some b \<and> length b = 32"
  using acq_law [of s v True] by auto

text \<open>Acquire pinned, write the copy, release.\<close>

lemma put_law:
  assumes "inv s" "live s v" "\<And>b. length b = 32 \<Longrightarrow> length (f b) = 32"
  shows "\<exists>slot s1 slot' s'. acq s v True = (slot, s1) \<and> ps_vptr slot = v \<and> look s v = Some (ps_bytes slot)
    \<and> length (ps_bytes slot) = 32
    \<and> rel s1 (slot\<lparr>ps_bytes := f (ps_bytes slot)\<rparr>) = (slot', s') \<and> inv s' \<and> live s' = live s \<and> room s' = room s
    \<and> look s' = (look s)(v \<mapsto> f (ps_bytes slot))"
proof -
  from acq_law [OF assms(1,2), of True] obtain slot s1 where a: "acq s v True = (slot, s1)" "inv s1" "look s1 = look s"
    "live s1 = live s" "room s1 = room s" "ps_vptr slot = v" "look s v = Some (ps_bytes slot)"
    "length (ps_bytes slot) = 32" "pinnedPage slot" by blast
  let ?slot = "slot\<lparr>ps_bytes := f (ps_bytes slot)\<rparr>"
  from rel_law [of s1 ?slot] a assms(2,3) obtain s' where
    "rel s1 ?slot = (?slot\<lparr>pinnedPage := False\<rparr>, s')" "inv s'" "look s' = (look s)(v \<mapsto> f (ps_bytes slot))"
    "live s' = live s" "room s' = room s" by auto
  with a show ?thesis by blast
qed

text \<open>A new node: allocate, then write it.\<close>

lemma new_law:
  assumes "inv s" "room s (Suc k)" "\<And>b. length b = 32 \<Longrightarrow> length (f b) = 32"
  shows "\<exists>v s1 slot s2 slot' s'. alloc s = Some (v, s1) \<and> v \<noteq> 0 \<and> acq s1 v True = (slot, s2)
    \<and> length (ps_bytes slot) = 32
    \<and> rel s2 (slot\<lparr>ps_bytes := f (ps_bytes slot)\<rparr>) = (slot', s') \<and> inv s' \<and> room s' k \<and> \<not> live s v \<and> live s' v
    \<and> look s' v = Some (f (ps_bytes slot)) \<and> (\<forall>w. live s w \<longrightarrow> live s' w \<and> look s' w = look s w)"
proof -
  from alloc_law [OF assms(1,2)] obtain v s1 where a: "alloc s = Some (v, s1)" "inv s1" "room s1 k" "\<not> live s v"
    "live s1 v" "\<forall>w. live s w \<longrightarrow> live s1 w \<and> look s1 w = look s w" by blast
  from put_law [where f = f, OF a(2,5) assms(3)] obtain slot s2 slot' s' where p: "acq s1 v True = (slot, s2)"
    "length (ps_bytes slot) = 32" "rel s2 (slot\<lparr>ps_bytes := f (ps_bytes slot)\<rparr>) = (slot', s')" "inv s'" "live s' = live s1"
    "room s' = room s1" "look s' = (look s1)(v \<mapsto> f (ps_bytes slot))" by blast
  have "v \<noteq> 0" using a(5) live_nonzero by metis
  moreover have "\<forall>w. live s w \<longrightarrow> live s' w \<and> look s' w = look s w" using a(4,6) p(5,7) by auto
  ultimately show ?thesis using a p by auto
qed

end

lemma pool_ok_cache:
  assumes "pool_ok pool" "store_ok sb'" "page_view sb' = page_view (pool_sb pool)" "same_but_cache (pool_sb pool) sb'"
  shows "pool_ok (pool\<lparr>pool_sb := sb'\<rparr>)" "slot_view (pool\<lparr>pool_sb := sb'\<rparr>) = slot_view pool"
    "live (pool\<lparr>pool_sb := sb'\<rparr>) = live pool" "store_room sb' = store_room (pool_sb pool)"
proof -
  have ps: "page_size sb' = page_size (pool_sb pool)" and room: "\<And>k. store_room sb' k = store_room (pool_sb pool) k"
    using same_but_cache_fields [OF assms(4)] by blast+
  show "pool_ok (pool\<lparr>pool_sb := sb'\<rparr>)" using assms(1,2) unfolding pool_ok_def by (simp add: assms(3) ps)
  show "slot_view (pool\<lparr>pool_sb := sb'\<rparr>) = slot_view pool" by (simp add: slot_view_def assms(3) ps)
  show "live (pool\<lparr>pool_sb := sb'\<rparr>) = live pool" by (simp add: fun_eq_iff live_def assms(3) ps)
  show "store_room sb' = store_room (pool_sb pool)" using room by (simp add: fun_eq_iff)
qed

lemma pool_acquire_law:
  assumes "pool_ok pool" "vptr_ok (page_size (pool_sb pool)) v"
  shows "\<exists>slot sb'. pool_acquire pool v pin = (slot, pool\<lparr>pool_sb := sb'\<rparr>) \<and> store_ok sb'
    \<and> page_view sb' = page_view (pool_sb pool) \<and> same_but_cache (pool_sb pool) sb' \<and> ps_vptr slot = v
    \<and> ps_bytes slot = (case slot_view pool v of None \<Rightarrow> zero_bytes 32 | Some b \<Rightarrow> b)
    \<and> length (ps_bytes slot) = 32 \<and> (pinnedPage slot \<longleftrightarrow> pin \<and> slot_view pool v \<noteq> None)"
proof -
  obtain slot pool' where r: "pool_acquire pool v pin = (slot, pool')" by fastforce
  have so: "store_ok (pool_sb pool)" using assms(1) by (simp add: pool_ok_def)
  then have inv: "pool_inv pool" by (simp add: store_ok_def pool_inv_def)
  note law = pls.acq_law [OF inv _ r]
  have v: "pool_valid pool v" "v \<noteq> 0" using assms(2) by (simp_all add: pool_valid_def vptr_ok_def)
  obtain x st sb1 where rd: "storage_read_with_status (pool_sb pool) (VFS_VPTR_PAGE v) = (x, st, sb1)" by (metis prod_cases3)
  note read = read_ok [OF so rd vptr_page_nonneg]
  have so1: "store_ok sb1" using read by simp
  note mark = mark_ok [OF so1, of "VFS_VPTR_PAGE v" FLUSH_PRIO_POOL]
  let ?sb' = "if pin \<and> x \<noteq> None then sb_mark_dirty sb1 (VFS_VPTR_PAGE v) FLUSH_PRIO_POOL else sb1"
  have "pool' = pool\<lparr>pool_sb := ?sb'\<rparr>"
    using r rd v(2) by (auto simp: pool_acquire_def Let_def split: option.splits if_splits)
  moreover have "store_ok ?sb' \<and> page_view ?sb' = page_view (pool_sb pool) \<and> same_but_cache (pool_sb pool) ?sb'"
    using read mark same_but_cache_trans by auto
  moreover have "length (ps_bytes slot) = 32"
    using law v(1) pls.look_length [OF inv, of v] by (auto split: option.splits)
  ultimately show ?thesis using law v(1) r by (intro exI [of _ slot] exI [of _ ?sb']) simp
qed

lemma pool_release_law:
  assumes ok: "pool_ok pool" and lv: "live pool (ps_vptr slot)" and pin: "pinnedPage slot" and len: "length (ps_bytes slot) = 32"
  shows "\<exists>sb'. pool_release pool slot = (slot\<lparr>pinnedPage := False\<rparr>, pool\<lparr>pool_sb := sb'\<rparr>) \<and> pool_ok (pool\<lparr>pool_sb := sb'\<rparr>)
    \<and> slot_view (pool\<lparr>pool_sb := sb'\<rparr>) = (slot_view pool)(ps_vptr slot \<mapsto> ps_bytes slot)
    \<and> live (pool\<lparr>pool_sb := sb'\<rparr>) = live pool \<and> same_but_cache (pool_sb pool) sb'
    \<and> (\<forall>q. q \<noteq> VFS_VPTR_PAGE (ps_vptr slot) \<longrightarrow> page_view sb' q = page_view (pool_sb pool) q)
    \<and> in_list (pool\<lparr>pool_sb := sb'\<rparr>) = in_list pool"
proof -
  let ?sb = "pool_sb pool" and ?v = "ps_vptr slot" and ?p = "VFS_VPTR_PAGE (ps_vptr slot)" and ?ps = "page_size (pool_sb pool)"
  let ?o = "slot_offset (VFS_VPTR_SLOT ?v)"
  let ?g = "\<lambda>b. blit b ?o (ps_bytes slot)"
  have so: "store_ok ?sb" using ok by (simp add: pool_ok_def)
  then have inv: "pool_inv pool" "store_inv ?sb" by (simp_all add: store_ok_def pool_inv_def)
  from lv obtain b where v: "vptr_ok ?ps ?v" "page_view ?sb ?p = Some b" "VFS_VPTR_SLOT ?v \<notin> set (free_slots b)"
    by (auto simp: live_view)
  obtain x st sb1 where rd: "storage_read_with_status ?sb ?p = (x, st, sb1)" by (metis prod_cases3)
  note read = read_ok [OF so rd vptr_page_nonneg]
  have x: "x = Some b" "store_ok sb1" "cached (sb_cache sb1) ?p = Some b" "page_size sb1 = ?ps"
    using read v(2) same_but_cache_fields by auto
  have g: "length c = page_size sb1 \<Longrightarrow> length (?g c) = length c" for c using v(1) len x(4) by (simp add: vptr_ok_def)
  note poke = poke_ok [where f = ?g, OF x(2,3) g]
  note mark = mark_ok [OF poke(1), of ?p FLUSH_PRIO_POOL]
  define sb' where "sb' = sb_mark_dirty (cache_poke sb1 ?p ?g) ?p FLUSH_PRIO_POOL"
  let ?pool' = "pool\<lparr>pool_sb := sb'\<rparr>"
  have rel: "pool_release pool slot = (slot\<lparr>pinnedPage := False\<rparr>, ?pool')"
    using pin rd x(1) by (simp add: pool_release_def Let_def sb'_def)
  have same: "same_but_cache ?sb sb'" unfolding sb'_def using read poke(3) mark(3) same_but_cache_trans by blast
  have ps: "page_size sb' = ?ps" using same_but_cache_fields [OF same] by blast
  have view: "page_view sb' = (page_view ?sb)(?p \<mapsto> ?g b)" using read poke(2) mark(2) by (simp add: sb'_def)
  have lb: "length b = ?ps" "?o + 32 \<le> length b" using page_view_length [OF inv(2) v(2)] v(1) by (simp_all add: vptr_ok_def)
  have hdr: "rd4 (?g b) POOL_OFF_STATE = rd4 b POOL_OFF_STATE" "rd8i (?g b) POOL_OFF_NEXT = rd8i b POOL_OFF_NEXT"
    using lb len slot_offset_ge [of "VFS_VPTR_SLOT ?v"] by (simp_all add: buf_simps)
  have "rd2 (?g b) (slot_offset s) = rd2 b (slot_offset s)" if "s \<in> set (free_slots b)" for s
  proof -
    have "s \<noteq> VFS_VPTR_SLOT ?v" using that v(3) by blast
    from slot_offsets_apart [OF this] have "slot_offset s + 2 \<le> ?o \<or> ?o + length (ps_bytes slot) \<le> slot_offset s"
      using len by linarith
    then show ?thesis using lb len by (intro rd_blit_disjoint(3)) simp_all
  qed
  then have fs: "free_slots (?g b) = free_slots b" unfolding free_slots_def hdr by (intro chain_slots_cong) simp
  have "pool_valid pool ?v" using v(1) by (simp add: pool_valid_def)
  from pls.rel_law [OF inv(1) len pin this rel]
  have "slot_view ?pool' = (slot_view pool)(?v \<mapsto> ps_bytes slot)"
    using v by (simp add: slot_view_def view_slot_def)
  moreover have "live ?pool' = live pool"
    using v fs by (auto simp: fun_eq_iff live_def view ps)
  moreover have "pool_ok ?pool' \<and> in_list ?pool' = in_list pool"
  proof -
    from ok obtain pages where pg: "pool_pages (page_view ?sb) (list_head pool) pages"
      and each: "\<forall>p \<in> set pages. 2 \<le> p \<and> p < 2 ^ 31 \<and> (\<forall>b. page_view ?sb p = Some b \<longrightarrow> pool_page_ok ?ps b)"
      by (auto simp: pool_ok_def)
    have pg': "pool_pages (page_view sb') (list_head pool) pages"
      by (rule pool_pages_cong [OF pg]) (use view v(2) hdr in auto)
    then have "in_list ?pool' = in_list pool"
      using in_list_pages [of ?pool' pages] in_list_pages [OF pg] by (simp add: fun_eq_iff)
    moreover have "\<forall>p \<in> set pages. 2 \<le> p \<and> p < 2 ^ 31 \<and> (\<forall>b. page_view sb' p = Some b \<longrightarrow> pool_page_ok ?ps b)"
      using each v(2) by (auto simp: view pool_page_ok_def fs)
    then have "pool_ok ?pool'" using pg' mark(1) [folded sb'_def] ps unfolding pool_ok_def by (auto intro!: exI [of _ pages])
    ultimately show ?thesis by simp
  qed
  ultimately show ?thesis using rel same view by (intro exI [of _ sb']) simp
qed

interpretation ph: slot_heap pool_ok live slot_view "\<lambda>pool. store_room (pool_sb pool)" pool_acquire pool_release pool_alloc
proof
  fix s :: Pool show "\<not> live s 0" by (simp add: live_view vptr_ok_def)
next
  fix s v pin assume a: "pool_ok s" "live s v"
  then have v: "vptr_ok (page_size (pool_sb s)) v" "slot_view s v \<noteq> None" by (auto simp: live_view slot_view_def view_slot_def)
  from pool_acquire_law [OF a(1) v(1), of pin] obtain slot sb' where
    r: "pool_acquire s v pin = (slot, s\<lparr>pool_sb := sb'\<rparr>)" "store_ok sb'" "page_view sb' = page_view (pool_sb s)"
      "same_but_cache (pool_sb s) sb'" "ps_vptr slot = v" "length (ps_bytes slot) = 32"
      "ps_bytes slot = (case slot_view s v of None \<Rightarrow> zero_bytes 32 | Some b \<Rightarrow> b)"
      "pinnedPage slot \<longleftrightarrow> pin \<and> slot_view s v \<noteq> None" by blast
  from r v(2) pool_ok_cache [OF a(1) r(2-4)]
  show "\<exists>slot s'. pool_acquire s v pin = (slot, s') \<and> pool_ok s' \<and> slot_view s' = slot_view s
      \<and> live s' = live s \<and> store_room (pool_sb s') = store_room (pool_sb s) \<and> ps_vptr slot = v
      \<and> slot_view s v = Some (ps_bytes slot) \<and> length (ps_bytes slot) = 32 \<and> pinnedPage slot = pin"
    by (intro exI [of _ slot] exI [of _ "s\<lparr>pool_sb := sb'\<rparr>"]) auto
next
  fix s and slot :: PoolSlot
  assume a: "pool_ok s" "live s (ps_vptr slot)" "pinnedPage slot" "length (ps_bytes slot) = 32"
  from pool_release_law [OF this] obtain sb' where
    "pool_release s slot = (slot\<lparr>pinnedPage := False\<rparr>, s\<lparr>pool_sb := sb'\<rparr>)" "pool_ok (s\<lparr>pool_sb := sb'\<rparr>)"
    "slot_view (s\<lparr>pool_sb := sb'\<rparr>) = (slot_view s)(ps_vptr slot \<mapsto> ps_bytes slot)"
    "live (s\<lparr>pool_sb := sb'\<rparr>) = live s" "same_but_cache (pool_sb s) sb'" by blast
  then show "\<exists>s'. pool_release s slot = (slot\<lparr>pinnedPage := False\<rparr>, s') \<and> pool_ok s'
      \<and> slot_view s' = (slot_view s)(ps_vptr slot \<mapsto> ps_bytes slot) \<and> live s' = live s
      \<and> store_room (pool_sb s') = store_room (pool_sb s)"
    using same_but_cache_fields by (intro exI [of _ "s\<lparr>pool_sb := sb'\<rparr>"]) (simp add: fun_eq_iff)
next
  fix s :: Pool and k assume "pool_ok s" "store_room (pool_sb s) (Suc k)"
  from pool_alloc_law [OF this] show "\<exists>v s'. pool_alloc s = Some (v, s') \<and> pool_ok s' \<and> store_room (pool_sb s') k
      \<and> \<not> live s v \<and> live s' v \<and> (\<forall>w. live s w \<longrightarrow> live s' w \<and> slot_view s' w = slot_view s w)"
    unfolding alloc_step_def by blast
qed

section \<open>Chains of slots\<close>

text \<open>
  Names, mapper entries, versions, directory entries and segments are all chains of slots linked through a next
  pointer at a fixed offset. \<open>slot_chain pool off v bs\<close> says that the chain from \<open>v\<close> holds the slots \<open>bs\<close>.
\<close>

primrec slot_chain :: "Pool \<Rightarrow> nat \<Rightarrow> int \<Rightarrow> bytes list \<Rightarrow> bool" where
  "slot_chain pool off v [] \<longleftrightarrow> v = 0"
| "slot_chain pool off v (b # bs) \<longleftrightarrow> v \<noteq> 0 \<and> live pool v \<and> slot_view pool v = Some b \<and> slot_chain pool off (rd8i b off) bs"

definition keeps :: "Pool \<Rightarrow> Pool \<Rightarrow> bool" where
  "keeps pool pool' \<longleftrightarrow> (\<forall>w. live pool w \<longrightarrow> live pool' w \<and> slot_view pool' w = slot_view pool w)"

lemma keeps_refl [simp]: "keeps pool pool"
  by (simp add: keeps_def)

lemma keeps_trans [trans]: "keeps a b \<Longrightarrow> keeps b c \<Longrightarrow> keeps a c"
  by (simp add: keeps_def)

lemma keepsD: "keeps pool pool' \<Longrightarrow> live pool w \<Longrightarrow> live pool' w \<and> slot_view pool' w = slot_view pool w"
  by (simp add: keeps_def)

lemma slot_chain_keeps: "keeps pool pool' \<Longrightarrow> slot_chain pool off v bs \<Longrightarrow> slot_chain pool' off v bs"
  by (induction bs arbitrary: v) (auto dest: keepsD)

lemma slot_chain_live: "slot_chain pool off v bs \<Longrightarrow> v = 0 \<or> live pool v"
  by (cases bs) auto

lemma slot_chain_unique: "slot_chain pool off v xs \<Longrightarrow> slot_chain pool off v ys \<Longrightarrow> xs = ys"
proof (induction xs arbitrary: v ys)
  case Nil
  then show ?case by (cases ys) auto
next
  case (Cons x xs)
  then show ?case by (cases ys) auto
qed

text \<open>Reading one slot in use without a pin, then releasing it: a no-op on the heap.\<close>

lemma pool_read_slot:
  assumes "pool_ok pool" "live pool v" "slot_view pool v = Some b"
  shows "\<exists>slot pool'. pool_acquire pool v False = (slot, pool') \<and> pool_release pool' slot = (slot, pool') \<and> ps_vptr slot = v
    \<and> ps_bytes slot = b \<and> length b = 32 \<and> pool_ok pool' \<and> slot_view pool' = slot_view pool \<and> live pool' = live pool
    \<and> store_room (pool_sb pool') = store_room (pool_sb pool) \<and> v \<noteq> 0"
proof -
  from ph.acq_law [OF assms(1,2), of False] obtain slot pool' where
    a: "pool_acquire pool v False = (slot, pool')" "pool_ok pool'" "slot_view pool' = slot_view pool" "live pool' = live pool"
      "store_room (pool_sb pool') = store_room (pool_sb pool)" "ps_vptr slot = v" "slot_view pool v = Some (ps_bytes slot)"
      "length (ps_bytes slot) = 32" "\<not> pinnedPage slot" by blast
  have "v \<noteq> 0" using assms(2) ph.live_nonzero by metis
  with a pls.rel_unpinned [OF a(9), of pool'] assms(3) show ?thesis by (intro exI [of _ slot] exI [of _ pool']) simp
qed

text \<open>A new slot in front of a chain.\<close>

lemma pool_new_slot:
  assumes "pool_ok pool" "store_room (pool_sb pool) (Suc k)" "\<And>b. length b = 32 \<Longrightarrow> length (f b) = 32"
  shows "\<exists>v pool1 slot pool2 slot' pool'. pool_alloc pool = Some (v, pool1) \<and> v \<noteq> 0 \<and> pool_acquire pool1 v True = (slot, pool2)
    \<and> ps_vptr slot = v \<and> length (ps_bytes slot) = 32
    \<and> pool_release pool2 (slot\<lparr>ps_bytes := f (ps_bytes slot)\<rparr>) = (slot', pool')
    \<and> pool_ok pool' \<and> store_room (pool_sb pool') k \<and> keeps pool pool' \<and> \<not> live pool v \<and> live pool' v
    \<and> slot_view pool' v = Some (f (ps_bytes slot))"
proof -
  from ph.alloc_law [OF assms(1,2)] obtain v s1 where a: "pool_alloc pool = Some (v, s1)" "pool_ok s1" "store_room (pool_sb s1) k"
    "\<not> live pool v" "live s1 v" "\<forall>w. live pool w \<longrightarrow> live s1 w \<and> slot_view s1 w = slot_view pool w" by blast
  from ph.put_law [where f = f, OF a(2,5) assms(3)] obtain slot s2 slot' s' where p: "pool_acquire s1 v True = (slot, s2)"
    "ps_vptr slot = v" "length (ps_bytes slot) = 32" "pool_release s2 (slot\<lparr>ps_bytes := f (ps_bytes slot)\<rparr>) = (slot', s')"
    "pool_ok s'" "live s' = live s1" "store_room (pool_sb s') = store_room (pool_sb s1)"
    "slot_view s' = (slot_view s1)(v \<mapsto> f (ps_bytes slot))" by blast
  have "v \<noteq> 0" using a(5) ph.live_nonzero by metis
  moreover have "keeps pool s'" using a(4,6) p(6,8) by (auto simp: keeps_def)
  ultimately show ?thesis using a p by auto
qed

section \<open>Freeing a slot\<close>

lemma pool_free_law:
  assumes ok: "pool_ok pool" and lv: "live pool v" "2 \<le> VFS_VPTR_PAGE v" "VFS_VPTR_SLOT v < pool_slots (page_size (pool_sb pool))"
    and b: "page_view (pool_sb pool) (VFS_VPTR_PAGE v) = Some b" "pool_page_ok (page_size (pool_sb pool)) b"
  shows "\<exists>sb' b'. pool_free pool v = (VFS_OK, pool\<lparr>pool_sb := sb', alloc_count := alloc_count pool - 1\<rparr>) \<and> store_ok sb'
    \<and> same_but_cache (pool_sb pool) sb' \<and> page_view sb' = (page_view (pool_sb pool))(VFS_VPTR_PAGE v \<mapsto> b')
    \<and> free_slots b' = VFS_VPTR_SLOT v # free_slots b \<and> pool_page_ok (page_size (pool_sb pool)) b'
    \<and> rd8i b' POOL_OFF_NEXT = rd8i b POOL_OFF_NEXT
    \<and> (\<forall>t. t \<noteq> VFS_VPTR_SLOT v \<longrightarrow> t < pool_slots (page_size (pool_sb pool)) \<longrightarrow> chunk b' (slot_offset t) 32 = chunk b (slot_offset t) 32)"
proof -
  let ?sb = "pool_sb pool" and ?p = "VFS_VPTR_PAGE v" and ?s = "VFS_VPTR_SLOT v" and ?ps = "page_size (pool_sb pool)"
  have vp: "vptr_ok ?ps v" "v \<noteq> 0" "?s \<notin> set (free_slots b)" using lv b(1) by (auto simp: live_view vptr_ok_def)
  from pool_acquire_law [OF ok vp(1), of False] obtain slot sb1 where
    a: "pool_acquire pool v False = (slot, pool\<lparr>pool_sb := sb1\<rparr>)" "store_ok sb1" "page_view sb1 = page_view ?sb"
      "same_but_cache ?sb sb1" "ps_vptr slot = v" by blast
  obtain x st sb2 where rd: "storage_read_with_status sb1 ?p = (x, st, sb2)" by (metis prod_cases3)
  note read = read_ok [OF a(2) rd vptr_page_nonneg]
  have x: "x = Some b" "store_ok sb2" "cached (sb_cache sb2) ?p = Some b" "page_size sb2 = ?ps"
    using read b(1) a(3) same_but_cache_fields [OF a(4)] same_but_cache_fields [of sb1 sb2] by auto
  define n where "n = pool_state_free_count (rd4 b POOL_OFF_STATE)"
  define f where "f = pool_state_first_free (rd4 b POOL_OFF_STATE)"
  let ?g = "\<lambda>b. wr2 b (slot_offset ?s) f" and ?w = "pool_state_pack (n + 1) (of_nat ?s)"
  let ?h = "\<lambda>b. wr4 b POOL_OFF_STATE ?w"
  have off: "slot_offset ?s + 32 \<le> ?ps" using lv(3) by (rule pool_slots_offset)
  have inv: "store_inv ?sb" using ok by (simp add: pool_ok_def store_ok_def)
  have lb: "length b = ?ps" by (rule page_view_length [OF inv b(1)])
  have sixteen: "16 \<le> ?ps" using off slot_offset_ge [of ?s] by linarith
  have g: "length c = page_size sb2 \<Longrightarrow> length (?g c) = length c" for c using off x(4) by simp
  note p1 = poke_ok [where f = ?g, OF x(2,3) g]
  let ?sb3 = "cache_poke sb2 ?p ?g"
  have c3: "cached (sb_cache ?sb3) ?p = Some (?g b)" using p1(4) by simp
  have ps3: "page_size ?sb3 = ?ps" using same_but_cache_fields [OF p1(3)] x(4) by simp
  have h: "length c = page_size ?sb3 \<Longrightarrow> length (?h c) = length c" for c using sixteen ps3 by simp
  note p2 = poke_ok [where f = ?h, OF p1(1) c3 h]
  note mark = mark_ok [OF p2(1), of ?p FLUSH_PRIO_POOL]
  let ?sb' = "sb_mark_dirty (cache_poke ?sb3 ?p ?h) ?p FLUSH_PRIO_POOL" and ?b' = "?h (?g b)"
  have "pool_free pool v = (VFS_OK, pool\<lparr>pool_sb := ?sb', alloc_count := alloc_count pool - 1\<rparr>)"
    using vp(2) lv(2) a(1,5) rd x(1) by (simp add: pool_free_def Let_def n_def f_def)
  moreover have "same_but_cache ?sb ?sb'"
  proof -
    have "same_but_cache sb1 sb2" using read by simp
    from same_but_cache_trans [OF same_but_cache_trans [OF same_but_cache_trans [OF same_but_cache_trans [OF a(4) this] p1(3)] p2(3)] mark(3)]
    show ?thesis .
  qed
  moreover have "page_view ?sb' = (page_view ?sb)(?p \<mapsto> ?b')" using a(3) read p1(2) p2(2) mark(2) by simp
  moreover have "free_slots ?b' = ?s # free_slots b" "pool_page_ok ?ps ?b'"
    using free_slots_push [OF _ vp(3) _ n_def f_def] b(2) lv(3) lb by simp_all
  moreover have "rd8i ?b' POOL_OFF_NEXT = rd8i b POOL_OFF_NEXT"
    using off sixteen lb slot_offset_ge [of ?s] by (simp add: buf_simps)
  moreover have "chunk ?b' (slot_offset t) 32 = chunk b (slot_offset t) 32" if "t \<noteq> ?s" "t < pool_slots ?ps" for t
    using slot_offsets_apart [OF that(1)] slot_offset_ge [of t] off sixteen lb
    by (auto simp: wr4_def wr2_def chunk_blit_disjoint simp del: le_bytes.simps)
  ultimately show ?thesis using mark(1) by blast
qed

section \<open>Properties\<close>

definition demo_pool :: Pool where
  "demo_pool = pool_init (demo_sb\<lparr>sb_file := []\<rparr>) 0"

lemma demo_pool: "pool_ok demo_pool" "store_room (pool_sb demo_pool) 1000" "list_head demo_pool = 0"
proof -
  let ?sb = "demo_sb\<lparr>sb_file := []\<rparr>"
  have e: "indir_lookup ?sb = indir_lookup demo_sb" by (simp add: fun_eq_iff)
  have "indir_wf ?sb" using demo_wf(1) by (simp add: indir_wf_def)
  then have "table_inv ?sb" by (intro table_inv_cong [OF demo_table_inv]) (simp_all add: e)
  moreover have "store_inv ?sb" using demo_store_inv by (simp add: store_inv_def healthy_def payloads_ok_def)
  moreover have "links_mapped ?sb" by (simp add: links_mapped_def rec_header_def)
  moreover have "hdr_get ?sb HDR_OFF_FREE_LIST_COUNT \<le> 0" "0 \<le> physical_tail ?sb"
    by (simp_all add: demo_sb_def buf_simps)
  ultimately have "store_ok ?sb" by (simp add: store_ok_def demo_cached)
  then show "pool_ok demo_pool" unfolding pool_ok_def demo_pool_def pool_init_def
    by (intro conjI exI [of _ "[]"]) simp_all
  show "store_room (pool_sb demo_pool) 1000" "list_head demo_pool = 0"
    by (simp_all add: demo_pool_def pool_init_def store_room_def demo_sb_def phys_record_size_def)
qed

text \<open>
  C17: A slot allocation returns, and hands out a slot that nobody uses: it was not in use before and is
  afterwards, every slot in use keeps its 32 bytes and stays in use, and the free lists are well
  formed again. This covers a page with a free slot anywhere on the list and the case where all listed pages
  are full and a new one is allocated.
\<close>

theorem pool_alloc_fresh:
  assumes "pool_ok pool" "store_room (pool_sb pool) 1"
  shows "\<exists>v pool'. pool_alloc pool = Some (v, pool') \<and> pool_ok pool' \<and> v \<noteq> 0 \<and> \<not> live pool v \<and> live pool' v
    \<and> (\<forall>w. live pool w \<longrightarrow> live pool' w \<and> slot_view pool' w = slot_view pool w)
    \<and> alloc_count pool' = alloc_count pool + 1"
  using pool_alloc_law [OF assms(1), of 0] assms(2) by (auto simp: alloc_step_def)

theorem pool_alloc_fresh_witness:
  "\<exists>v pool. pool_alloc demo_pool = Some (v, pool) \<and> v \<noteq> 0 \<and> live pool v \<and> alloc_count pool = 1"
  using pool_alloc_fresh [OF demo_pool(1) store_room_mono [OF demo_pool(2)]]
  by (auto simp: demo_pool_def pool_init_def)

lemma demo_slot:
  "\<exists>v pool. pool_ok pool \<and> live pool v \<and> VFS_VPTR_PAGE v = list_head pool \<and> list_head pool \<noteq> 0
     \<and> VFS_VPTR_SLOT v < pool_slots (page_size (pool_sb pool))"
proof -
  have so: "store_ok (pool_sb demo_pool)" using demo_pool(1) by (simp add: pool_ok_def)
  have "pool_list_find_free demo_pool = Some (0, demo_pool\<lparr>pool_sb := pool_sb demo_pool\<rparr>)"
    by (simp add: pool_list_find_free_def find_free_from.simps demo_pool(3))
  from pool_alloc_grow [OF so _ this so, of 0] store_room_mono [OF demo_pool(2), of 1] obtain p pool' where
    r: "pool_ok pool'" "alloc_step demo_pool (VFS_VPTR_MAKE p (int 0)) pool'" "list_head pool' = p"
      "pool_pages (page_view (pool_sb pool')) p [p]" by auto
  have "p < 2 ^ 31" "2 \<le> p"
  proof -
    from r(1) obtain pages where "pool_pages (page_view (pool_sb pool')) p pages" "\<forall>q \<in> set pages. 2 \<le> q \<and> q < 2 ^ 31"
      unfolding pool_ok_def r(3) by blast
    then show "p < 2 ^ 31" "2 \<le> p" using r(4) by (cases pages; auto)+
  qed
  moreover have ps: "0 < pool_slots (page_size (pool_sb pool'))"
    using r(1) pool_page_init_ok(5) by (simp add: pool_ok_def store_ok_def table_inv_def indir_wf_def)
  ultimately show ?thesis
    using r(1-3) vptr_ok_make [of p 0 "page_size (pool_sb pool')"] unfolding alloc_step_def
    by (intro exI [of _ "VFS_VPTR_MAKE p (int 0)"] exI [of _ pool']) simp
qed

text \<open>
  C18: The by-value slot interface is a store: after acquiring a slot in use with a pin, changing the copy and
  releasing it, the next acquire returns the new bytes, every other slot in use keeps its bytes, the
  set of slots in use does not change, and releasing the same copy again does nothing.
\<close>

theorem pool_slot_update:
  assumes "pool_ok pool" "live pool v" "length d = 32"
    and "pool_acquire pool v True = (slot, pool1)" "pool_release pool1 (slot\<lparr>ps_bytes := d\<rparr>) = (slot', pool2)"
  shows "pool_ok pool2 \<and> live pool2 = live pool \<and> ps_bytes (fst (pool_acquire pool2 v pin)) = d
    \<and> (\<forall>w. w \<noteq> v \<longrightarrow> slot_view pool2 w = slot_view pool w) \<and> pool_release pool2 slot' = (slot', pool2)"
proof -
  from ph.put_law [of pool v "\<lambda>_. d"] assms have r: "pool_ok pool2" "live pool2 = live pool"
    "slot_view pool2 = (slot_view pool)(v \<mapsto> d)" by auto
  from ph.acq_law [OF r(1), of v pin] assms(2) r(2,3) have "ps_bytes (fst (pool_acquire pool2 v pin)) = d" by auto
  moreover have "\<not> pinnedPage slot'" using assms(5) by (auto simp: pool_release_def Let_def split: if_splits prod.splits)
  then have "pool_release pool2 slot' = (slot', pool2)" by (rule pls.rel_unpinned)
  ultimately show ?thesis using r by simp
qed

theorem pool_slot_update_witness:
  "\<exists>pool v slot pool1 slot' pool2. pool_ok pool \<and> live pool v \<and> pool_acquire pool v True = (slot, pool1)
     \<and> pool_release pool1 (slot\<lparr>ps_bytes := replicate 32 7\<rparr>) = (slot', pool2)
     \<and> ps_bytes (fst (pool_acquire pool2 v False)) = replicate 32 7"
proof -
  from demo_slot obtain pool v where p: "pool_ok pool" "live pool v" by blast
  obtain slot pool1 where a: "pool_acquire pool v True = (slot, pool1)" by fastforce
  obtain slot' pool2 where b: "pool_release pool1 (slot\<lparr>ps_bytes := replicate 32 7\<rparr>) = (slot', pool2)" by fastforce
  from pool_slot_update [OF p _ a b, of False] a b p show ?thesis by fastforce
qed

text \<open>
  C19: Freeing a slot on the first page of the list takes it out of use, leaves every other slot in use
  untouched, and the next allocation returns exactly that slot, with the counter back where it was.
\<close>

theorem pool_free_recycle:
  assumes ok: "pool_ok pool" and v: "live pool v" "VFS_VPTR_PAGE v = list_head pool" "list_head pool \<noteq> 0"
    "VFS_VPTR_SLOT v < pool_slots (page_size (pool_sb pool))"
  shows "\<exists>pool1 pool2. pool_free pool v = (VFS_OK, pool1) \<and> pool_ok pool1 \<and> \<not> live pool1 v
    \<and> (\<forall>w. live pool w \<longrightarrow> w \<noteq> v \<longrightarrow> VFS_VPTR_SLOT w < pool_slots (page_size (pool_sb pool)) \<longrightarrow>
         live pool1 w \<and> slot_view pool1 w = slot_view pool w)
    \<and> pool_alloc pool1 = Some (v, pool2) \<and> alloc_count pool2 = alloc_count pool"
proof -
  let ?sb = "pool_sb pool" and ?p = "VFS_VPTR_PAGE v" and ?s = "VFS_VPTR_SLOT v" and ?ps = "page_size (pool_sb pool)"
  from ok obtain pages where pg: "pool_pages (page_view ?sb) (list_head pool) pages"
    and each: "\<And>p. p \<in> set pages \<Longrightarrow> 2 \<le> p \<and> p < 2 ^ 31 \<and> (\<forall>b. page_view ?sb p = Some b \<longrightarrow> pool_page_ok ?ps b)"
    by (auto simp: pool_ok_def)
  from v(1) obtain b where b: "page_view ?sb ?p = Some b" "vptr_ok ?ps v" by (auto simp: live_view)
  obtain pages' where hd: "pages = ?p # pages'" using pg v(2,3) by (cases pages) auto
  then have p: "2 \<le> ?p" "?p < 2 ^ 31" "pool_page_ok ?ps b" using each b(1) by auto
  from pool_free_law [OF ok v(1) p(1) v(4) b(1) p(3)] obtain sb1 b1 where
    f: "pool_free pool v = (VFS_OK, pool\<lparr>pool_sb := sb1, alloc_count := alloc_count pool - 1\<rparr>)" "store_ok sb1"
      "same_but_cache ?sb sb1" "page_view sb1 = (page_view ?sb)(?p \<mapsto> b1)" "free_slots b1 = ?s # free_slots b"
      "pool_page_ok ?ps b1" "rd8i b1 POOL_OFF_NEXT = rd8i b POOL_OFF_NEXT"
      "\<And>t. t \<noteq> ?s \<Longrightarrow> t < pool_slots ?ps \<Longrightarrow> chunk b1 (slot_offset t) 32 = chunk b (slot_offset t) 32" by blast
  let ?pool1 = "pool\<lparr>pool_sb := sb1, alloc_count := alloc_count pool - 1\<rparr>"
  have ps: "page_size sb1 = ?ps" using same_but_cache_fields [OF f(3)] by simp
  have pg1: "pool_pages (page_view sb1) (list_head pool) pages"
    by (rule pool_pages_cong [OF pg]) (use f b in auto)
  have ok1: "pool_ok ?pool1"
    using f pg1 each ps unfolding pool_ok_def by (intro conjI exI [of _ pages]) auto
  have dead: "\<not> live ?pool1 v" using f by (simp add: live_view)
  have others: "live ?pool1 w \<and> slot_view ?pool1 w = slot_view pool w" if w: "live pool w" "w \<noteq> v" "VFS_VPTR_SLOT w < pool_slots ?ps" for w
  proof (cases "VFS_VPTR_PAGE w = ?p")
    case True
    with w b(2) vptr_eqI [of w v] have "VFS_VPTR_SLOT w \<noteq> ?s" by (auto simp: live_view vptr_ok_def)
    with True w f b(1) show ?thesis by (auto simp: live_view slot_view_def view_slot_def ps)
  next
    case False
    with w f show ?thesis by (auto simp: live_view slot_view_def view_slot_def ps)
  qed
  have nn: "\<And>p. p \<in> set pages \<Longrightarrow> 0 \<le> p" using each by fastforce
  have first: "first_free_page (page_view sb1) pages = ?p"
    unfolding hd using f(4,5) by (simp add: first_free_page_def has_free_def)
  from find_free_law [OF f(2) pg1 nn, unfolded first] obtain sb2 where
    ff: "find_free_from (list_head pool) sb1 = Some (?p, sb2)" "store_ok sb2" "page_view sb2 = page_view sb1" by blast
  have mk: "VFS_VPTR_MAKE ?p (int ?s) = v" using p(1,2) b(2) by (simp add: vptr_make_split vptr_ok_def)
  from pool_alloc_take [of "?pool1\<lparr>pool_sb := sb2\<rparr>" ?p b1 ?s "free_slots b" ?pool1 ?p "?pool1\<lparr>pool_sb := sb2\<rparr>"] ff f(4,5) p(1)
  obtain pool2 where "pool_alloc ?pool1 = Some (v, pool2)" "alloc_count pool2 = alloc_count pool"
    by (auto simp: pool_list_find_free_def mk)
  with f(1) ok1 dead others show ?thesis by (intro exI [of _ ?pool1] exI [of _ pool2]) simp
qed

theorem pool_free_recycle_witness:
  "\<exists>pool v pool1 pool2. pool_ok pool \<and> live pool v \<and> pool_free pool v = (VFS_OK, pool1) \<and> \<not> live pool1 v
     \<and> pool_alloc pool1 = Some (v, pool2)"
proof -
  from demo_slot obtain pool v where p: "pool_ok pool" "live pool v" "VFS_VPTR_PAGE v = list_head pool"
    "list_head pool \<noteq> 0" "VFS_VPTR_SLOT v < pool_slots (page_size (pool_sb pool))" by blast
  from pool_free_recycle [OF this] p(1,2) show ?thesis by blast
qed



text \<open>
  C21: When all listed pages are full, an allocation succeeds but leaves a list of one page: the
  link to the older pages is written to a buffer that is then freed, so no list of pages from the new head
  contains an old page. A slot freed later on an older page is not found again by the search.
\<close>

theorem pool_alloc_drops_list:
  assumes ok: "pool_ok pool" "store_room (pool_sb pool) 1"
    and full: "pool_pages (page_view (pool_sb pool)) (list_head pool) pages" "\<forall>p \<in> set pages. 0 \<le> p"
      "\<forall>p \<in> set pages. \<not> has_free (page_view (pool_sb pool)) p"
  shows "\<exists>v pool'. pool_alloc pool = Some (v, pool') \<and> live pool' v
    \<and> (\<forall>pages'. pool_pages (page_view (pool_sb pool')) (list_head pool') pages' \<longrightarrow> set pages' \<inter> set pages = {})"
proof -
  let ?view = "page_view (pool_sb pool)"
  have so: "store_ok (pool_sb pool)" using ok(1) by (simp add: pool_ok_def)
  have "first_free_page ?view pages = 0"
    using full(3) by (auto simp: first_free_page_def find_None_iff split: option.splits dest: find_Some_iff [THEN iffD1])
  with find_free_law [OF so full(1)] full(2) obtain sb' where
    "find_free_from (list_head pool) (pool_sb pool) = Some (0, sb')" "store_ok sb'"
      "page_view sb' = ?view" "same_but_cache (pool_sb pool) sb'" by auto
  then have "pool_list_find_free pool = Some (0, pool\<lparr>pool_sb := sb'\<rparr>)" and
    f: "store_ok sb'" "page_view sb' = ?view" "same_but_cache (pool_sb pool) sb'" by (simp_all add: pool_list_find_free_def)
  from pool_alloc_grow [OF so _ this, of 0] ok(2) obtain p pool' where
    r: "pool_alloc pool = Some (VFS_VPTR_MAKE p (int 0), pool')" "alloc_step pool (VFS_VPTR_MAKE p (int 0)) pool'"
      "list_head pool' = p" "?view p = None" "pool_pages (page_view (pool_sb pool')) p [p]" by auto
  have "p \<notin> set pages" using pool_pages_members [OF full(1)] r(4) by blast
  then have "\<forall>pages'. pool_pages (page_view (pool_sb pool')) (list_head pool') pages' \<longrightarrow> set pages' \<inter> set pages = {}"
    using pool_pages_unique [OF r(5)] r(3) by fastforce
  with r(1,2) show ?thesis by (auto simp: alloc_step_def)
qed

theorem pool_alloc_drops_list_witness:
  "\<exists>pool p v pool'. pool_pages (page_view (pool_sb pool)) (list_head pool) [p] \<and> pool_alloc pool = Some (v, pool') \<and> live pool' v
     \<and> (\<forall>pages. pool_pages (page_view (pool_sb pool')) (list_head pool') pages \<longrightarrow> p \<notin> set pages)"
proof -
  let ?b = "zero_bytes 128"
  have so: "store_ok (pool_sb demo_pool)" and ps: "page_size (pool_sb demo_pool) = 128"
    using demo_pool(1) by (simp_all add: pool_ok_def demo_pool_def pool_init_def demo_sb_def)
  from allocate_ok [OF so, of 1] store_room_mono [OF demo_pool(2), of 2] obtain p sb1 where
    a: "store_ok sb1" "store_room sb1 1" "2 \<le> p" "p < 2 ^ 31" "indir_lookup sb1 p \<noteq> 0" "page_size sb1 = 128"
    using ps by (auto simp: numeral_2_eq_2)
  note w = write_ok [OF a(1) _ a(5), of ?b FLUSH_PRIO_POOL]
  let ?sb2 = "storage_write sb1 p ?b FLUSH_PRIO_POOL" and ?pool = "\<lparr>pool_sb = storage_write sb1 p ?b FLUSH_PRIO_POOL, list_head = p, alloc_count = 0\<rparr>"
  have v: "page_view ?sb2 p = Some ?b" "store_ok ?sb2" "store_room ?sb2 1" "page_size ?sb2 = 128"
    using w a same_but_cache_fields by auto
  have fs: "free_slots ?b = []" by (simp add: free_slots_def pool_state_free_count_def)
  have pg: "pool_pages (page_view (pool_sb ?pool)) (list_head ?pool) [p]" using v a(3) by simp
  have "pool_ok ?pool"
    using v a(3,4) pg fs unfolding pool_ok_def by (intro conjI exI [of _ "[p]"]) (simp_all add: pool_page_ok_def)
  moreover have "\<forall>q \<in> set [p]. 0 \<le> q" "\<forall>q \<in> set [p]. \<not> has_free (page_view (pool_sb ?pool)) q"
    using a(3) v(1) fs by (simp_all add: has_free_def)
  ultimately obtain u pool' where "pool_alloc ?pool = Some (u, pool')" "live pool' u"
    "\<forall>pages'. pool_pages (page_view (pool_sb pool')) (list_head pool') pages' \<longrightarrow> set pages' \<inter> set [p] = {}"
    using pool_alloc_drops_list [of ?pool "[p]"] v(3) pg by auto
  with pg show ?thesis by (intro exI [of _ ?pool] exI [of _ p] exI [of _ u] exI [of _ pool']) simp
qed

end
