(* ===== verification/Names.thy ===== *)
theory Names
  imports Pool
begin

text \<open>
  File names in the slot pool (the name section of \<^verbatim>\<open>src/nodes.c\<close>): a chain of slots, the first with an 8-byte hash
  and 16 bytes of name, the others with 24 bytes each, the next pointer at offset 24. Names are C strings; a
  name is the list of its bytes before the terminating zero.

  The lemmas build the chain from the slot heap contract of \<open>Pool\<close> and show that reading inverts writing.
\<close>

section \<open>Operations\<close>

definition nodes_write_name_entry :: "bytes \<Rightarrow> bytes \<Rightarrow> int \<Rightarrow> bytes" where
  "nodes_write_name_entry slot data_24 nextPtr = wr8i (blit slot 0 data_24) 24 nextPtr"

definition slots_needed :: "nat \<Rightarrow> nat" where
  "slots_needed total_len = (if total_len \<le> 16 then 1 else 1 + (total_len - 16 + 24 - 1) div 24)"

definition name_data :: "bytes \<Rightarrow> u64 \<Rightarrow> nat \<Rightarrow> bytes" where
  "name_data name hash i =
     (if i = 0 then blit (blit (zero_bytes 24) 0 (le_bytes 8 hash)) 8 (take 16 name)
      else blit (zero_bytes 24) 0 (take 24 (drop (16 + (i - 1) * 24) name)))"

primrec write_name_loop :: "nat \<Rightarrow> bytes \<Rightarrow> u64 \<Rightarrow> int \<Rightarrow> Pool \<Rightarrow> (int option \<times> Pool) option" where
  "write_name_loop 0 name hash next_vp pool = Some (Some next_vp, pool)"
| "write_name_loop (Suc i) name hash next_vp pool = do {
     (vp, pool) \<leftarrow> pool_alloc pool;
     if vp = 0 then Some (None, pool)
     else
       let (slot_data, pool) = pool_acquire pool vp True in
       if ps_vptr slot_data = 0 then Some (None, pool)
       else
         let slot_data = slot_data\<lparr>ps_bytes := nodes_write_name_entry (ps_bytes slot_data) (name_data name hash i) next_vp\<rparr>;
             (slot_data, pool) = pool_release pool slot_data
         in write_name_loop i name hash vp pool
   }"

text \<open>The result is the slot count and the pointer to the first slot; both are 0 on failure.\<close>

definition nodes_write_name :: "Pool \<Rightarrow> bytes \<Rightarrow> ((nat \<times> int) \<times> Pool) option" where
  "nodes_write_name pool utf8_name =
     (if utf8_name = [] then Some ((0, 0), pool)
      else
        let n = slots_needed (length utf8_name);
            hash = name_hash_compute utf8_name
        in do {
          (r, pool) \<leftarrow> write_name_loop n utf8_name hash 0 pool;
          case r of None \<Rightarrow> Some ((0, 0), pool) | Some vp \<Rightarrow> Some ((n, vp), pool)
        })"

text \<open>\<open>left\<close> is \<^verbatim>\<open>max_len - 1 - total\<close>.\<close>

function read_name_from :: "nat \<Rightarrow> bool \<Rightarrow> int \<Rightarrow> Pool \<Rightarrow> bytes \<times> Pool" where
  "read_name_from left first vp pool =
     (if vp = 0 \<or> left = 0 then ([], pool)
      else
        let (slot_data, pool) = pool_acquire pool vp False in
        if ps_vptr slot_data = 0 then ([], pool)
        else
          let (data_off, data_len) = (if first then (8, 16) else (0, 24));
              data = chunk (ps_bytes slot_data) data_off (min data_len left);
              (_, pool) = pool_release pool slot_data
          in if 0 \<in> set data then (takeWhile (\<lambda>b. b \<noteq> 0) data, pool)
             else let (rest, pool) = read_name_from (left - min data_len left) False (rd8i (ps_bytes slot_data) 24) pool
                  in (data @ rest, pool))"
  by auto
termination
  by (relation "measure fst") (auto split: if_splits)

definition nodes_read_name :: "Pool \<Rightarrow> int \<Rightarrow> nat \<Rightarrow> bytes \<times> Pool" where
  "nodes_read_name pool first_slot_vp max_len = read_name_from (max_len - 1) True first_slot_vp pool"

definition nodes_read_name_hash :: "Pool \<Rightarrow> int \<Rightarrow> u64 \<times> Pool" where
  "nodes_read_name_hash pool namePtr =
     (if namePtr = 0 then (0, pool)
      else
        let (slot, pool) = pool_acquire pool namePtr False in
        if ps_vptr slot = 0 then (0, pool) else (rd8 (ps_bytes slot) 0, pool))"

declare read_name_from.simps [simp del]

section \<open>The pieces of a name\<close>

text \<open>The name padded with zeros to the bytes its slots hold, cut into the pieces.\<close>

definition padded :: "bytes \<Rightarrow> bytes" where
  "padded name = name @ zero_bytes (16 + 24 * (slots_needed (length name) - 1) - length name)"

definition piece :: "bool \<Rightarrow> bytes \<Rightarrow> bytes" where
  "piece first b = (if first then chunk b 8 16 else chunk b 0 24)"

lemma slots_needed_cover: "length name \<le> 16 + 24 * (slots_needed (length name) - 1)" "0 < slots_needed n"
  by (auto simp: slots_needed_def)

lemma length_padded: "length (padded name) = 16 + 24 * (slots_needed (length name) - 1)"
  using slots_needed_cover(1) [of name] by (simp add: padded_def)

lemma nth_padded: "k < length (padded name) \<Longrightarrow> padded name ! k = (if k < length name then name ! k else 0)"
  by (auto simp: padded_def nth_append)

lemma takeWhile_padded: "0 \<notin> set name \<Longrightarrow> takeWhile (\<lambda>b. b \<noteq> 0) (padded name) = name"
proof -
  have "takeWhile (\<lambda>b. b \<noteq> 0) (zero_bytes n) = []" for n by (cases n) simp_all
  moreover assume "0 \<notin> set name"
  then have "\<And>x. x \<in> set name \<Longrightarrow> x \<noteq> 0" by blast
  ultimately show ?thesis unfolding padded_def by (subst takeWhile_append2) auto
qed

lemma blit_zero_take: "length xs \<le> n \<Longrightarrow> blit (zero_bytes n) 0 xs = xs @ zero_bytes (n - length xs)"
  by (simp add: blit_def)

lemma length_name_data [simp]: "length (name_data name h i) = 24"
  by (simp add: name_data_def)

lemma name_piece_first: "chunk (name_data name h 0) 8 16 = chunk (padded name) 0 16"
proof (rule nth_equalityI)
  show len: "length (chunk (name_data name h 0) 8 16) = length (chunk (padded name) 0 16)" by (simp add: length_padded)
  fix j assume "j < length (chunk (name_data name h 0) 8 16)"
  then have j: "j < 16" by simp
  then show "chunk (name_data name h 0) 8 16 ! j = chunk (padded name) 0 16 ! j"
    by (auto simp: nth_chunk name_data_def nth_blit length_padded nth_padded)
qed

lemma name_piece_chain:
  assumes "0 < i" "i < slots_needed (length name)"
  shows "name_data name h i = chunk (padded name) (16 + (i - 1) * 24) 24"
proof (rule nth_equalityI)
  let ?o = "16 + (i - 1) * 24"
  have in_range: "?o + 24 \<le> length (padded name)" using assms unfolding length_padded by linarith
  then show "length (name_data name h i) = length (chunk (padded name) ?o 24)" by simp
  fix j assume "j < length (name_data name h i)"
  then have j: "j < 24" by simp
  have "?o + j < length (padded name)" using j in_range by linarith
  then show "name_data name h i ! j = chunk (padded name) ?o 24 ! j"
    using j assms(1) in_range by (auto simp: nth_chunk name_data_def nth_blit nth_padded add.commute)
qed

lemma chunk_add: "chunk b off (m + n) = chunk b off m @ chunk b (off + m) n"
  by (simp add: chunk_def take_add add.commute)

lemma concat_chunks:
  "off + k * n \<le> length b \<Longrightarrow> concat (map (\<lambda>i. chunk b (off + i * n) n) [0..<k]) = chunk b off (k * n)"
proof (induction k)
  case (Suc k)
  then have "concat (map (\<lambda>i. chunk b (off + i * n) n) [0..<Suc k]) = chunk b off (k * n) @ chunk b (off + k * n) n"
    by simp
  also have "\<dots> = chunk b off (Suc k * n)"
    using chunk_add [of b off "k * n" n] by (simp add: add.commute)
  finally show ?case .
qed (simp add: chunk_def)

text \<open>All pieces in order make up the padded name.\<close>

definition pieces :: "bytes list \<Rightarrow> bytes" where
  "pieces bs = (case bs of [] \<Rightarrow> [] | b # bs \<Rightarrow> piece True b @ concat (map (piece False) bs))"

lemma pieces_name:
  assumes "length bs = slots_needed (length name)"
    and "\<And>i. i < length bs \<Longrightarrow> chunk (bs ! i) 0 24 = name_data name h i" "\<And>b. b \<in> set bs \<Longrightarrow> length b = 32"
  shows "pieces bs = padded name"
proof -
  let ?n = "slots_needed (length name)"
  from assms(1) slots_needed_cover(2) [of "length name"] obtain b bs' where bs: "bs = b # bs'" by (cases bs) auto
  have sub: "chunk (chunk b 0 24) 8 16 = chunk b 8 16" using assms(3) bs by (auto simp: chunk_def take_drop)
  have "piece True b = chunk (padded name) 0 16"
    using assms(2) [of 0] bs sub name_piece_first [of name h] by (simp add: piece_def)
  moreover have "map (piece False) bs' = map (\<lambda>i. chunk (padded name) (16 + i * 24) 24) [0..<?n - 1]"
  proof (rule nth_equalityI)
    show "length (map (piece False) bs') = length (map (\<lambda>i. chunk (padded name) (16 + i * 24) 24) [0..<?n - 1])"
      using assms(1) bs by simp
    fix i assume "i < length (map (piece False) bs')"
    then have i: "i < length bs'" "Suc i < ?n" using assms(1) bs by simp_all
    then have "piece False (bs' ! i) = name_data name h (Suc i)" using assms(2) [of "Suc i"] bs by (simp add: piece_def)
    also have "\<dots> = chunk (padded name) (16 + i * 24) 24" using name_piece_chain [of "Suc i" name h] i(2) by simp
    finally show "map (piece False) bs' ! i = map (\<lambda>i. chunk (padded name) (16 + i * 24) 24) [0..<?n - 1] ! i"
      using i assms(1) bs by simp
  qed
  then have "concat (map (piece False) bs') = chunk (padded name) 16 ((?n - 1) * 24)"
    using concat_chunks [of 16 "?n - 1" 24 "padded name"] by (simp add: length_padded mult.commute)
  ultimately have "pieces bs = chunk (padded name) 0 (16 + (?n - 1) * 24)"
    by (simp add: pieces_def bs chunk_add)
  also have "\<dots> = padded name" by (rule chunk_all) (simp add: length_padded mult.commute)
  finally show ?thesis .
qed

section \<open>Reading a chain\<close>

lemma takeWhile_take_nonzero: "takeWhile P (take n xs) = take n (takeWhile P xs)"
  by (induction xs arbitrary: n) (auto simp: take_Cons split: nat.splits)

lemma read_name_chain:
  assumes "pool_ok pool" "slot_chain pool 24 vp bs"
  shows "\<exists>pool'. read_name_from left first vp pool
      = (take left (takeWhile (\<lambda>b. b \<noteq> 0) (case bs of [] \<Rightarrow> [] | b # bs' \<Rightarrow> piece first b @ concat (map (piece False) bs'))), pool')
    \<and> pool_ok pool' \<and> slot_view pool' = slot_view pool \<and> live pool' = live pool"
  using assms
proof (induction bs arbitrary: left first vp pool)
  case Nil
  then show ?case by (simp add: read_name_from.simps)
next
  case (Cons b bs)
  show ?case
  proof (cases "left = 0")
    case True
    then show ?thesis using Cons.prems by (simp add: read_name_from.simps)
  next
    case False
    from Cons.prems have v: "vp \<noteq> 0" "live pool vp" "slot_view pool vp = Some b" "slot_chain pool 24 (rd8i b 24) bs" by simp_all
    from pool_read_slot [OF Cons.prems(1) v(2,3)] obtain slot pool1 where
      r: "pool_acquire pool vp False = (slot, pool1)" "pool_release pool1 slot = (slot, pool1)" "ps_vptr slot = vp"
        "ps_bytes slot = b" "length b = 32" "pool_ok pool1" "slot_view pool1 = slot_view pool" "live pool1 = live pool" by blast
    let ?len = "if first then 16 else (24::nat)" and ?off = "if first then 8 else (0::nat)"
    define data where "data = chunk b ?off (min ?len left)"
    have data: "data = take left (piece first b)" "length (piece first b) = ?len"
      using r(5) by (auto simp: data_def piece_def chunk_def min.commute)
    let ?rest = "concat (map (piece False) bs)"
    have step: "read_name_from left first vp pool = (if 0 \<in> set data then (takeWhile (\<lambda>b. b \<noteq> 0) data, pool1)
        else let (rest, pool) = read_name_from (left - min ?len left) False (rd8i b 24) pool1 in (data @ rest, pool))"
      using False v(1) r(1-4) by (subst read_name_from.simps) (auto simp: data_def Let_def split: if_splits)
    show ?thesis
    proof (cases "0 \<in> set data")
      case True
      then have z: "0 \<in> set (piece first b)" using data set_take_subset by fastforce
      then have "takeWhile (\<lambda>b. b \<noteq> 0) (piece first b @ ?rest) = takeWhile (\<lambda>b. b \<noteq> 0) (piece first b)"
        by (auto simp: takeWhile_append)
      then show ?thesis using step True r data by (simp add: takeWhile_take_nonzero)
    next
      case False
      have chain1: "slot_chain pool1 24 (rd8i b 24) bs"
        using slot_chain_keeps [of pool pool1] v(4) r(7,8) by (simp add: keeps_def)
      from Cons.IH [OF r(6) this, of "left - min ?len left" False] obtain pool' where
        ih: "read_name_from (left - min ?len left) False (rd8i b 24) pool1
            = (take (left - min ?len left) (takeWhile (\<lambda>b. b \<noteq> 0) ?rest), pool')"
          "pool_ok pool'" "slot_view pool' = slot_view pool" "live pool' = live pool"
        using r(7,8) by (cases bs) auto
      have "take left (takeWhile (\<lambda>b. b \<noteq> 0) (piece first b @ ?rest)) = data @ take (left - min ?len left) (takeWhile (\<lambda>b. b \<noteq> 0) ?rest)"
      proof (cases "left \<le> ?len")
        case True
        have "take left (takeWhile (\<lambda>b. b \<noteq> 0) (piece first b @ ?rest)) = takeWhile (\<lambda>b. b \<noteq> 0) (take left (piece first b @ ?rest))"
          by (rule takeWhile_take_nonzero [symmetric])
        also have "\<dots> = takeWhile (\<lambda>b. b \<noteq> 0) data" using True data by simp
        also have "\<dots> = data" using False by (intro takeWhile_eq_all_conv [THEN iffD2]) auto
        finally show ?thesis using True by simp
      next
        case less: False
        then have "data = piece first b" using data by simp
        then have nz: "\<And>x. x \<in> set (piece first b) \<Longrightarrow> x \<noteq> 0" using False by auto
        show ?thesis using less data nz \<open>data = piece first b\<close> by (subst takeWhile_append2) auto
      qed
      then show ?thesis using step False ih by simp
    qed
  qed
qed

section \<open>Writing a chain\<close>

lemma name_entry_laws:
  assumes "length slot = 32" "length d = 24" "i64 next"
  shows "length (nodes_write_name_entry slot d next) = 32" "chunk (nodes_write_name_entry slot d next) 0 24 = d"
    "rd8i (nodes_write_name_entry slot d next) 24 = next"
  using assms
  by (simp_all add: nodes_write_name_entry_def buf_simps wr8_def chunk_blit_disjoint chunk_blit_same del: le_bytes.simps)
     (simp add: wr8_def [symmetric] buf_simps)

lemma live_i64: "live pool v \<Longrightarrow> i64 v"
  by (simp add: live_def vptr_ok_def i64_def)

lemma write_name_loop_ok:
  assumes "pool_ok pool" "store_room (pool_sb pool) (i + k)" "slot_chain pool 24 next bs" "\<And>b. b \<in> set bs \<Longrightarrow> length b = 32"
  shows "\<exists>vp pool' cs. write_name_loop i name h next pool = Some (Some vp, pool') \<and> pool_ok pool' \<and> store_room (pool_sb pool') k
    \<and> keeps pool pool' \<and> slot_chain pool' 24 vp (cs @ bs) \<and> length cs = i
    \<and> (\<forall>j < i. chunk (cs ! j) 0 24 = name_data name h j) \<and> (\<forall>b \<in> set cs. length b = 32)
    \<and> (0 < i \<longrightarrow> \<not> live pool vp)"
  using assms
proof (induction i arbitrary: pool "next" bs)
  case 0
  then show ?case by (intro exI [of _ "next"] exI [of _ pool] exI [of _ "[]"]) simp
next
  case (Suc i)
  let ?f = "\<lambda>b. nodes_write_name_entry b (name_data name h i) next"
  have nx: "i64 next" using slot_chain_live [OF Suc.prems(3)] by (auto dest: live_i64 simp: i64_def)
  have room: "store_room (pool_sb pool) (Suc (i + k))" using Suc.prems(2) by simp
  have f: "length (?f b) = 32" if "length b = 32" for b using that nx by (simp add: name_entry_laws)
  from pool_new_slot [where f = ?f, OF Suc.prems(1) room f] obtain v pool1 slot pool2 slot' pool' where
    n: "pool_alloc pool = Some (v, pool1)" "v \<noteq> 0" "pool_acquire pool1 v True = (slot, pool2)" "ps_vptr slot = v"
      "length (ps_bytes slot) = 32" "pool_release pool2 (slot\<lparr>ps_bytes := ?f (ps_bytes slot)\<rparr>) = (slot', pool')"
      "pool_ok pool'" "store_room (pool_sb pool') (i + k)" "keeps pool pool'" "\<not> live pool v" "live pool' v"
      "slot_view pool' v = Some (?f (ps_bytes slot))" by blast
  let ?b = "?f (ps_bytes slot)"
  have b: "length ?b = 32" "chunk ?b 0 24 = name_data name h i" "rd8i ?b 24 = next"
    using n(5) nx by (simp_all add: name_entry_laws)
  have chain: "slot_chain pool' 24 v (?b # bs)" using n b slot_chain_keeps [OF n(9) Suc.prems(3)] by simp
  have bl: "length c = 32" if "c \<in> set (?b # bs)" for c using that b Suc.prems(4) by auto
  from Suc.IH [OF n(7,8) chain bl] obtain vp pool'' cs where
    ih: "write_name_loop i name h v pool' = Some (Some vp, pool'')" "pool_ok pool''" "store_room (pool_sb pool'') k"
      "keeps pool' pool''" "slot_chain pool'' 24 vp (cs @ ?b # bs)" "length cs = i"
      "\<forall>j < i. chunk (cs ! j) 0 24 = name_data name h j" "\<forall>b \<in> set cs. length b = 32" "0 < i \<longrightarrow> \<not> live pool' vp" by blast
  have "write_name_loop (Suc i) name h next pool = Some (Some vp, pool'')" using n(1-4,6) ih(1) by simp
  moreover have "slot_chain pool'' 24 vp ((cs @ [?b]) @ bs)" "length (cs @ [?b]) = Suc i" using ih by simp_all
  moreover have "\<forall>j < Suc i. chunk ((cs @ [?b]) ! j) 0 24 = name_data name h j" using ih(6,7) b(2) by (auto simp: nth_append less_Suc_eq)
  moreover have "\<forall>b \<in> set (cs @ [?b]). length b = 32" using ih(8) b(1) by auto
  moreover have "\<not> live pool vp"
  proof (cases "i = 0")
    case True
    then show ?thesis using ih(1) n(10) by simp
  next
    case False
    then show ?thesis using ih(9) keepsD [OF n(9)] by blast
  qed
  ultimately show ?case using ih(2,3) keeps_trans [OF n(9) ih(4)] by blast
qed

section \<open>Properties\<close>

text \<open>
  C22: Writing a name and reading it back gives the name: with room for its slots the write returns, uses
  exactly the computed number of slots, leaves every slot in use untouched, and a read with a buffer that is large enough
  returns the bytes written, for names of any length without a zero byte. The hash in the first slot is
  the hash of the name.
\<close>

theorem nodes_name_roundtrip:
  assumes "pool_ok pool" "name \<noteq> []" "0 \<notin> set name" "store_room (pool_sb pool) (slots_needed (length name))" "length name < max_len"
  shows "\<exists>vp pool'. nodes_write_name pool name = Some ((slots_needed (length name), vp), pool') \<and> pool_ok pool' \<and> vp \<noteq> 0
    \<and> \<not> live pool vp \<and> keeps pool pool' \<and> fst (nodes_read_name pool' vp max_len) = name
    \<and> fst (nodes_read_name_hash pool' vp) = name_hash_compute name"
proof -
  let ?n = "slots_needed (length name)" and ?h = "name_hash_compute name"
  from write_name_loop_ok [of pool ?n 0 0 "[]" name ?h] assms(1,4) obtain vp pool' cs where
    w: "write_name_loop ?n name ?h 0 pool = Some (Some vp, pool')" "pool_ok pool'" "keeps pool pool'"
      "slot_chain pool' 24 vp cs" "length cs = ?n" "\<forall>j < ?n. chunk (cs ! j) 0 24 = name_data name ?h j"
      "\<forall>b \<in> set cs. length b = 32" "0 < ?n \<longrightarrow> \<not> live pool vp" by auto
  have n: "0 < ?n" by (rule slots_needed_cover)
  with w(5) obtain c cs' where cs: "cs = c # cs'" by (cases cs) auto
  with w(4) have vp: "vp \<noteq> 0" "live pool' vp" "slot_view pool' vp = Some c" by simp_all
  have "pieces cs = padded name" using w(5-7) by (intro pieces_name [where h = ?h]) simp_all
  moreover from read_name_chain [OF w(2,4), of "max_len - 1" True] have
    "fst (nodes_read_name pool' vp max_len) = take (max_len - 1) (takeWhile (\<lambda>b. b \<noteq> 0) (pieces cs))"
    by (auto simp: nodes_read_name_def pieces_def)
  ultimately have rd: "fst (nodes_read_name pool' vp max_len) = name" using takeWhile_padded [OF assms(3)] assms(5) by simp
  from pool_read_slot [OF w(2) vp(2,3)] vp(1) have "fst (nodes_read_name_hash pool' vp) = rd8 c 0"
    by (auto simp: nodes_read_name_hash_def)
  also have "\<dots> = ?h"
  proof -
    have "chunk c 0 8 = chunk (chunk c 0 24) 0 8" by (simp add: chunk_def)
    also have "\<dots> = chunk (name_data name ?h 0) 0 8" using w(6) n cs by auto
    also have "\<dots> = le_bytes 8 ?h" by (simp add: name_data_def chunk_blit_disjoint chunk_blit_same del: le_bytes.simps)
    finally have "rd8 c 0 = le_word (le_bytes 8 ?h)" by (simp add: rd8_def del: le_bytes.simps)
    also have "\<dots> = ?h" by (simp add: le_word_le_bytes take_bit_word_eq_self del: le_bytes.simps)
    finally show ?thesis .
  qed
  finally have hash: "fst (nodes_read_name_hash pool' vp) = ?h" .
  have "nodes_write_name pool name = Some ((?n, vp), pool')" using assms(2) w(1) by (simp add: nodes_write_name_def Let_def)
  with w vp rd hash n show ?thesis by blast
qed

theorem nodes_name_roundtrip_witness:
  "\<exists>vp pool. nodes_write_name demo_pool (replicate 41 97) = Some ((3, vp), pool)
     \<and> fst (nodes_read_name pool vp 256) = replicate 41 97"
proof -
  have "slots_needed 41 = 3" by (simp add: slots_needed_def)
  then show ?thesis
    using nodes_name_roundtrip [OF demo_pool(1), of "replicate 41 97" 256] store_room_mono [OF demo_pool(2), of 3] by auto
qed

end
