(* ===== verification/Mapper.thy ===== *)
theory Mapper
  imports Pool
begin

text \<open>
  The epoch mapper (\<^verbatim>\<open>src/mapper.h\<close>, \<^verbatim>\<open>src/mapper.c\<close>): a chain of mapper entries in the slot pool, rooted in
  the superblock, and an in-memory table of the same entries for the query path.

  Walks over the chain have no bound in the code, so they are partial functions; None means that the call
  does not return. \<^verbatim>\<open>mapper_resolve\<close> and \<^verbatim>\<open>mapper_traversal_apply\<close> run the same loop, \<open>mapper_find\<close>, and
  \<^verbatim>\<open>mapper_table_init\<close> and \<^verbatim>\<open>mapper_table_rebuild\<close> the same loading loop.

  The lemmas show the single-hop invariant, that resolution is the lookup it stands for, and that
  the table refines the chain.
\<close>

section \<open>The chain\<close>

record Mapper =
  mp_pool :: Pool
  epochMapperPtr :: int

definition mapper_init :: "Pool \<Rightarrow> int \<Rightarrow> Mapper" where
  "mapper_init pool head = \<lparr>mp_pool = pool, epochMapperPtr = head\<rparr>"

partial_function (option) mapper_check :: "int \<Rightarrow> u32 \<Rightarrow> u32 \<Rightarrow> Pool \<Rightarrow> (vfs_error_t \<times> Pool) option" where
  "mapper_check vp fromEpoch toEpoch pool =
     (if vp = 0 then Some (VFS_OK, pool)
      else
        let (slot, pool) = pool_acquire pool vp False in
        if ps_vptr slot = 0 then Some (VFS_ERR_IO, pool)
        else
          let entry = nodes_read_mapperentry (ps_bytes slot);
              (_, pool) = pool_release pool slot in
          if me_fromEpoch entry = fromEpoch then Some (VFS_ERR_EXISTS, pool)
          else if me_toEpoch entry = toEpoch then Some (VFS_ERR_EXISTS, pool)
          else if me_fromEpoch entry = toEpoch then Some (VFS_ERR_EXISTS, pool)
          else if me_toEpoch entry = fromEpoch then Some (VFS_ERR_EXISTS, pool)
          else mapper_check (me_nextPtr entry) fromEpoch toEpoch pool)"

definition mapper_insert :: "Mapper \<Rightarrow> u32 \<Rightarrow> u32 \<Rightarrow> u16 \<Rightarrow> (vfs_error_t \<times> Mapper) option" where
  "mapper_insert m fromEpoch toEpoch flags = do {
     (err, pool) \<leftarrow> mapper_check (epochMapperPtr m) fromEpoch toEpoch (mp_pool m);
     if err \<noteq> VFS_OK then Some (err, m\<lparr>mp_pool := pool\<rparr>)
     else do {
       (new_vp, pool) \<leftarrow> pool_alloc pool;
       if new_vp = 0 then Some (VFS_ERR_FULL, m\<lparr>mp_pool := pool\<rparr>)
       else
         let (new_slot, pool) = pool_acquire pool new_vp True in
         if ps_vptr new_slot = 0 then Some (VFS_ERR_IO, m\<lparr>mp_pool := pool\<rparr>)
         else
           let old_head = epochMapperPtr m;
               new_slot = new_slot\<lparr>ps_bytes := nodes_write_mapperentry (ps_bytes new_slot)
                 \<lparr>me_fromEpoch = fromEpoch, me_toEpoch = toEpoch, me_flags = flags, me_nextPtr = old_head\<rparr>\<rparr>;
               (_, pool) = pool_release pool new_slot
           in Some (VFS_OK, m\<lparr>mp_pool := pool, epochMapperPtr := new_vp\<rparr>)
     }
   }"

partial_function (option) mapper_find :: "int \<Rightarrow> u32 \<Rightarrow> Pool \<Rightarrow> (MapperEntry option \<times> Pool) option" where
  "mapper_find vp query pool =
     (if vp = 0 then Some (None, pool)
      else
        let (slot, pool) = pool_acquire pool vp False in
        if ps_vptr slot = 0 then Some (None, pool)
        else
          let entry = nodes_read_mapperentry (ps_bytes slot);
              (_, pool) = pool_release pool slot in
          if me_fromEpoch entry = query then Some (Some entry, pool)
          else mapper_find (me_nextPtr entry) query pool)"

definition mapper_resolve :: "Mapper \<Rightarrow> int \<Rightarrow> (int \<times> Mapper) option" where
  "mapper_resolve m epoch = do {
     (r, pool) \<leftarrow> mapper_find (epochMapperPtr m) (word_of_int epoch) (mp_pool m);
     Some (case r of None \<Rightarrow> epoch | Some entry \<Rightarrow> uint (me_toEpoch entry), m\<lparr>mp_pool := pool\<rparr>)
   }"

definition mapper_traversal_apply :: "Mapper \<Rightarrow> int \<Rightarrow> (bool \<times> Mapper) option" where
  "mapper_traversal_apply m epoch = do {
     (r, pool) \<leftarrow> mapper_find (epochMapperPtr m) (word_of_int epoch) (mp_pool m);
     Some (case r of None \<Rightarrow> False | Some entry \<Rightarrow> me_flags entry AND MAPPER_FLAG_TRAVERSAL_APPLY \<noteq> 0, m\<lparr>mp_pool := pool\<rparr>)
   }"

text \<open>The count of entries, or None inside the result for the I/O error.\<close>

partial_function (option) mapper_count :: "int \<Rightarrow> nat \<Rightarrow> Pool \<Rightarrow> (nat option \<times> Pool) option" where
  "mapper_count vp count pool =
     (if vp = 0 then Some (Some count, pool)
      else
        let (slot, pool) = pool_acquire pool vp False in
        if ps_vptr slot = 0 then Some (None, pool)
        else
          let entry = nodes_read_mapperentry (ps_bytes slot);
              (_, pool) = pool_release pool slot
          in mapper_count (me_nextPtr entry) (count + 1) pool)"

definition mapper_validate :: "Mapper \<Rightarrow> (nat option \<times> Mapper) option" where
  "mapper_validate m = do {
     (r, pool) \<leftarrow> mapper_count (epochMapperPtr m) 0 (mp_pool m);
     Some (r, m\<lparr>mp_pool := pool\<rparr>)
   }"

section \<open>The table\<close>

record MapperEntryRow =
  fromEpoch :: u32
  toEpoch :: u32
  traversalApply :: bool

text \<open>\<open>mt_entries\<close> holds the first \<^verbatim>\<open>count\<close> rows of the array; None is the null pointer.\<close>

record MapperTable =
  mt_entries :: "MapperEntryRow list option"
  mt_capacity :: nat

definition pool_malloc :: "Pool \<Rightarrow> bool \<times> Pool" where
  "pool_malloc pool = (let (ok, sb) = malloc (pool_sb pool) in (ok, pool\<lparr>pool_sb := sb\<rparr>))"

definition mapper_table_append :: "MapperTable \<Rightarrow> MapperEntryRow \<Rightarrow> Pool \<Rightarrow> vfs_error_t \<times> MapperTable \<times> Pool" where
  "mapper_table_append tbl row pool =
     (case mt_entries tbl of
        None \<Rightarrow> (VFS_ERR_IO, tbl, pool)
      | Some rows \<Rightarrow>
          if length rows \<ge> mt_capacity tbl then
            let (ok, pool) = pool_malloc pool in
            if \<not> ok then (VFS_ERR_NOMEM, tbl, pool)
            else (VFS_OK, \<lparr>mt_entries = Some (rows @ [row]), mt_capacity = mt_capacity tbl * 2\<rparr>, pool)
          else (VFS_OK, tbl\<lparr>mt_entries := Some (rows @ [row])\<rparr>, pool))"

definition row_of :: "MapperEntry \<Rightarrow> MapperEntryRow" where
  "row_of entry = \<lparr>fromEpoch = me_fromEpoch entry, toEpoch = me_toEpoch entry,
     traversalApply = (me_flags entry AND MAPPER_FLAG_TRAVERSAL_APPLY \<noteq> 0)\<rparr>"

partial_function (option) mapper_table_load ::
  "int \<Rightarrow> MapperTable \<Rightarrow> Pool \<Rightarrow> (vfs_error_t \<times> MapperTable \<times> Pool) option" where
  "mapper_table_load vp tbl pool =
     (if vp = 0 then Some (VFS_OK, tbl, pool)
      else
        let (slot, pool) = pool_acquire pool vp False in
        if ps_vptr slot = 0 then Some (VFS_ERR_IO, tbl, pool)
        else
          let entry = nodes_read_mapperentry (ps_bytes slot);
              (_, pool) = pool_release pool slot;
              (err, tbl, pool) = mapper_table_append tbl (row_of entry) pool in
          if err \<noteq> VFS_OK then Some (err, tbl, pool)
          else mapper_table_load (me_nextPtr entry) tbl pool)"

definition mapper_table_init :: "Pool \<Rightarrow> int \<Rightarrow> (vfs_error_t \<times> MapperTable \<times> Pool) option" where
  "mapper_table_init pool head =
     (let (ok, pool) = pool_malloc pool in
      if \<not> ok then Some (VFS_ERR_NOMEM, \<lparr>mt_entries = None, mt_capacity = 8\<rparr>, pool)
      else mapper_table_load head \<lparr>mt_entries = Some [], mt_capacity = 8\<rparr> pool)"

definition mapper_table_destroy :: "MapperTable \<Rightarrow> MapperTable" where
  "mapper_table_destroy tbl = \<lparr>mt_entries = None, mt_capacity = 0\<rparr>"

definition mapper_table_rebuild :: "MapperTable \<Rightarrow> Mapper \<Rightarrow> (vfs_error_t \<times> MapperTable \<times> Pool) option" where
  "mapper_table_rebuild tbl m =
     (let tbl = \<lparr>mt_entries = None, mt_capacity = 8\<rparr>;
          (ok, pool) = pool_malloc (mp_pool m) in
      if \<not> ok then Some (VFS_ERR_NOMEM, tbl, pool)
      else mapper_table_load (epochMapperPtr m) (tbl\<lparr>mt_entries := Some []\<rparr>) pool)"

fun find_row :: "u32 \<Rightarrow> MapperEntryRow list \<Rightarrow> MapperEntryRow option" where
  "find_row query [] = None"
| "find_row query (row # rows) = (if fromEpoch row = query then Some row else find_row query rows)"

definition mapper_table_resolve :: "MapperTable \<Rightarrow> int \<Rightarrow> int" where
  "mapper_table_resolve tbl epoch =
     (case mt_entries tbl of None \<Rightarrow> epoch
      | Some rows \<Rightarrow> (case find_row (word_of_int epoch) rows of None \<Rightarrow> epoch | Some row \<Rightarrow> uint (toEpoch row)))"

definition mapper_table_traversal_apply :: "MapperTable \<Rightarrow> int \<Rightarrow> bool" where
  "mapper_table_traversal_apply tbl epoch =
     (case mt_entries tbl of None \<Rightarrow> False
      | Some rows \<Rightarrow> (case find_row (word_of_int epoch) rows of None \<Rightarrow> False | Some row \<Rightarrow> traversalApply row))"

definition mapper_table_insert ::
  "MapperTable \<Rightarrow> Mapper \<Rightarrow> u32 \<Rightarrow> u32 \<Rightarrow> bool \<Rightarrow> (vfs_error_t \<times> MapperTable \<times> Mapper) option" where
  "mapper_table_insert tbl m from_e to_e apply_flag =
     (if mt_entries tbl = None then Some (VFS_ERR_IO, tbl, m)
      else do {
        (err, m) \<leftarrow> mapper_insert m from_e to_e (if apply_flag then MAPPER_FLAG_TRAVERSAL_APPLY else 0);
        if err \<noteq> VFS_OK then Some (err, tbl, m)
        else
          let (err, tbl, pool) = mapper_table_append tbl \<lparr>fromEpoch = from_e, toEpoch = to_e, traversalApply = apply_flag\<rparr> (mp_pool m)
          in Some (err, tbl, m\<lparr>mp_pool := pool\<rparr>)
      })"

section \<open>Walking the chain\<close>

text \<open>A walk that only reads leaves the heap as it is.\<close>

definition same_heap :: "Pool \<Rightarrow> Pool \<Rightarrow> bool" where
  "same_heap pool pool' \<longleftrightarrow> pool_ok pool' \<and> slot_view pool' = slot_view pool \<and> live pool' = live pool
     \<and> store_room (pool_sb pool') = store_room (pool_sb pool)"

lemma same_heap_refl: "pool_ok pool \<Longrightarrow> same_heap pool pool"
  by (simp add: same_heap_def)

lemma same_heap_trans [trans]: "same_heap a b \<Longrightarrow> same_heap b c \<Longrightarrow> same_heap a c"
  by (simp add: same_heap_def)

lemma same_heap_ok: "same_heap pool pool' \<Longrightarrow> pool_ok pool'"
  by (simp add: same_heap_def)

lemma same_heap_keeps: "same_heap pool pool' \<Longrightarrow> keeps pool pool'"
  by (simp add: same_heap_def keeps_def)

lemma same_heap_chain: "same_heap pool pool' \<Longrightarrow> slot_chain pool' off v bs = slot_chain pool off v bs"
  by (induction bs arbitrary: v) (auto simp: same_heap_def)

lemma read_slot_same:
  assumes "pool_ok pool" "live pool v" "slot_view pool v = Some b"
  obtains slot pool' where "pool_acquire pool v False = (slot, pool')" "pool_release pool' slot = (slot, pool')" "ps_vptr slot = v"
    "ps_bytes slot = b" "v \<noteq> 0" "same_heap pool pool'"
  using pool_read_slot [OF assms] unfolding same_heap_def by blast

text \<open>One step of a read-only walk.\<close>

lemma slot_chain_step:
  assumes "pool_ok pool" "slot_chain pool off v (b # bs)"
  obtains slot pool' where "pool_acquire pool v False = (slot, pool')" "pool_release pool' slot = (slot, pool')" "ps_vptr slot = v"
    "ps_bytes slot = b" "same_heap pool pool'" "v \<noteq> 0" "pool_ok pool'" "slot_chain pool' off (rd8i b off) bs"
proof -
  from assms(2) have v: "live pool v" "slot_view pool v = Some b" "slot_chain pool off (rd8i b off) bs" by simp_all
  obtain slot pool' where r: "pool_acquire pool v False = (slot, pool')" "pool_release pool' slot = (slot, pool')" "ps_vptr slot = v"
    "ps_bytes slot = b" "v \<noteq> 0" "same_heap pool pool'" by (rule read_slot_same [OF assms(1) v(1,2)])
  moreover have "slot_chain pool' off (rd8i b off) bs" using v(3) same_heap_chain [OF r(6)] by simp
  ultimately show thesis using that same_heap_ok by blast
qed

definition mapper_entries :: "bytes list \<Rightarrow> MapperEntry list" where
  "mapper_entries bs = map nodes_read_mapperentry bs"

definition conflicts :: "u32 \<Rightarrow> u32 \<Rightarrow> MapperEntry \<Rightarrow> bool" where
  "conflicts f t e \<longleftrightarrow> me_fromEpoch e = f \<or> me_toEpoch e = t \<or> me_fromEpoch e = t \<or> me_toEpoch e = f"

lemma me_next: "me_nextPtr (nodes_read_mapperentry b) = rd8i b 16"
  by (simp add: nodes_read_mapperentry_def)

lemma mapper_check_law:
  assumes "pool_ok pool" "slot_chain pool 16 vp bs"
  shows "\<exists>pool'. mapper_check vp f t pool
      = Some (if \<exists>e \<in> set (mapper_entries bs). conflicts f t e then VFS_ERR_EXISTS else VFS_OK, pool') \<and> same_heap pool pool'"
  using assms
proof (induction bs arbitrary: vp pool)
  case Nil
  then show ?case by (subst mapper_check.simps) (simp add: mapper_entries_def same_heap_refl)
next
  case (Cons b bs)
  obtain slot pool1 where r: "pool_acquire pool vp False = (slot, pool1)" "pool_release pool1 slot = (slot, pool1)"
    "ps_vptr slot = vp" "ps_bytes slot = b" "same_heap pool pool1" "vp \<noteq> 0" "pool_ok pool1"
    "slot_chain pool1 16 (rd8i b 16) bs" by (rule slot_chain_step [OF Cons.prems])
  let ?e = "nodes_read_mapperentry b"
  show ?case
  proof (cases "conflicts f t ?e")
    case True
    then have "mapper_check vp f t pool = Some (VFS_ERR_EXISTS, pool1)"
      using r by (subst mapper_check.simps) (auto simp: conflicts_def Let_def)
    then show ?thesis using True r(5) by (simp add: mapper_entries_def)
  next
    case False
    then have step: "mapper_check vp f t pool = mapper_check (rd8i b 16) f t pool1"
      using r by (subst mapper_check.simps) (simp add: conflicts_def Let_def me_next)
    from Cons.IH [OF r(7,8)] obtain pool' where
      "mapper_check (rd8i b 16) f t pool1
        = Some (if \<exists>e \<in> set (mapper_entries bs). conflicts f t e then VFS_ERR_EXISTS else VFS_OK, pool')" "same_heap pool1 pool'"
      by blast
    then show ?thesis using step False same_heap_trans [OF r(5)] by (auto simp: mapper_entries_def)
  qed
qed

lemma mapper_find_law:
  assumes "pool_ok pool" "slot_chain pool 16 vp bs"
  shows "\<exists>pool'. mapper_find vp q pool = Some (find (\<lambda>e. me_fromEpoch e = q) (mapper_entries bs), pool') \<and> same_heap pool pool'"
  using assms
proof (induction bs arbitrary: vp pool)
  case Nil
  then show ?case by (subst mapper_find.simps) (simp add: mapper_entries_def same_heap_refl)
next
  case (Cons b bs)
  obtain slot pool1 where r: "pool_acquire pool vp False = (slot, pool1)" "pool_release pool1 slot = (slot, pool1)"
    "ps_vptr slot = vp" "ps_bytes slot = b" "same_heap pool pool1" "vp \<noteq> 0" "pool_ok pool1"
    "slot_chain pool1 16 (rd8i b 16) bs" by (rule slot_chain_step [OF Cons.prems])
  show ?case
  proof (cases "me_fromEpoch (nodes_read_mapperentry b) = q")
    case True
    then show ?thesis using r by (subst mapper_find.simps) (simp add: mapper_entries_def Let_def)
  next
    case False
    then have step: "mapper_find vp q pool = mapper_find (rd8i b 16) q pool1"
      using r by (subst mapper_find.simps) (simp add: Let_def me_next)
    from Cons.IH [OF r(7,8)] obtain pool' where
      "mapper_find (rd8i b 16) q pool1 = Some (find (\<lambda>e. me_fromEpoch e = q) (mapper_entries bs), pool')" "same_heap pool1 pool'"
      by blast
    then show ?thesis using step False same_heap_trans [OF r(5)] by (auto simp: mapper_entries_def)
  qed
qed

lemma mapper_count_law:
  assumes "pool_ok pool" "slot_chain pool 16 vp bs"
  shows "\<exists>pool'. mapper_count vp n pool = Some (Some (n + length bs), pool') \<and> same_heap pool pool'"
  using assms
proof (induction bs arbitrary: vp pool n)
  case Nil
  then show ?case by (subst mapper_count.simps) (simp add: same_heap_refl)
next
  case (Cons b bs)
  obtain slot pool1 where r: "pool_acquire pool vp False = (slot, pool1)" "pool_release pool1 slot = (slot, pool1)"
    "ps_vptr slot = vp" "ps_bytes slot = b" "same_heap pool pool1" "vp \<noteq> 0" "pool_ok pool1"
    "slot_chain pool1 16 (rd8i b 16) bs" by (rule slot_chain_step [OF Cons.prems])
  have step: "mapper_count vp n pool = mapper_count (rd8i b 16) (n + 1) pool1"
    using r by (subst mapper_count.simps) (simp add: Let_def me_next)
  from Cons.IH [OF r(7,8)] obtain pool' where
    "mapper_count (rd8i b 16) (n + 1) pool1 = Some (Some (n + 1 + length bs), pool')" "same_heap pool1 pool'"
    by blast
  then show ?case using step same_heap_trans [OF r(5)] by auto
qed

section \<open>The single-hop invariant\<close>

definition single_hop :: "MapperEntry list \<Rightarrow> bool" where
  "single_hop es \<longleftrightarrow> distinct (map me_fromEpoch es) \<and> distinct (map me_toEpoch es)
     \<and> me_fromEpoch ` set es \<inter> me_toEpoch ` set es = {}"

definition mapper_chain :: "Mapper \<Rightarrow> MapperEntry list \<Rightarrow> bool" where
  "mapper_chain m es \<longleftrightarrow> pool_ok (mp_pool m) \<and> (\<exists>bs. slot_chain (mp_pool m) 16 (epochMapperPtr m) bs \<and> es = mapper_entries bs)"

lemma mapper_chain_same_heap:
  "mapper_chain m es \<Longrightarrow> same_heap (mp_pool m) pool \<Longrightarrow> mapper_chain (m\<lparr>mp_pool := pool\<rparr>) es"
  by (auto simp: mapper_chain_def same_heap_ok same_heap_chain)

lemma single_hop_Cons:
  "single_hop (e # es) \<longleftrightarrow> single_hop es \<and> me_fromEpoch e \<noteq> me_toEpoch e
     \<and> \<not> (\<exists>x \<in> set es. conflicts (me_fromEpoch e) (me_toEpoch e) x)"
  unfolding single_hop_def conflicts_def by (auto simp: image_iff)

lemma mapper_insert_law:
  assumes "mapper_chain m es" "store_room (pool_sb (mp_pool m)) (Suc k)"
  shows "if \<exists>e \<in> set es. conflicts f t e
    then \<exists>m'. mapper_insert m f t fl = Some (VFS_ERR_EXISTS, m') \<and> mapper_chain m' es \<and> same_heap (mp_pool m) (mp_pool m')
      \<and> epochMapperPtr m' = epochMapperPtr m
    else \<exists>m' e. mapper_insert m f t fl = Some (VFS_OK, m') \<and> mapper_chain m' (e # es) \<and> keeps (mp_pool m) (mp_pool m')
      \<and> store_room (pool_sb (mp_pool m')) k \<and> me_fromEpoch e = f \<and> me_toEpoch e = t \<and> me_flags e = fl"
proof -
  from assms(1) obtain bs where bs: "pool_ok (mp_pool m)" "slot_chain (mp_pool m) 16 (epochMapperPtr m) bs" "es = mapper_entries bs"
    by (auto simp: mapper_chain_def)
  from mapper_check_law [OF bs(1,2), of f t] obtain pool where
    c: "mapper_check (epochMapperPtr m) f t (mp_pool m) = Some (if \<exists>e \<in> set es. conflicts f t e then VFS_ERR_EXISTS else VFS_OK, pool)"
      "same_heap (mp_pool m) pool" using bs(3) by auto
  show ?thesis
  proof (cases "\<exists>e \<in> set es. conflicts f t e")
    case True
    then have "mapper_insert m f t fl = Some (VFS_ERR_EXISTS, m\<lparr>mp_pool := pool\<rparr>)" using c(1) by (simp add: mapper_insert_def)
    then show ?thesis using True c(2) mapper_chain_same_heap [OF assms(1) c(2)] by auto
  next
    case False
    let ?e = "\<lparr>me_fromEpoch = f, me_toEpoch = t, me_flags = fl, me_nextPtr = epochMapperPtr m\<rparr>"
    let ?w = "\<lambda>b. nodes_write_mapperentry b ?e"
    have i: "i64 (epochMapperPtr m)"
      using slot_chain_live [OF bs(2)] by (auto simp: i64_def live_def vptr_ok_def)
    have ok: "pool_ok pool" "store_room (pool_sb pool) (Suc k)" using c(2) assms(2) by (simp_all add: same_heap_def)
    have w: "length (?w b) = 32" if "length b = 32" for b using that by simp
    from pool_new_slot [where f = ?w, OF ok w] obtain v pool1 slot pool2 slot' pool' where
      n: "pool_alloc pool = Some (v, pool1)" "v \<noteq> 0" "pool_acquire pool1 v True = (slot, pool2)" "ps_vptr slot = v"
        "length (ps_bytes slot) = 32" "pool_release pool2 (slot\<lparr>ps_bytes := ?w (ps_bytes slot)\<rparr>) = (slot', pool')"
        "pool_ok pool'" "store_room (pool_sb pool') k" "keeps pool pool'" "live pool' v"
        "slot_view pool' v = Some (?w (ps_bytes slot))" by blast
    let ?m = "m\<lparr>mp_pool := pool', epochMapperPtr := v\<rparr>"
    have k: "keeps (mp_pool m) pool'" using keeps_trans [OF same_heap_keeps [OF c(2)] n(9)] .
    have rd: "nodes_read_mapperentry (?w (ps_bytes slot)) = ?e" using n(5) i by simp
    then have "rd8i (?w (ps_bytes slot)) 16 = epochMapperPtr m" by (metis me_next MapperEntry.select_convs(4))
    then have "slot_chain pool' 16 v (?w (ps_bytes slot) # bs)" using n slot_chain_keeps [OF k bs(2)] by simp
    then have "mapper_chain ?m (?e # es)"
      using n(7) rd bs(3) unfolding mapper_chain_def
      by (intro conjI exI [of _ "?w (ps_bytes slot) # bs"]) (simp_all add: mapper_entries_def)
    moreover have "mapper_insert m f t fl = Some (VFS_OK, ?m)"
      using c(1) False n by (simp add: mapper_insert_def Let_def)
    ultimately show ?thesis using False k n(8) by (simp only: if_False) (intro exI [of _ ?m] exI [of _ ?e], simp)
  qed
qed

section \<open>The table refines the chain\<close>

text \<open>
  The abstract mapper is the partial map from an epoch to its target and flag. Chain and table hold it in
  opposite orders: the chain prepends, the table appends.
\<close>

definition abs_rows :: "MapperEntryRow list \<Rightarrow> u32 \<rightharpoonup> u32 \<times> bool" where
  "abs_rows rows q = map_option (\<lambda>r. (toEpoch r, traversalApply r)) (find_row q rows)"

definition abs_entries :: "MapperEntry list \<Rightarrow> u32 \<rightharpoonup> u32 \<times> bool" where
  "abs_entries es = abs_rows (map row_of es)"

lemma pool_malloc_ok: "pool_ok pool \<Longrightarrow> pool_malloc pool = (True, pool)"
  by (simp add: pool_malloc_def pool_ok_def store_ok_def store_inv_def)

lemma find_row_append: "find_row q (xs @ ys) = (case find_row q xs of None \<Rightarrow> find_row q ys | Some r \<Rightarrow> Some r)"
  by (induction xs) auto

lemma find_row_None: "find_row q rows = None \<longleftrightarrow> q \<notin> fromEpoch ` set rows"
  by (induction rows) auto

lemma find_row_entries: "find_row q (map row_of es) = map_option row_of (find (\<lambda>e. me_fromEpoch e = q) es)"
  by (induction es) (auto simp: row_of_def)

lemma append_law:
  assumes "pool_ok pool" "mt_entries tbl = Some rows" "0 < mt_capacity tbl"
  shows "\<exists>tbl'. mapper_table_append tbl row pool = (VFS_OK, tbl', pool) \<and> mt_entries tbl' = Some (rows @ [row]) \<and> 0 < mt_capacity tbl'"
  using assms by (simp add: mapper_table_append_def pool_malloc_ok)

lemma mapper_table_load_law:
  assumes "pool_ok pool" "slot_chain pool 16 vp bs" "mt_entries tbl = Some rows" "0 < mt_capacity tbl"
  shows "\<exists>tbl' pool'. mapper_table_load vp tbl pool = Some (VFS_OK, tbl', pool') \<and> same_heap pool pool'
    \<and> mt_entries tbl' = Some (rows @ map row_of (mapper_entries bs)) \<and> 0 < mt_capacity tbl'"
  using assms
proof (induction bs arbitrary: vp pool tbl rows)
  case Nil
  then show ?case by (subst mapper_table_load.simps) (simp add: mapper_entries_def same_heap_refl)
next
  case (Cons b bs)
  obtain slot pool1 where r: "pool_acquire pool vp False = (slot, pool1)" "pool_release pool1 slot = (slot, pool1)"
    "ps_vptr slot = vp" "ps_bytes slot = b" "same_heap pool pool1" "vp \<noteq> 0" "pool_ok pool1"
    "slot_chain pool1 16 (rd8i b 16) bs" by (rule slot_chain_step [OF Cons.prems(1,2)])
  from append_law [OF r(7) Cons.prems(3,4), of "row_of (nodes_read_mapperentry b)"] obtain tbl1 where
    a: "mapper_table_append tbl (row_of (nodes_read_mapperentry b)) pool1 = (VFS_OK, tbl1, pool1)"
      "mt_entries tbl1 = Some (rows @ [row_of (nodes_read_mapperentry b)])" "0 < mt_capacity tbl1" by blast
  have step: "mapper_table_load vp tbl pool = mapper_table_load (rd8i b 16) tbl1 pool1"
    using r a(1) by (subst mapper_table_load.simps) (simp add: Let_def me_next)
  from Cons.IH [OF r(7,8) a(2,3)] obtain tbl' pool' where
    "mapper_table_load (rd8i b 16) tbl1 pool1 = Some (VFS_OK, tbl', pool')" "same_heap pool1 pool'" "0 < mt_capacity tbl'"
    "mt_entries tbl' = Some ((rows @ [row_of (nodes_read_mapperentry b)]) @ map row_of (mapper_entries bs))" by blast
  then show ?case using step same_heap_trans [OF r(5)] by (auto simp: mapper_entries_def)
qed

text \<open>The table stands for the same map as the chain, and has room bookkeeping in order.\<close>

definition table_refines :: "MapperTable \<Rightarrow> MapperEntry list \<Rightarrow> bool" where
  "table_refines tbl es \<longleftrightarrow> 0 < mt_capacity tbl \<and> (\<exists>rows. mt_entries tbl = Some rows \<and> abs_rows rows = abs_entries es)"

lemma abs_entries_conv: "abs_entries es q = map_option (\<lambda>e. (me_toEpoch e, me_flags e AND MAPPER_FLAG_TRAVERSAL_APPLY \<noteq> 0))
    (find (\<lambda>e. me_fromEpoch e = q) es)"
  by (simp add: abs_entries_def abs_rows_def find_row_entries option.map_comp comp_def) (simp add: row_of_def)

lemma table_resolve_abs:
  "table_refines tbl es \<Longrightarrow>
   mapper_table_resolve tbl e = (case abs_entries es (word_of_int e) of None \<Rightarrow> e | Some (t, _) \<Rightarrow> uint t)"
  "table_refines tbl es \<Longrightarrow>
   mapper_table_traversal_apply tbl e = (case abs_entries es (word_of_int e) of None \<Rightarrow> False | Some (_, a) \<Rightarrow> a)"
  unfolding table_refines_def mapper_table_resolve_def mapper_table_traversal_apply_def
  by (auto simp: abs_rows_def split: option.splits dest!: fun_cong [of _ _ "word_of_int e"])

lemma mapper_resolve_abs:
  assumes "mapper_chain m es"
  shows "\<exists>m'. mapper_resolve m e = Some (case abs_entries es (word_of_int e) of None \<Rightarrow> e | Some (t, _) \<Rightarrow> uint t, m') \<and> mapper_chain m' es"
    "\<exists>m'. mapper_traversal_apply m e = Some (case abs_entries es (word_of_int e) of None \<Rightarrow> False | Some (_, a) \<Rightarrow> a, m')
      \<and> mapper_chain m' es"
proof -
  from assms obtain bs where bs: "pool_ok (mp_pool m)" "slot_chain (mp_pool m) 16 (epochMapperPtr m) bs" "es = mapper_entries bs"
    by (auto simp: mapper_chain_def)
  from mapper_find_law [OF bs(1,2), of "word_of_int e"] obtain pool where
    f: "mapper_find (epochMapperPtr m) (word_of_int e) (mp_pool m) = Some (find (\<lambda>x. me_fromEpoch x = word_of_int e) es, pool)"
      "same_heap (mp_pool m) pool" using bs(3) by auto
  note c = mapper_chain_same_heap [OF assms f(2)]
  show "\<exists>m'. mapper_resolve m e = Some (case abs_entries es (word_of_int e) of None \<Rightarrow> e | Some (t, _) \<Rightarrow> uint t, m') \<and> mapper_chain m' es"
    using c f(1) by (auto simp: mapper_resolve_def abs_entries_conv split: option.splits)
  show "\<exists>m'. mapper_traversal_apply m e = Some (case abs_entries es (word_of_int e) of None \<Rightarrow> False | Some (_, a) \<Rightarrow> a, m')
      \<and> mapper_chain m' es"
    using c f(1) by (auto simp: mapper_traversal_apply_def abs_entries_conv split: option.splits)
qed

section \<open>Properties\<close>

lemma demo_mapper: "mapper_chain (mapper_init demo_pool 0) []" "single_hop []"
  using demo_pool(1) by (auto simp: mapper_chain_def mapper_init_def mapper_entries_def single_hop_def intro!: exI [of _ "[]"])





text \<open>
  C25: The in-memory table refines the chain. Loading it from the chain returns VFS_OK and every query on
  the table then answers what the walk over the chain answers; an insert through the table
  returns, extends the abstract map by exactly the new pair or reports an error and changes nothing, and
  table and chain still agree on every query.
\<close>

theorem mapper_table_refines:
  assumes "mapper_chain m es" "single_hop es" "f \<noteq> t" "store_room (pool_sb (mp_pool m)) 1"
  shows "\<exists>tbl pool. mapper_table_init (mp_pool m) (epochMapperPtr m) = Some (VFS_OK, tbl, pool)
    \<and> (\<forall>e. \<exists>m'. mapper_resolve m e = Some (mapper_table_resolve tbl e, m'))
    \<and> (\<forall>e. \<exists>m'. mapper_traversal_apply m e = Some (mapper_table_traversal_apply tbl e, m'))
    \<and> (\<exists>err tbl' m' es'. mapper_table_insert tbl (m\<lparr>mp_pool := pool\<rparr>) f t a = Some (err, tbl', m') \<and> mapper_chain m' es' \<and> single_hop es'
        \<and> abs_entries es' = (if err = VFS_OK then (abs_entries es)(f \<mapsto> (t, a)) else abs_entries es)
        \<and> (\<forall>e. \<exists>m''. mapper_resolve m' e = Some (mapper_table_resolve tbl' e, m''))
        \<and> (\<forall>e. \<exists>m''. mapper_traversal_apply m' e = Some (mapper_table_traversal_apply tbl' e, m'')))"
proof -
  from assms(1) obtain bs where bs: "pool_ok (mp_pool m)" "slot_chain (mp_pool m) 16 (epochMapperPtr m) bs" "es = mapper_entries bs"
    by (auto simp: mapper_chain_def)
  from mapper_table_load_law [OF bs(1,2), of "\<lparr>mt_entries = Some [], mt_capacity = 8\<rparr>" "[]"] obtain tbl pool where
    l: "mapper_table_init (mp_pool m) (epochMapperPtr m) = Some (VFS_OK, tbl, pool)" "same_heap (mp_pool m) pool"
      "mt_entries tbl = Some (map row_of es)" "0 < mt_capacity tbl"
    using bs(3) pool_malloc_ok [OF bs(1)] by (auto simp: mapper_table_init_def)
  then have ref: "table_refines tbl es" by (simp add: table_refines_def abs_entries_def)
  have agree: "(\<forall>e. \<exists>m'. mapper_resolve m e = Some (mapper_table_resolve tbl e, m'))
      \<and> (\<forall>e. \<exists>m'. mapper_traversal_apply m e = Some (mapper_table_traversal_apply tbl e, m'))"
    if "mapper_chain m es" "table_refines tbl es" for m es tbl
    using mapper_resolve_abs [OF that(1)] table_resolve_abs [OF that(2)] by metis
  let ?m = "m\<lparr>mp_pool := pool\<rparr>" and ?fl = "if a then MAPPER_FLAG_TRAVERSAL_APPLY else (0 :: u16)"
  have ch: "mapper_chain ?m es" by (rule mapper_chain_same_heap [OF assms(1) l(2)])
  have room: "store_room (pool_sb (mp_pool ?m)) (Suc 0)" using assms(4) l(2) by (simp add: same_heap_def)
  have "\<exists>err tbl' m' es'. mapper_table_insert tbl ?m f t a = Some (err, tbl', m') \<and> mapper_chain m' es' \<and> single_hop es' \<and> table_refines tbl' es'
      \<and> abs_entries es' = (if err = VFS_OK then (abs_entries es)(f \<mapsto> (t, a)) else abs_entries es)"
  proof (cases "\<exists>e \<in> set es. conflicts f t e")
    case True
    with mapper_insert_law [OF ch room, of f t ?fl] obtain m' where
      "mapper_insert ?m f t ?fl = Some (VFS_ERR_EXISTS, m')" "mapper_chain m' es" by auto
    then show ?thesis using l(3) ref assms(2) by (auto simp: mapper_table_insert_def)
  next
    case False
    with mapper_insert_law [OF ch room, of f t ?fl] obtain m' e where
      i: "mapper_insert ?m f t ?fl = Some (VFS_OK, m')" "mapper_chain m' (e # es)" "me_fromEpoch e = f" "me_toEpoch e = t" "me_flags e = ?fl"
      by auto
    let ?row = "\<lparr>fromEpoch = f, toEpoch = t, traversalApply = a\<rparr>"
    have ok': "pool_ok (mp_pool m')" using i(2) by (simp add: mapper_chain_def)
    from append_law [OF ok' l(3,4), of ?row] obtain tbl' where
      t': "mapper_table_append tbl ?row (mp_pool m') = (VFS_OK, tbl', mp_pool m')" "mt_entries tbl' = Some (map row_of es @ [?row])"
        "0 < mt_capacity tbl'" by blast
    have "mapper_table_insert tbl ?m f t a = Some (VFS_OK, tbl', m')"
      using i(1) t'(1) l(3) by (simp add: mapper_table_insert_def)
    moreover have sh: "single_hop (e # es)" using False assms(2,3) i(3,4) by (simp add: single_hop_Cons)
    moreover have new: "abs_entries (e # es) = (abs_entries es)(f \<mapsto> (t, a))"
      using i(3-5) by (auto simp: abs_entries_conv)
    moreover have "table_refines tbl' (e # es)"
    proof -
      have "f \<notin> fromEpoch ` set (map row_of es)" using False by (auto simp: conflicts_def row_of_def)
      then have "find_row f (map row_of es) = None" by (simp only: find_row_None not_False_eq_True)
      then have "abs_rows (map row_of es @ [?row]) = (abs_entries es)(f \<mapsto> (t, a))"
        by (auto simp: fun_eq_iff abs_rows_def abs_entries_def find_row_append split: option.split)
      then show ?thesis using t' new by (simp add: table_refines_def)
    qed
    ultimately show ?thesis using i(2) by auto
  qed
  with agree l(1) agree [OF assms(1) ref] show ?thesis by meson
qed

theorem mapper_table_refines_witness:
  "\<exists>tbl pool err tbl' m'. mapper_table_init demo_pool 0 = Some (VFS_OK, tbl, pool)
     \<and> mapper_table_insert tbl (mapper_init pool 0) 2 4 True = Some (err, tbl', m')
     \<and> (\<exists>m''. mapper_resolve m' 2 = Some (mapper_table_resolve tbl' 2, m''))"
proof -
  have "store_room (pool_sb (mp_pool (mapper_init demo_pool 0))) 1"
    using store_room_mono [OF demo_pool(2), of 1] by (simp add: mapper_init_def)
  from mapper_table_refines [OF demo_mapper _ this, of 2 4 True] show ?thesis by (simp add: mapper_init_def) blast
qed

end
