(* ===== verification/Locks.thy ===== *)
theory Locks
  imports Prelude
begin

text \<open>
  The lock table of a mounted file system (\<^verbatim>\<open>src/vfs.c\<close>): a hash table of lock states, one per key, each
  with a global (epoch 0) and a per-epoch mode.

  \<^verbatim>\<open>vfs_lock\<close> runs in pieces: it registers with the entry of its key under the table mutex, then works
  under the mutex of the entry until it returns or waits on the condition variable of the entry, which
  releases that mutex. \<open>lock_section\<close> is one such piece, from the point the thread is at to the next wait
  or to the return; \<open>lock_step\<close> interleaves the pieces of any number of threads with releases.

  The lemmas show what every interleaving keeps: at most one holder per key and epoch, one thread
  in global mode, no lost wakeup, and that a key nobody holds is granted to one of its waiters.
  They also show one thing the interleavings do not keep, the exclusion between the two modes.
\<close>

section \<open>Lock states\<close>

record FileLockState =
  nodeId :: int
  global_owner :: nat
  global_depth :: int
  global_held :: bool
  global_pending :: bool
  epoch_holders :: "(int \<times> int) list"
  total_epoch_holders :: int
  refcount :: int

type_synonym LockTable = "nat \<Rightarrow> FileLockState list"

abbreviation LOCK_BUCKETS :: nat where
  "LOCK_BUCKETS \<equiv> 256"

abbreviation MAX_PER_EPOCH_HOLDERS :: nat where
  "MAX_PER_EPOCH_HOLDERS \<equiv> 64"

definition lock_table_create :: LockTable where
  "lock_table_create = (\<lambda>_. [])"

definition lock_hash :: "int \<Rightarrow> nat" where
  "lock_hash key =
     (let h = word_of_int key :: u64;
          h = h XOR drop_bit 33 h;
          h = h * 0xff51afd7ed558ccd
      in unat h mod LOCK_BUCKETS)"

definition filelock_lookup :: "LockTable \<Rightarrow> int \<Rightarrow> FileLockState option" where
  "filelock_lookup t key = find (\<lambda>e. nodeId e = key) (t (lock_hash key))"

text \<open>
  A change of the entry of a key, through the pointer the caller holds.
\<close>

definition filelock_put :: "LockTable \<Rightarrow> FileLockState \<Rightarrow> LockTable" where
  "filelock_put t e =
     t(lock_hash (nodeId e) := map (\<lambda>x. if nodeId x = nodeId e then e else x) (t (lock_hash (nodeId e))))"

text \<open>
  \<open>filelock_find_or_create mem t key\<close>: \<open>mem\<close> tells whether \<^verbatim>\<open>calloc\<close> delivers, should the entry be missing.
\<close>

definition filelock_find_or_create :: "bool \<Rightarrow> LockTable \<Rightarrow> int \<Rightarrow> LockTable option" where
  "filelock_find_or_create mem t key =
     (case filelock_lookup t key of
        Some e \<Rightarrow> Some (filelock_put t (e\<lparr>refcount := refcount e + 1\<rparr>))
      | None \<Rightarrow>
          if \<not> mem then None
          else Some (t(lock_hash key :=
            \<lparr>nodeId = key, global_owner = 0, global_depth = 0, global_held = False, global_pending = False,
             epoch_holders = [], total_epoch_holders = 0, refcount = 1\<rparr> # t (lock_hash key))))"

definition filelock_release :: "LockTable \<Rightarrow> FileLockState \<Rightarrow> LockTable" where
  "filelock_release t e =
     (let e = e\<lparr>refcount := refcount e - 1\<rparr> in
      if refcount e \<le> 0
      then t(lock_hash (nodeId e) := filter (\<lambda>x. nodeId x \<noteq> nodeId e) (t (lock_hash (nodeId e))))
      else filelock_put t e)"

section \<open>Per-epoch holders\<close>

primrec epoch_bump :: "int \<Rightarrow> (int \<times> int) list \<Rightarrow> (int \<times> int) list" where
  "epoch_bump epoch [] = []"
| "epoch_bump epoch (x # xs) = (if fst x = epoch then (fst x, snd x + 1) # xs else x # epoch_bump epoch xs)"

primrec epoch_drop :: "int \<Rightarrow> (int \<times> int) list \<Rightarrow> (int \<times> int) list" where
  "epoch_drop epoch [] = []"
| "epoch_drop epoch (x # xs) =
     (if fst x = epoch then (if snd x - 1 = 0 then xs else (fst x, snd x - 1) # xs) else x # epoch_drop epoch xs)"

definition per_epoch_has_holders :: "FileLockState \<Rightarrow> int \<Rightarrow> bool" where
  "per_epoch_has_holders fls epoch \<longleftrightarrow> epoch \<in> fst ` set (epoch_holders fls)"

definition per_epoch_add :: "FileLockState \<Rightarrow> int \<Rightarrow> bool \<times> FileLockState" where
  "per_epoch_add fls epoch =
     (if per_epoch_has_holders fls epoch
      then (True, fls\<lparr>epoch_holders := epoch_bump epoch (epoch_holders fls),
                      total_epoch_holders := total_epoch_holders fls + 1\<rparr>)
      else if length (epoch_holders fls) \<ge> MAX_PER_EPOCH_HOLDERS then (False, fls)
      else (True, fls\<lparr>epoch_holders := epoch_holders fls @ [(epoch, 1)],
                      total_epoch_holders := total_epoch_holders fls + 1\<rparr>))"

definition per_epoch_remove :: "FileLockState \<Rightarrow> int \<Rightarrow> bool \<times> FileLockState" where
  "per_epoch_remove fls epoch =
     (if per_epoch_has_holders fls epoch
      then (True, fls\<lparr>epoch_holders := epoch_drop epoch (epoch_holders fls),
                      total_epoch_holders := total_epoch_holders fls - 1\<rparr>)
      else (False, fls))"

section \<open>The pieces of vfs_lock\<close>

text \<open>
  The points of \<^verbatim>\<open>vfs_lock\<close> at which a thread does not hold the mutex of the entry: before it takes it for
  the first time, and the three condition waits.
\<close>

datatype LockPoint = AtEntry | AtGlobalWait | AtEpochWait1 | AtEpochWait2

type_synonym LockResult = "(LockPoint + vfs_error_t) \<times> FileLockState"

definition lock_global :: "nat \<Rightarrow> FileLockState \<Rightarrow> LockResult" where
  "lock_global self fls =
     (if global_held fls \<or> total_epoch_holders fls > 0 then (Inl AtGlobalWait, fls)
      else (Inr VFS_OK, fls\<lparr>global_owner := self, global_depth := 1, global_held := True, global_pending := False\<rparr>))"

definition lock_epoch2 :: "int \<Rightarrow> FileLockState \<Rightarrow> LockResult" where
  "lock_epoch2 epoch fls =
     (if per_epoch_has_holders fls epoch then (Inl AtEpochWait2, fls)
      else let (ok, fls) = per_epoch_add fls epoch
           in (Inr (if ok then VFS_OK else VFS_ERR_NOMEM), fls))"

definition lock_epoch1 :: "int \<Rightarrow> FileLockState \<Rightarrow> LockResult" where
  "lock_epoch1 epoch fls =
     (if global_held fls \<or> global_pending fls then (Inl AtEpochWait1, fls) else lock_epoch2 epoch fls)"

definition lock_entry :: "nat \<Rightarrow> int \<Rightarrow> FileLockState \<Rightarrow> LockResult" where
  "lock_entry self epoch fls =
     (if epoch = 0 then
        let fls = fls\<lparr>global_pending := True\<rparr> in
        if global_depth fls > 0 \<and> global_owner fls = self
        then (Inr VFS_OK, fls\<lparr>global_depth := global_depth fls + 1, global_pending := False\<rparr>)
        else lock_global self fls
      else lock_epoch1 epoch fls)"

definition lock_section :: "nat \<Rightarrow> int \<Rightarrow> LockPoint \<Rightarrow> FileLockState \<Rightarrow> LockResult" where
  "lock_section self epoch pt fls =
     (case pt of AtEntry \<Rightarrow> lock_entry self epoch fls
      | AtGlobalWait \<Rightarrow> lock_global self fls
      | AtEpochWait1 \<Rightarrow> lock_epoch1 epoch fls
      | AtEpochWait2 \<Rightarrow> lock_epoch2 epoch fls)"

text \<open>
  The body of \<^verbatim>\<open>vfs_unlock\<close> under both mutexes: the result code, the table, and whether the condition
  variable was broadcast.
\<close>

definition unlock_table :: "nat \<Rightarrow> int \<Rightarrow> int \<Rightarrow> LockTable \<Rightarrow> vfs_error_t \<times> LockTable \<times> bool" where
  "unlock_table self file epoch t =
     (case filelock_lookup t file of None \<Rightarrow> (VFS_ERR_IO, t, False)
      | Some fls \<Rightarrow>
          if epoch = 0 then
            if global_depth fls = 0 \<or> global_owner fls \<noteq> self then (VFS_ERR_IO, t, False)
            else
              let fls = fls\<lparr>global_depth := global_depth fls - 1\<rparr> in
              if global_depth fls = 0
              then (VFS_OK, filelock_release t (fls\<lparr>global_owner := 0, global_held := False\<rparr>), True)
              else (VFS_OK, filelock_release t fls, False)
          else
            let (ok, fls) = per_epoch_remove fls epoch in
            if \<not> ok then (VFS_ERR_IO, t, False) else (VFS_OK, filelock_release t fls, True))"

section \<open>Threads\<close>

text \<open>
  The threads of a process on one table: who holds which key in which epoch, and who is inside
  \<^verbatim>\<open>vfs_lock\<close> at which point. The flag of a waiter tells whether it may run on: it has not waited yet, or
  the condition variable was broadcast since. Wakeups without a broadcast, which the interface of
  condition variables allows, are steps too.
\<close>

record LockSys =
  table :: LockTable
  held :: "int \<Rightarrow> (nat \<times> int) list"
  waiting :: "int \<Rightarrow> (nat \<times> int \<times> LockPoint \<times> bool) list"

definition lock_sys_init :: LockSys where
  "lock_sys_init = \<lparr>table = lock_table_create, held = (\<lambda>_. []), waiting = (\<lambda>_. [])\<rparr>"

definition idle :: "LockSys \<Rightarrow> nat \<Rightarrow> bool" where
  "idle s self \<longleftrightarrow> self \<noteq> 0 \<and> (\<forall>key. self \<notin> fst ` set (waiting s key))"

abbreviation others :: "nat \<Rightarrow> (nat \<times> int \<times> LockPoint \<times> bool) list \<Rightarrow> (nat \<times> int \<times> LockPoint \<times> bool) list" where
  "others self \<equiv> filter (\<lambda>w. fst w \<noteq> self)"

definition wake :: "(nat \<times> int \<times> LockPoint \<times> bool) list \<Rightarrow> (nat \<times> int \<times> LockPoint \<times> bool) list" where
  "wake ws = map (\<lambda>(self, epoch, pt, woken). (self, epoch, pt, True)) ws"

inductive lock_step :: "LockSys \<Rightarrow> LockSys \<Rightarrow> bool" where
  request: "\<lbrakk>idle s self; filelock_find_or_create mem (table s) key = Some t\<rbrakk> \<Longrightarrow>
    lock_step s (s\<lparr>table := t, waiting := (waiting s)(key := (self, epoch, AtEntry, True) # waiting s key)\<rparr>)"
| wait: "\<lbrakk>(self, epoch, pt, woken) \<in> set (waiting s key); filelock_lookup (table s) key = Some fls;
     lock_section self epoch pt fls = (Inl pt', fls')\<rbrakk> \<Longrightarrow>
    lock_step s (s\<lparr>table := filelock_put (table s) fls',
      waiting := (waiting s)(key := (self, epoch, pt', False) # others self (waiting s key))\<rparr>)"
| grant: "\<lbrakk>(self, epoch, pt, woken) \<in> set (waiting s key); filelock_lookup (table s) key = Some fls;
     lock_section self epoch pt fls = (Inr VFS_OK, fls')\<rbrakk> \<Longrightarrow>
    lock_step s (s\<lparr>table := filelock_put (table s) fls',
      waiting := (waiting s)(key := others self (waiting s key)),
      held := (held s)(key := (self, epoch) # held s key)\<rparr>)"
| refuse: "\<lbrakk>(self, epoch, pt, woken) \<in> set (waiting s key); filelock_lookup (table s) key = Some fls;
     lock_section self epoch pt fls = (Inr err, fls'); err \<noteq> VFS_OK\<rbrakk> \<Longrightarrow>
    lock_step s (s\<lparr>table := filelock_put (table s) fls',
      waiting := (waiting s)(key := others self (waiting s key))\<rparr>)"
| release: "\<lbrakk>idle s self; (self, epoch) \<in> set (held s key); unlock_table self key epoch (table s) = (VFS_OK, t, bc)\<rbrakk> \<Longrightarrow>
    lock_step s (s\<lparr>table := t, held := (held s)(key := remove1 (self, epoch) (held s key)),
      waiting := (if bc then (waiting s)(key := wake (waiting s key)) else waiting s)\<rparr>)"

inductive_cases lock_stepE: "lock_step s s'"

abbreviation lock_reachable :: "LockSys \<Rightarrow> bool" where
  "lock_reachable \<equiv> lock_step\<^sup>*\<^sup>* lock_sys_init"

section \<open>The table\<close>

definition table_ok :: "LockTable \<Rightarrow> bool" where
  "table_ok t \<longleftrightarrow> (\<forall>b. distinct (map nodeId (t b)) \<and> (\<forall>e\<in>set (t b). lock_hash (nodeId e) = b))"

lemma lookup_key: "filelock_lookup t key = Some e \<Longrightarrow> nodeId e = key"
  by (auto simp: filelock_lookup_def find_Some_iff)

lemma find_map_id:
  "(\<And>x. f (g x) = f x) \<Longrightarrow> find (\<lambda>x. f x = k) (map g xs) = map_option g (find (\<lambda>x. f x = k) xs)"
  by (induction xs) auto

lemma filelock_put_law:
  assumes "table_ok t" and "filelock_lookup t (nodeId e) = Some e0"
  shows "table_ok (filelock_put t e)"
    and "filelock_lookup (filelock_put t e) key = (if key = nodeId e then Some e else filelock_lookup t key)"
proof -
  have ids: "map nodeId (map (\<lambda>x. if nodeId x = nodeId e then e else x) xs) = map nodeId xs" for xs
    by (induction xs) auto
  show "table_ok (filelock_put t e)"
    unfolding table_ok_def filelock_put_def
  proof (intro allI)
    fix b
    have "distinct (map nodeId (t b))" "\<forall>x\<in>set (t b). lock_hash (nodeId x) = b"
      using assms(1) by (auto simp: table_ok_def)
    then show "distinct (map nodeId ((t(lock_hash (nodeId e) :=
        map (\<lambda>x. if nodeId x = nodeId e then e else x) (t (lock_hash (nodeId e))))) b)) \<and>
      (\<forall>x\<in>set ((t(lock_hash (nodeId e) :=
        map (\<lambda>x. if nodeId x = nodeId e then e else x) (t (lock_hash (nodeId e))))) b). lock_hash (nodeId x) = b)"
      by (cases "b = lock_hash (nodeId e)") (auto simp: ids simp del: map_map)
  qed
  have find: "find (\<lambda>x. nodeId x = k) (map (\<lambda>x. if nodeId x = nodeId e then e else x) xs) =
      map_option (\<lambda>x. if nodeId x = nodeId e then e else x) (find (\<lambda>x. nodeId x = k) xs)" for k xs
    by (rule find_map_id) auto
  show "filelock_lookup (filelock_put t e) key = (if key = nodeId e then Some e else filelock_lookup t key)"
  proof (cases "key = nodeId e")
    case True
    with assms(2) lookup_key [OF assms(2)] show ?thesis
      by (simp add: filelock_lookup_def filelock_put_def find)
  next
    case False
    have "map_option (\<lambda>x. if nodeId x = nodeId e then e else x) (find (\<lambda>x. nodeId x = key) xs) =
        find (\<lambda>x. nodeId x = key) xs" for xs
      using False by (induction xs) auto
    with False show ?thesis by (auto simp: filelock_lookup_def filelock_put_def find)
  qed
qed

abbreviation fresh_lock :: "int \<Rightarrow> FileLockState" where
  "fresh_lock key \<equiv> \<lparr>nodeId = key, global_owner = 0, global_depth = 0, global_held = False,
     global_pending = False, epoch_holders = [], total_epoch_holders = 0, refcount = 1\<rparr>"

lemma filelock_create_law:
  assumes ok: "table_ok t" and make: "filelock_find_or_create mem t key = Some t'"
  shows "table_ok t'"
    and "filelock_lookup t' k = (if k = key then Some (case filelock_lookup t key of
           None \<Rightarrow> fresh_lock key | Some e \<Rightarrow> e\<lparr>refcount := refcount e + 1\<rparr>) else filelock_lookup t k)"
proof (atomize (full), cases "filelock_lookup t key")
  case None
  then have t': "t' = t(lock_hash key := fresh_lock key # t (lock_hash key))"
    using make by (auto simp: filelock_find_or_create_def split: if_splits)
  have new: "key \<notin> nodeId ` set (t (lock_hash key))"
    using None by (auto simp: filelock_lookup_def find_None_iff)
  have "table_ok t'"
    using ok new by (auto simp: t' table_ok_def)
  moreover have "filelock_lookup t' k = (if k = key then Some (fresh_lock key) else filelock_lookup t k)"
    by (auto simp: t' filelock_lookup_def)
  ultimately show "table_ok t' \<and> filelock_lookup t' k = (if k = key then Some (case filelock_lookup t key of
           None \<Rightarrow> fresh_lock key | Some e \<Rightarrow> e\<lparr>refcount := refcount e + 1\<rparr>) else filelock_lookup t k)"
    using None by simp
next
  case (Some e)
  then have "t' = filelock_put t (e\<lparr>refcount := refcount e + 1\<rparr>)" "nodeId e = key"
    using make by (auto simp: filelock_find_or_create_def lookup_key)
  with filelock_put_law [OF ok, of "e\<lparr>refcount := refcount e + 1\<rparr>" e] Some
  show "table_ok t' \<and> filelock_lookup t' k = (if k = key then Some (case filelock_lookup t key of
           None \<Rightarrow> fresh_lock key | Some e \<Rightarrow> e\<lparr>refcount := refcount e + 1\<rparr>) else filelock_lookup t k)"
    by simp
qed

lemma filelock_release_law:
  assumes ok: "table_ok t" and at: "filelock_lookup t (nodeId e) = Some e0"
  shows "table_ok (filelock_release t e)"
    and "filelock_lookup (filelock_release t e) key = (if key = nodeId e
           then (if refcount e \<le> 1 then None else Some (e\<lparr>refcount := refcount e - 1\<rparr>))
           else filelock_lookup t key)"
proof (atomize (full), cases "refcount e \<le> 1")
  case True
  then have rel: "filelock_release t e =
      t(lock_hash (nodeId e) := filter (\<lambda>x. nodeId x \<noteq> nodeId e) (t (lock_hash (nodeId e))))"
    by (simp add: filelock_release_def Let_def)
  have find: "find (\<lambda>x. nodeId x = k) (filter (\<lambda>x. nodeId x \<noteq> nodeId e) xs) =
      (if k = nodeId e then None else find (\<lambda>x. nodeId x = k) xs)" for k xs
    by (induction xs) auto
  have "table_ok (filelock_release t e)"
    using ok by (auto simp: rel table_ok_def distinct_map inj_on_def)
  then show "table_ok (filelock_release t e) \<and> filelock_lookup (filelock_release t e) key = (if key = nodeId e
           then (if refcount e \<le> 1 then None else Some (e\<lparr>refcount := refcount e - 1\<rparr>))
           else filelock_lookup t key)"
    using True by (simp add: rel filelock_lookup_def find)
next
  case False
  then have "filelock_release t e = filelock_put t (e\<lparr>refcount := refcount e - 1\<rparr>)"
    by (simp add: filelock_release_def Let_def)
  with False filelock_put_law [OF ok, of "e\<lparr>refcount := refcount e - 1\<rparr>" e0] at
  show "table_ok (filelock_release t e) \<and> filelock_lookup (filelock_release t e) key = (if key = nodeId e
           then (if refcount e \<le> 1 then None else Some (e\<lparr>refcount := refcount e - 1\<rparr>))
           else filelock_lookup t key)"
    by simp
qed

section \<open>What every interleaving keeps\<close>

text \<open>
  The condition a thread waits for at a point, negated.
\<close>

definition blocked :: "FileLockState \<Rightarrow> int \<Rightarrow> LockPoint \<Rightarrow> bool" where
  "blocked f epoch pt =
     (case pt of AtEntry \<Rightarrow> False
      | AtGlobalWait \<Rightarrow> global_held f \<or> total_epoch_holders f > 0
      | AtEpochWait1 \<Rightarrow> global_held f \<or> global_pending f
      | AtEpochWait2 \<Rightarrow> per_epoch_has_holders f epoch)"

definition point_ok :: "int \<Rightarrow> LockPoint \<Rightarrow> bool" where
  "point_ok epoch pt \<longleftrightarrow> (epoch = 0 \<longrightarrow> pt \<in> {AtEntry, AtGlobalWait}) \<and> (epoch \<noteq> 0 \<longrightarrow> pt \<noteq> AtGlobalWait)"

definition holders_ok :: "FileLockState \<Rightarrow> (nat \<times> int) list \<Rightarrow> bool" where
  "holders_ok f hs \<longleftrightarrow>
     distinct (map fst (epoch_holders f)) \<and> (\<forall>x\<in>set (epoch_holders f). fst x \<noteq> 0 \<and> snd x = 1) \<and>
     total_epoch_holders f = int (length (epoch_holders f)) \<and>
     (\<forall>e. e \<noteq> 0 \<longrightarrow> length (filter (\<lambda>h. snd h = e) hs) = (if per_epoch_has_holders f e then 1 else 0)) \<and>
     0 \<le> global_depth f \<and> global_held f = (global_depth f > 0) \<and>
     filter (\<lambda>h. snd h = 0) hs = replicate (nat (global_depth f)) (global_owner f, 0)"

definition waiters_ok :: "FileLockState \<Rightarrow> (nat \<times> int \<times> LockPoint \<times> bool) list \<Rightarrow> bool" where
  "waiters_ok f ws \<longleftrightarrow>
     distinct (map fst ws) \<and>
     (\<forall>self e pt woken. (self, e, pt, woken) \<in> set ws \<longrightarrow> point_ok e pt \<and> (woken \<or> blocked f e pt)) \<and>
     (global_pending f \<longrightarrow> (\<exists>self woken. (self, 0, AtGlobalWait, woken) \<in> set ws))"

lemma refcount_irrelevant [simp]:
  "per_epoch_has_holders (f\<lparr>refcount := r\<rparr>) e = per_epoch_has_holders f e"
  "blocked (f\<lparr>refcount := r\<rparr>) e pt = blocked f e pt"
  "holders_ok (f\<lparr>refcount := r\<rparr>) hs = holders_ok f hs"
  "waiters_ok (f\<lparr>refcount := r\<rparr>) ws = waiters_ok f ws"
  by (simp_all add: per_epoch_has_holders_def blocked_def holders_ok_def waiters_ok_def split: LockPoint.split)

lemma depth_irrelevant [simp]:
  "blocked (f\<lparr>global_depth := d\<rparr>) e pt = blocked f e pt"
  "waiters_ok (f\<lparr>global_depth := d\<rparr>) ws = waiters_ok f ws"
  by (simp_all add: per_epoch_has_holders_def blocked_def waiters_ok_def split: LockPoint.split)

lemmas lock_defs = lock_section_def lock_entry_def lock_global_def lock_epoch1_def lock_epoch2_def
  per_epoch_add_def Let_def

lemma holders_pending [simp]: "holders_ok (f\<lparr>global_pending := b\<rparr>) hs = holders_ok f hs"
  by (simp add: holders_ok_def per_epoch_has_holders_def)

lemma holders_take:
  assumes "holders_ok f hs" and "\<not> global_held f" and "\<not> total_epoch_holders f > 0"
  shows "holders_ok (f\<lparr>global_owner := self, global_depth := 1, global_held := True, global_pending := False\<rparr>)
    ((self, 0) # hs)"
  using assms by (simp add: holders_ok_def per_epoch_has_holders_def)

lemma holders_retake:
  assumes "holders_ok f hs" and "global_depth f > 0" and "global_owner f = self"
  shows "holders_ok (f\<lparr>global_depth := global_depth f + 1, global_pending := b\<rparr>) ((self, 0) # hs)"
  using assms by (simp add: holders_ok_def per_epoch_has_holders_def nat_add_distrib)

lemma holders_add:
  assumes "holders_ok f hs" and "\<not> per_epoch_has_holders f e" and "e \<noteq> 0"
  shows "holders_ok (f\<lparr>epoch_holders := epoch_holders f @ [(e, 1)], total_epoch_holders := total_epoch_holders f + 1\<rparr>)
    ((self, e) # hs)"
  using assms by (auto simp: holders_ok_def per_epoch_has_holders_def)

lemma section_holders:
  assumes ok: "holders_ok f hs" and pt: "point_ok e pt" and run: "lock_section self e pt f = (r, f')"
  shows "holders_ok f' (if r = Inr VFS_OK then (self, e) # hs else hs)"
proof (cases "e = 0")
  case True
  with pt consider "pt = AtEntry" | "pt = AtGlobalWait" by (auto simp: point_ok_def)
  then show ?thesis
  proof cases
    case 1
    with True run ok show ?thesis
      using holders_take [of "f\<lparr>global_pending := True\<rparr>" hs self] holders_retake [of f hs self]
      by (simp add: lock_section_def lock_entry_def lock_global_def Let_def split: if_splits)
         (auto simp: Let_def)
  next
    case 2
    with True run ok show ?thesis
      using holders_take [of f hs self] by (auto simp: lock_section_def lock_global_def split: if_splits)
  qed
next
  case False
  have two: "holders_ok f2 (if r2 = Inr VFS_OK then (self, e) # hs else hs)" if "lock_epoch2 e f = (r2, f2)" for r2 f2
    using that ok holders_add [OF ok _ False, of self]
    by (auto simp: lock_epoch2_def per_epoch_add_def split: if_splits)
  with False pt run ok show ?thesis
    by (cases pt) (auto simp: lock_section_def lock_entry_def lock_epoch1_def point_ok_def split: if_splits)
qed

lemma blocked_mono:
  assumes "global_held f \<or> global_pending f \<Longrightarrow> global_held f' \<or> global_pending f'"
    and "global_held f \<or> total_epoch_holders f > 0 \<Longrightarrow> global_held f' \<or> total_epoch_holders f' > 0"
    and "per_epoch_has_holders f e \<Longrightarrow> per_epoch_has_holders f' e" and "blocked f e pt"
  shows "blocked f' e pt"
  using assms by (cases pt) (simp_all add: blocked_def)

lemma section_blocked:
  assumes ok: "holders_ok f hs" and run: "lock_section self e pt f = (r, f')" and "blocked f e' pt'"
  shows "blocked f' e' pt'"
proof (rule blocked_mono [OF _ _ _ assms(3)])
  have held: "global_depth f > 0 \<Longrightarrow> global_held f" using ok by (simp add: holders_ok_def)
  have nn: "total_epoch_holders f \<ge> 0" using ok by (simp add: holders_ok_def)
  show "global_held f \<or> global_pending f \<Longrightarrow> global_held f' \<or> global_pending f'"
    using run held by (cases pt) (auto simp: lock_defs split: if_splits)
  show "global_held f \<or> total_epoch_holders f > 0 \<Longrightarrow> global_held f' \<or> total_epoch_holders f' > 0"
    using run nn by (cases pt) (auto simp: lock_defs split: if_splits)
  show "per_epoch_has_holders f e' \<Longrightarrow> per_epoch_has_holders f' e'"
    using run by (cases pt) (auto simp: lock_defs per_epoch_has_holders_def split: if_splits)
qed

lemma section_waits: "lock_section self e pt f = (Inl pt', f') \<Longrightarrow> point_ok e pt \<Longrightarrow> blocked f' e pt' \<and> point_ok e pt'"
  by (auto simp: lock_defs blocked_def point_ok_def split: if_splits LockPoint.splits)

lemma section_pending:
  "lock_section self e pt f = (r, f') \<Longrightarrow> global_pending f' \<Longrightarrow> point_ok e pt \<Longrightarrow>
     r = Inl AtGlobalWait \<and> e = 0 \<or> global_pending f \<and> e \<noteq> 0"
  by (auto simp: lock_defs point_ok_def split: if_splits LockPoint.splits)

lemma section_fields: "lock_section self e pt f = (r, f') \<Longrightarrow> nodeId f' = nodeId f \<and> refcount f' = refcount f"
  by (auto simp: lock_defs split: if_splits LockPoint.splits)

lemma others_props:
  "distinct (map fst ws) \<Longrightarrow> distinct (map fst (others self ws))"
  "set (others self ws) = {w \<in> set ws. fst w \<noteq> self}"
  by (simp_all add: distinct_map_filter)

lemma length_others:
  "distinct (map fst ws) \<Longrightarrow> w \<in> set ws \<Longrightarrow> Suc (length (others (fst w) ws)) = length ws"
proof (induction ws)
  case (Cons x ws)
  show ?case
  proof (cases "x = w")
    case True
    then have "fst w \<notin> fst ` set ws" using Cons.prems(1) by simp
    then have "\<forall>y\<in>set ws. fst y \<noteq> fst w" by (metis imageI)
    then have "others (fst w) ws = ws" by (simp add: filter_id_conv)
    with True show ?thesis by simp
  next
    case False
    with Cons show ?thesis by auto
  qed
qed simp

lemma section_waiters:
  assumes hs: "holders_ok f hs" and ws: "waiters_ok f ws" and at: "(self, e, pt, woken) \<in> set ws"
    and run: "lock_section self e pt f = (r, f')"
  shows "waiters_ok f' (case r of Inl pt' \<Rightarrow> (self, e, pt', False) # others self ws | Inr _ \<Rightarrow> others self ws)"
proof -
  have dist: "distinct (map fst ws)" using ws by (simp add: waiters_ok_def)
  have pt: "point_ok e pt" using ws at by (auto simp: waiters_ok_def)
  have rest: "point_ok e2 pt2 \<and> (w2 \<or> blocked f' e2 pt2)" if "(s2, e2, pt2, w2) \<in> set (others self ws)" for s2 e2 pt2 w2
    using ws that section_blocked [OF hs run, of e2 pt2] by (auto simp: waiters_ok_def)
  have pend: "r = Inl AtGlobalWait \<and> e = 0 \<or> (\<exists>s2 w2. (s2, 0, AtGlobalWait, w2) \<in> set (others self ws))"
    if "global_pending f'"
  proof -
    from section_pending [OF run that pt] show ?thesis
    proof
      assume "global_pending f \<and> e \<noteq> 0"
      then obtain s2 w2 where s2: "(s2, 0, AtGlobalWait, w2) \<in> set ws" and "e \<noteq> 0"
        using ws by (auto simp: waiters_ok_def)
      then have "s2 \<noteq> self" using at eq_key_imp_eq_value [OF dist, of self] by fastforce
      with s2 show ?thesis by auto
    qed simp
  qed
  have dist': "distinct (map fst (others self ws))" "self \<notin> fst ` set (others self ws)"
    using others_props(1) [OF dist] by auto
  show ?thesis
  proof (cases r)
    case (Inl pt')
    have "point_ok e pt' \<and> blocked f' e pt'" using section_waits run Inl pt by blast
    moreover have "\<exists>s2 w2. (s2, 0, AtGlobalWait, w2) \<in> set ((self, e, pt', False) # others self ws)" if "global_pending f'"
      using pend [OF that] Inl by auto
    ultimately have "waiters_ok f' ((self, e, pt', False) # others self ws)"
      unfolding waiters_ok_def using dist' rest by (simp del: set_filter)
    with Inl show ?thesis by simp
  next
    case (Inr err)
    have "waiters_ok f' (others self ws)"
      unfolding waiters_ok_def using dist'(1) rest pend Inr by (simp del: set_filter)
    with Inr show ?thesis by simp
  qed
qed

definition lock_inv :: "LockSys \<Rightarrow> bool" where
  "lock_inv s \<longleftrightarrow> table_ok (table s) \<and>
     (\<forall>key. case filelock_lookup (table s) key of
        None \<Rightarrow> held s key = [] \<and> waiting s key = []
      | Some f \<Rightarrow> holders_ok f (held s key) \<and> waiters_ok f (waiting s key) \<and>
          int (length (held s key) + length (waiting s key)) \<le> refcount f)"

lemma lock_invD:
  assumes "lock_inv s"
  shows "table_ok (table s)"
    and "filelock_lookup (table s) key = None \<Longrightarrow> held s key = [] \<and> waiting s key = []"
    and "filelock_lookup (table s) key = Some f \<Longrightarrow> holders_ok f (held s key) \<and> waiters_ok f (waiting s key) \<and>
          int (length (held s key) + length (waiting s key)) \<le> refcount f"
  using assms by (auto simp: lock_inv_def split: option.splits dest: spec [of _ key])

text \<open>
  One key changes, with its entry, its holders and its waiters; the rest of the table stays.
\<close>

lemma lock_inv_key:
  assumes inv: "lock_inv s" and tab: "table_ok t"
    and look: "\<And>k. k \<noteq> key \<Longrightarrow> filelock_lookup t k = filelock_lookup (table s) k"
    and here: "case filelock_lookup t key of None \<Rightarrow> hs = [] \<and> ws = []
      | Some f \<Rightarrow> holders_ok f hs \<and> waiters_ok f ws \<and> int (length hs + length ws) \<le> refcount f"
    and s': "table s' = t" "held s' = (held s)(key := hs)" "waiting s' = (waiting s)(key := ws)"
  shows "lock_inv s'"
  unfolding lock_inv_def
proof (intro conjI allI)
  show "table_ok (table s')" using tab s' by simp
  fix k
  show "case filelock_lookup (table s') k of None \<Rightarrow> held s' k = [] \<and> waiting s' k = []
      | Some f \<Rightarrow> holders_ok f (held s' k) \<and> waiters_ok f (waiting s' k) \<and>
          int (length (held s' k) + length (waiting s' k)) \<le> refcount f"
  proof (cases "k = key")
    case True
    show ?thesis unfolding s' True fun_upd_same by (rule here)
  next
    case False
    then have "held s' k = held s k" "waiting s' k = waiting s k" "filelock_lookup (table s') k = filelock_lookup (table s) k"
      using s' look by simp_all
    then show ?thesis using lock_invD(2,3) [OF inv, of k] by (cases "filelock_lookup (table s) k") auto
  qed
qed

lemma lock_inv_init: "lock_inv lock_sys_init"
  by (simp add: lock_inv_def lock_sys_init_def lock_table_create_def table_ok_def filelock_lookup_def)

lemma lock_inv_request:
  assumes inv: "lock_inv s" and idle: "idle s self" and make: "filelock_find_or_create mem (table s) key = Some t"
  shows "lock_inv (s\<lparr>table := t, waiting := (waiting s)(key := (self, epoch, AtEntry, True) # waiting s key)\<rparr>)"
proof (rule lock_inv_key [OF inv, where key = key])
  note law = filelock_create_law [OF lock_invD(1) [OF inv] make]
  show "table_ok t" by (rule law)
  show "filelock_lookup t k = filelock_lookup (table s) k" if "k \<noteq> key" for k using law(2) that by simp
  have new: "self \<notin> fst ` set (waiting s key)" using idle by (simp add: idle_def)
  show "case filelock_lookup t key of None \<Rightarrow> held s key = [] \<and> (self, epoch, AtEntry, True) # waiting s key = []
      | Some f \<Rightarrow> holders_ok f (held s key) \<and> waiters_ok f ((self, epoch, AtEntry, True) # waiting s key) \<and>
          int (length (held s key) + length ((self, epoch, AtEntry, True) # waiting s key)) \<le> refcount f"
  proof (cases "filelock_lookup (table s) key")
    case None
    with lock_invD(2) [OF inv None] law(2) [of key] show ?thesis
      by (simp add: holders_ok_def waiters_ok_def point_ok_def blocked_def per_epoch_has_holders_def)
  next
    case (Some f)
    have "waiters_ok (f\<lparr>refcount := r\<rparr>) ((self, epoch, AtEntry, True) # waiting s key)" for r
      using lock_invD(3) [OF inv Some] new by (auto simp: waiters_ok_def point_ok_def)
    with Some lock_invD(3) [OF inv Some] law(2) [of key] show ?thesis by simp
  qed
qed simp_all

lemma lock_inv_section:
  assumes inv: "lock_inv s" and at: "(self, epoch, pt, woken) \<in> set (waiting s key)"
    and look: "filelock_lookup (table s) key = Some f" and run: "lock_section self epoch pt f = (r, f')"
    and s': "table s' = filelock_put (table s) f'"
      "held s' = (held s)(key := if r = Inr VFS_OK then (self, epoch) # held s key else held s key)"
      "waiting s' = (waiting s)(key := case r of Inl pt' \<Rightarrow> (self, epoch, pt', False) # others self (waiting s key)
         | Inr _ \<Rightarrow> others self (waiting s key))"
  shows "lock_inv s'"
proof (rule lock_inv_key [OF inv _ _ _ s'])
  note ok = lock_invD(3) [OF inv look]
  have id: "nodeId f' = key" "refcount f' = refcount f"
    using section_fields [OF run] lookup_key [OF look] by auto
  have put: "table_ok (filelock_put (table s) f')"
    "filelock_lookup (filelock_put (table s) f') k = (if k = key then Some f' else filelock_lookup (table s) k)" for k
    using filelock_put_law [OF lock_invD(1) [OF inv], of f' f] look id by simp_all
  show "table_ok (filelock_put (table s) f')" by (rule put)
  show "filelock_lookup (filelock_put (table s) f') k = filelock_lookup (table s) k" if "k \<noteq> key" for k
    using put(2) that by simp
  have pt: "point_ok epoch pt" and dist: "distinct (map fst (waiting s key))"
    using ok at by (auto simp: waiters_ok_def)
  have len: "Suc (length (others self (waiting s key))) = length (waiting s key)"
    using length_others [OF dist at] by simp
  show "case filelock_lookup (filelock_put (table s) f') key of
      None \<Rightarrow> (if r = Inr VFS_OK then (self, epoch) # held s key else held s key) = [] \<and>
        (case r of Inl pt' \<Rightarrow> (self, epoch, pt', False) # others self (waiting s key)
         | Inr _ \<Rightarrow> others self (waiting s key)) = []
    | Some f \<Rightarrow> holders_ok f (if r = Inr VFS_OK then (self, epoch) # held s key else held s key) \<and>
        waiters_ok f (case r of Inl pt' \<Rightarrow> (self, epoch, pt', False) # others self (waiting s key)
         | Inr _ \<Rightarrow> others self (waiting s key)) \<and>
        int (length (if r = Inr VFS_OK then (self, epoch) # held s key else held s key) +
          length (case r of Inl pt' \<Rightarrow> (self, epoch, pt', False) # others self (waiting s key)
            | Inr _ \<Rightarrow> others self (waiting s key))) \<le> refcount f"
    using section_holders [OF conjunct1 [OF ok] pt run] section_waiters [OF conjunct1 [OF ok] _ at run] ok len put(2) id
    by (auto split: sum.splits)
qed

lemma epoch_drop_props:
  assumes "distinct (map fst xs)" and "\<forall>x\<in>set xs. snd x = 1" and "e \<in> fst ` set xs"
  shows "set (epoch_drop e xs) = {x \<in> set xs. fst x \<noteq> e}" and "distinct (map fst (epoch_drop e xs))"
    and "Suc (length (epoch_drop e xs)) = length xs"
  using assms by (induction xs) (auto simp: image_iff)

lemma holders_drop:
  assumes ok: "holders_ok f hs" and mem: "(self, e) \<in> set hs" and e: "e \<noteq> 0"
  shows "holders_ok (f\<lparr>epoch_holders := epoch_drop e (epoch_holders f), total_epoch_holders := total_epoch_holders f - 1\<rparr>)
    (remove1 (self, e) hs)"
    and "per_epoch_has_holders f e"
proof -
  have "0 < length (filter (\<lambda>h. snd h = e) hs)" using mem by (force simp: filter_empty_conv)
  then show has: "per_epoch_has_holders f e" using ok e by (auto simp: holders_ok_def split: if_splits)
  have dist: "distinct (map fst (epoch_holders f))" and one: "\<forall>x\<in>set (epoch_holders f). snd x = 1"
    using ok by (auto simp: holders_ok_def)
  note drop = epoch_drop_props [OF dist one has [unfolded per_epoch_has_holders_def]]
  have cnt: "length (filter (\<lambda>h. snd h = e') (remove1 (self, e) hs)) =
      length (filter (\<lambda>h. snd h = e') hs) - (if e' = e then 1 else 0)" for e'
    using mem by (simp add: filter_remove1 length_remove1)
  have zero: "filter (\<lambda>h. snd h = 0) (remove1 (self, e) hs) = filter (\<lambda>h. snd h = 0) hs"
    using e by (simp add: filter_remove1 remove1_filter_not)
  have mem': "e' \<in> fst ` set (epoch_drop e (epoch_holders f)) \<longleftrightarrow> e' \<noteq> e \<and> e' \<in> fst ` set (epoch_holders f)" for e'
    using drop(1) by auto
  show "holders_ok (f\<lparr>epoch_holders := epoch_drop e (epoch_holders f), total_epoch_holders := total_epoch_holders f - 1\<rparr>)
    (remove1 (self, e) hs)"
    using ok has drop cnt zero mem' by (simp add: holders_ok_def per_epoch_has_holders_def)
qed

lemma holders_untake:
  assumes ok: "holders_ok f hs" and mem: "(self, 0) \<in> set hs"
    and f': "epoch_holders f' = epoch_holders f" "total_epoch_holders f' = total_epoch_holders f"
      "global_depth f' = global_depth f - 1" "global_held f' = (global_depth f > 1)"
      "global_depth f > 1 \<Longrightarrow> global_owner f' = global_owner f"
  shows "holders_ok f' (remove1 (self, 0) hs)"
proof -
  have zeros: "filter (\<lambda>h. snd h = 0) hs = replicate (nat (global_depth f)) (global_owner f, 0)"
    using ok by (simp add: holders_ok_def)
  have "(self, 0) \<in> set (filter (\<lambda>h. snd h = 0) hs)" using mem by simp
  then have own: "global_owner f = self" "global_depth f > 0" unfolding zeros by auto
  then obtain n where n: "nat (global_depth f) = Suc n" by (cases "nat (global_depth f)") auto
  have "filter (\<lambda>h. snd h = 0) (remove1 (self, 0) hs) = remove1 (self, 0) (filter (\<lambda>h. snd h = 0) hs)"
    by (simp add: filter_remove1)
  also have "\<dots> = replicate n (self, 0)" using n own by (simp add: zeros)
  finally have rest: "filter (\<lambda>h. snd h = 0) (remove1 (self, 0) hs) = replicate n (self, 0)" .
  have zero: "filter (\<lambda>h. snd h = 0) (remove1 (self, 0) hs) = replicate (nat (global_depth f')) (global_owner f', 0)"
  proof -
    have "nat (global_depth f') = n" using n f'(3) by linarith
    then show ?thesis using rest own f'(5) n by (cases n) auto
  qed
  have "filter (\<lambda>h. snd h = e) (remove1 (self, 0) hs) = filter (\<lambda>h. snd h = e) hs" if "e \<noteq> 0" for e
    using that by (simp add: filter_remove1 remove1_filter_not)
  with ok zero f' own show ?thesis by (auto simp: holders_ok_def per_epoch_has_holders_def)
qed

lemma wake_ok:
  assumes "waiters_ok f ws" and "global_pending f' = global_pending f"
  shows "waiters_ok f' (wake ws)"
proof -
  have fst: "map fst (wake ws) = map fst ws" by (simp add: wake_def case_prod_beta)
  have mem: "(self, e, pt, woken) \<in> set (wake ws) \<longleftrightarrow> woken \<and> (\<exists>w. (self, e, pt, w) \<in> set ws)" for self e pt woken
    by (force simp: wake_def)
  show ?thesis using assms by (auto simp: waiters_ok_def fst mem)
qed

lemma unlock_keeps:
  assumes hs: "holders_ok f hs" and ws: "waiters_ok f ws" and mem: "(self, epoch) \<in> set hs"
    and at: "filelock_lookup t key = Some f" and run: "unlock_table self key epoch t = (VFS_OK, t', bc)"
  shows "\<exists>f'. t' = filelock_release t f' \<and> nodeId f' = nodeId f \<and> refcount f' = refcount f \<and>
    holders_ok f' (remove1 (self, epoch) hs) \<and> waiters_ok f' (if bc then wake ws else ws)"
proof (cases "epoch = 0")
  case True
  show ?thesis
  proof (cases "global_depth f = 1")
    case depth: True
    let ?f' = "f\<lparr>global_depth := 0, global_owner := 0, global_held := False\<rparr>"
    have "t' = filelock_release t ?f'" "bc"
      using run at depth True by (auto simp: unlock_table_def Let_def split: if_splits)
    moreover have "holders_ok ?f' (remove1 (self, epoch) hs)"
      using holders_untake [OF hs, of self ?f'] mem True depth by simp
    moreover have "waiters_ok ?f' (wake ws)" by (rule wake_ok [OF ws]) simp
    ultimately show ?thesis by (intro exI [of _ ?f']) simp
  next
    case depth: False
    let ?f' = "f\<lparr>global_depth := global_depth f - 1\<rparr>"
    have run': "t' = filelock_release t ?f'" "\<not> bc" "global_depth f \<noteq> 0"
      using run at depth True by (auto simp: unlock_table_def Let_def split: if_splits)
    have "holders_ok ?f' (remove1 (self, epoch) hs)"
      using holders_untake [OF hs, of self ?f'] mem True depth run'(3) hs by (auto simp: holders_ok_def)
    moreover have "waiters_ok ?f' ws"
      using ws by simp
    ultimately show ?thesis using run' by (intro exI [of _ ?f']) simp
  qed
next
  case False
  let ?f' = "f\<lparr>epoch_holders := epoch_drop epoch (epoch_holders f), total_epoch_holders := total_epoch_holders f - 1\<rparr>"
  note drop = holders_drop [OF hs mem False]
  have "t' = filelock_release t ?f'" "bc"
    using run at False drop(2) by (auto simp: unlock_table_def per_epoch_remove_def)
  moreover have "waiters_ok ?f' (wake ws)" by (rule wake_ok [OF ws]) simp
  ultimately show ?thesis using drop(1) by (intro exI [of _ ?f']) simp
qed

lemma lock_inv_release:
  assumes inv: "lock_inv s" and mem: "(self, epoch) \<in> set (held s key)"
    and run: "unlock_table self key epoch (table s) = (VFS_OK, t, bc)"
    and s': "table s' = t" "held s' = (held s)(key := remove1 (self, epoch) (held s key))"
      "waiting s' = (waiting s)(key := if bc then wake (waiting s key) else waiting s key)"
  shows "lock_inv s'"
proof (rule lock_inv_key [OF inv _ _ _ s'])
  obtain f where f: "filelock_lookup (table s) key = Some f"
    using run by (cases "filelock_lookup (table s) key") (auto simp: unlock_table_def)
  note ok = lock_invD(3) [OF inv f]
  obtain f' where f': "t = filelock_release (table s) f'" "nodeId f' = nodeId f" "refcount f' = refcount f"
      "holders_ok f' (remove1 (self, epoch) (held s key))"
      "waiters_ok f' (if bc then wake (waiting s key) else waiting s key)"
    using unlock_keeps [OF _ _ mem f run] ok by blast
  have id: "nodeId f' = key" using lookup_key [OF f] f'(2) by simp
  note law = filelock_release_law [OF lock_invD(1) [OF inv], of f' f, unfolded id f'(3), folded f'(1), OF f]
  show "table_ok t" by (rule law)
  show "filelock_lookup t k = filelock_lookup (table s) k" if "k \<noteq> key" for k using law(2) that by simp
  have len: "Suc (length (remove1 (self, epoch) (held s key))) = length (held s key)"
    using mem length_pos_if_in_set [OF mem] by (simp add: length_remove1 del: length_greater_0_conv)
  have wlen: "length (if bc then wake (waiting s key) else waiting s key) = length (waiting s key)"
    by (simp add: wake_def)
  show "case filelock_lookup t key of None \<Rightarrow> remove1 (self, epoch) (held s key) = [] \<and>
        (if bc then wake (waiting s key) else waiting s key) = []
    | Some f \<Rightarrow> holders_ok f (remove1 (self, epoch) (held s key)) \<and>
        waiters_ok f (if bc then wake (waiting s key) else waiting s key) \<and>
        int (length (remove1 (self, epoch) (held s key)) + length (if bc then wake (waiting s key) else waiting s key))
          \<le> refcount f"
  proof (cases "refcount f \<le> 1")
    case True
    with ok len have "length (remove1 (self, epoch) (held s key)) = 0" "length (waiting s key) = 0" by linarith+
    with True law(2) [of key] show ?thesis by (simp add: wake_def)
  next
    case False
    have "int (length (remove1 (self, epoch) (held s key)) + length (if bc then wake (waiting s key) else waiting s key))
        \<le> refcount f - 1"
      using ok len wlen by linarith
    with False law(2) [of key] f'(3-5) show ?thesis by simp
  qed
qed

lemma lock_step_inv: "lock_step s s' \<Longrightarrow> lock_inv s \<Longrightarrow> lock_inv s'"
proof (induction rule: lock_step.induct)
  case (request s self mem key t epoch)
  then show ?case by (intro lock_inv_request)
next
  case (wait self epoch pt woken s key fls pt' fls')
  show ?case by (rule lock_inv_section [OF wait(4,1-3)]) simp_all
next
  case (grant self epoch pt woken s key fls fls')
  show ?case by (rule lock_inv_section [OF grant(4,1-3)]) simp_all
next
  case (refuse self epoch pt woken s key fls err fls')
  show ?case by (rule lock_inv_section [OF refuse(5,1-3)]) (use refuse(4) in simp_all)
next
  case (release s self epoch key t bc)
  show ?case by (rule lock_inv_release [OF release(4,2,3)]) simp_all
qed

lemma lock_reachable_inv: "lock_reachable s \<Longrightarrow> lock_inv s"
  by (induction rule: rtranclp_induct) (auto intro: lock_inv_init lock_step_inv)

lemma free_entry:
  assumes "holders_ok f []"
  shows "\<not> global_held f" "global_depth f = 0" "epoch_holders f = []" "total_epoch_holders f = 0"
    "\<not> per_epoch_has_holders f e"
proof -
  show depth: "global_depth f = 0" and "\<not> global_held f" using assms by (auto simp: holders_ok_def)
  have no: "\<not> per_epoch_has_holders f e" for e
    using assms by (cases "e = 0") (auto simp: holders_ok_def per_epoch_has_holders_def split: if_splits)
  show "\<not> per_epoch_has_holders f e" by (rule no)
  show nil: "epoch_holders f = []"
    using no [of "fst (hd (epoch_holders f))"] by (cases "epoch_holders f") (auto simp: per_epoch_has_holders_def)
  show "total_epoch_holders f = 0" using assms nil by (simp add: holders_ok_def)
qed

lemma free_entry_grants:
  assumes hs: "holders_ok f []" and ws: "waiters_ok f ws" and ne: "ws \<noteq> []"
  shows "\<exists>self epoch pt f'. (self, epoch, pt, True) \<in> set ws \<and> lock_section self epoch pt f = (Inr VFS_OK, f')"
proof -
  note free = free_entry [OF hs]
  have grant: "\<exists>f'. lock_section self epoch pt f = (Inr VFS_OK, f')"
    if "point_ok epoch pt" "epoch = 0 \<or> pt = AtEpochWait2 \<or> \<not> global_pending f" for self epoch pt
    using that free by (auto simp: lock_defs point_ok_def split: LockPoint.splits)
  have awake: "woken" if "(self, epoch, pt, woken) \<in> set ws" "\<not> blocked f epoch pt" for self epoch pt woken
    using ws that by (auto simp: waiters_ok_def)
  show ?thesis
  proof (cases "global_pending f")
    case True
    then obtain self woken where w: "(self, 0, AtGlobalWait, woken) \<in> set ws" using ws by (auto simp: waiters_ok_def)
    have "woken" by (rule awake [OF w]) (simp add: blocked_def free)
    with w grant [of 0 AtGlobalWait self] show ?thesis by (auto simp: point_ok_def)
  next
    case False
    obtain self epoch pt woken where w: "(self, epoch, pt, woken) \<in> set ws"
      using ne by (metis list.set_intros(1) neq_Nil_conv prod_cases4)
    then have "point_ok epoch pt" using ws by (auto simp: waiters_ok_def)
    moreover have "woken" by (rule awake [OF w]) (simp add: blocked_def free False split: LockPoint.split)
    ultimately show ?thesis using w grant [of epoch pt self] False by auto
  qed
qed

text \<open>
  One key with its entry, its holders and its waiters, for concrete traces.
\<close>

abbreviation one_key :: "int \<Rightarrow> FileLockState \<Rightarrow> (nat \<times> int) list \<Rightarrow> (nat \<times> int \<times> LockPoint \<times> bool) list \<Rightarrow> LockSys" where
  "one_key key f hs ws \<equiv>
     \<lparr>table = (\<lambda>_. [])(lock_hash key := [f]), held = (\<lambda>_. [])(key := hs), waiting = (\<lambda>_. [])(key := ws)\<rparr>"

lemma one_key_lookup: "nodeId f = key \<Longrightarrow> filelock_lookup ((\<lambda>_. [])(lock_hash key := [f])) key = Some f"
  by (simp add: filelock_lookup_def)

lemma one_key_put: "nodeId f = key \<Longrightarrow> nodeId f' = key \<Longrightarrow>
    filelock_put ((\<lambda>_. [])(lock_hash key := [f])) f' = (\<lambda>_. [])(lock_hash key := [f'])"
  by (simp add: filelock_put_def)

lemma one_key_idle: "self \<noteq> 0 \<Longrightarrow> self \<notin> fst ` set ws \<Longrightarrow> idle (one_key key f hs ws) self"
  by (auto simp: idle_def)

lemma one_key_request:
  assumes "nodeId f = key" and "self \<noteq> 0" and "self \<notin> fst ` set ws"
  shows "lock_step (one_key key f hs ws) (one_key key (f\<lparr>refcount := refcount f + 1\<rparr>) hs ((self, epoch, AtEntry, True) # ws))"
proof -
  from lock_step.request [OF one_key_idle [of self ws key f hs], of True key _ epoch] show ?thesis
    using assms by (simp add: filelock_find_or_create_def one_key_lookup one_key_put)
qed

lemma one_key_wait:
  assumes "nodeId f = key" and "(self, epoch, pt, woken) \<in> set ws" and "lock_section self epoch pt f = (Inl pt', f')"
  shows "lock_step (one_key key f hs ws) (one_key key f' hs ((self, epoch, pt', False) # others self ws))"
  using lock_step.wait [of self epoch pt woken "one_key key f hs ws" key f pt' f'] assms section_fields [OF assms(3)]
  by (simp add: one_key_lookup one_key_put)

lemma one_key_grant:
  assumes "nodeId f = key" and "(self, epoch, pt, woken) \<in> set ws" and "lock_section self epoch pt f = (Inr VFS_OK, f')"
  shows "lock_step (one_key key f hs ws) (one_key key f' ((self, epoch) # hs) (others self ws))"
  using lock_step.grant [of self epoch pt woken "one_key key f hs ws" key f f'] assms section_fields [OF assms(3)]
  by (simp add: one_key_lookup one_key_put)

abbreviation epoch_lock :: "int \<Rightarrow> int \<Rightarrow> FileLockState" where
  "epoch_lock key epoch \<equiv> (fresh_lock key)\<lparr>epoch_holders := [(epoch, 1)], total_epoch_holders := 1\<rparr>"

lemma one_key_first:
  assumes "epoch \<noteq> 0"
  shows "lock_reachable (one_key key (fresh_lock key) [] [(1, epoch, AtEntry, True)])"
    and "lock_reachable (one_key key (epoch_lock key epoch) [(1, epoch)] [])"
proof -
  have upd: "(\<lambda>_. [] :: (nat \<times> int) list)(key := []) = (\<lambda>_. [])" by (rule fun_upd_idem) simp
  have "lock_step lock_sys_init (one_key key (fresh_lock key) [] [(1, epoch, AtEntry, True)])"
    using lock_step.request [of lock_sys_init 1 True key _ epoch]
    by (simp add: lock_sys_init_def lock_table_create_def idle_def filelock_find_or_create_def filelock_lookup_def upd)
  then show one: "lock_reachable (one_key key (fresh_lock key) [] [(1, epoch, AtEntry, True)])" by simp
  have "lock_step (one_key key (fresh_lock key) [] [(1, epoch, AtEntry, True)]) (one_key key (epoch_lock key epoch) [(1, epoch)] [])"
    using one_key_grant [of "fresh_lock key" key 1 epoch AtEntry True "[(1, epoch, AtEntry, True)]" "epoch_lock key epoch" "[]"]
      assms by (simp add: lock_defs per_epoch_has_holders_def)
  with one show "lock_reachable (one_key key (epoch_lock key epoch) [(1, epoch)] [])" by simp
qed

section \<open>Properties\<close>

text \<open>
  C26: Mutual exclusion of the lock table: in every interleaving of any number of threads, an epoch of
  a key has at most one holder, which holds it once, and the global mode of a key is held by one
  thread only, however often that thread has taken it.
\<close>

theorem vfs_lock_exclusion:
  assumes reach: "lock_reachable s"
  shows "((self, epoch) \<in> set (held s key) \<longrightarrow> (other, epoch) \<in> set (held s key) \<longrightarrow> self = other) \<and>
    (epoch \<noteq> 0 \<longrightarrow> length (filter (\<lambda>h. snd h = epoch) (held s key)) \<le> 1)"
proof (cases "filelock_lookup (table s) key")
  case None
  with lock_invD(2) [OF lock_reachable_inv [OF reach]] show ?thesis by simp
next
  case (Some f)
  then have ok: "holders_ok f (held s key)" using lock_invD(3) [OF lock_reachable_inv [OF reach]] by blast
  show ?thesis
  proof (cases "epoch = 0")
    case True
    have "filter (\<lambda>h. snd h = 0) (held s key) = replicate (nat (global_depth f)) (global_owner f, 0)"
      using ok by (simp add: holders_ok_def)
    then have own: "fst h = global_owner f" if "h \<in> set (filter (\<lambda>h. snd h = 0) (held s key))" for h
      using that by (metis fst_conv in_set_replicate)
    from True own [of "(self, 0)"] own [of "(other, 0)"] show ?thesis by auto
  next
    case False
    with ok have len: "length (filter (\<lambda>h. snd h = epoch) (held s key)) \<le> 1" by (simp add: holders_ok_def)
    then obtain x where "set (filter (\<lambda>h. snd h = epoch) (held s key)) \<subseteq> {x}"
      by (cases "filter (\<lambda>h. snd h = epoch) (held s key)") auto
    then have same: "h = x" if "h \<in> set (held s key)" "snd h = epoch" for h using that by auto
    from same [of "(self, epoch)"] same [of "(other, epoch)"] len show ?thesis by auto
  qed
qed

theorem vfs_lock_exclusion_witness:
  "\<exists>s. lock_reachable s \<and> held s 7 = [(1, 5)] \<and> length (filter (\<lambda>h. snd h = 5) (held s 7)) \<le> 1"
  using vfs_lock_exclusion [OF one_key_first(2) [of 5 7], of 1 5 7 1] one_key_first(2) [of 5 7]
  by (intro exI [of _ "one_key 7 (epoch_lock 7 5) [(1, 5)] []"]) simp

text \<open>
  C27: No deadlock and no lost wakeup: in every reachable state in which nobody holds a key but threads
  wait for it, one of the waiters has been signalled and its next step gives it the lock.
\<close>

theorem vfs_lock_progress:
  assumes reach: "lock_reachable s" and free: "held s key = []" and ne: "waiting s key \<noteq> []"
  shows "\<exists>self epoch pt s'. (self, epoch, pt, True) \<in> set (waiting s key) \<and> lock_step s s' \<and>
    held s' key = [(self, epoch)] \<and> self \<notin> fst ` set (waiting s' key)"
proof -
  note inv = lock_reachable_inv [OF reach]
  obtain f where f: "filelock_lookup (table s) key = Some f"
    using lock_invD(2) [OF inv] ne by (cases "filelock_lookup (table s) key") auto
  obtain self epoch pt f' where w: "(self, epoch, pt, True) \<in> set (waiting s key)"
      and run: "lock_section self epoch pt f = (Inr VFS_OK, f')"
    using free_entry_grants [of f "waiting s key"] lock_invD(3) [OF inv f] free ne by auto
  show ?thesis
    by (intro exI conjI) (rule w, rule lock_step.grant [OF w f run], auto simp: free)
qed

theorem vfs_lock_progress_witness:
  "\<exists>s. lock_reachable s \<and> waiting s 7 = [(1, 5, AtEntry, True)] \<and> (\<exists>s'. lock_step s s' \<and> held s' 7 = [(1, 5)])"
  using vfs_lock_progress [OF one_key_first(1) [of 5 7], of 7] one_key_first(1) [of 5 7]
  by (intro exI [where x = "one_key 7 (fresh_lock 7) [] [(1, 5, AtEntry, True)]"]) auto

text \<open>
  C28: The global mode does not exclude the per-epoch mode. A thread that waits for an epoch checks the
  global flags only before it waits for the holder of its epoch to leave: when that holder leaves and
  a thread waiting for the global mode runs first, the waiter then takes its epoch beside the global
  holder. This happens on every key and for every epoch.
\<close>

theorem vfs_lock_modes_overlap:
  assumes e: "epoch \<noteq> 0"
  shows "\<exists>s. lock_reachable s \<and> held s key = [(2, epoch), (3, 0)]"
proof -
  define f where "f = fresh_lock key"
  define g where "g = epoch_lock key epoch"
  note defs = f_def g_def lock_defs per_epoch_has_holders_def
  have s2: "lock_reachable (one_key key g [(1, epoch)] [])" unfolding g_def by (rule one_key_first) (rule e)
  have s3: "lock_step (one_key key g [(1, epoch)] []) (one_key key (g\<lparr>refcount := 2\<rparr>) [(1, epoch)] [(2, epoch, AtEntry, True)])"
    using one_key_request [of g key 2 "[]" "[(1, epoch)]" epoch] by (simp add: defs)
  have s4: "lock_step (one_key key (g\<lparr>refcount := 2\<rparr>) [(1, epoch)] [(2, epoch, AtEntry, True)])
      (one_key key (g\<lparr>refcount := 2\<rparr>) [(1, epoch)] [(2, epoch, AtEpochWait2, False)])"
    using one_key_wait [of "g\<lparr>refcount := 2\<rparr>" key 2 epoch AtEntry True "[(2, epoch, AtEntry, True)]"
        AtEpochWait2 "g\<lparr>refcount := 2\<rparr>" "[(1, epoch)]"] e by (simp add: defs)
  have s5: "lock_step (one_key key (g\<lparr>refcount := 2\<rparr>) [(1, epoch)] [(2, epoch, AtEpochWait2, False)])
      (one_key key (g\<lparr>refcount := 3\<rparr>) [(1, epoch)] [(3, 0, AtEntry, True), (2, epoch, AtEpochWait2, False)])"
    using one_key_request [of "g\<lparr>refcount := 2\<rparr>" key 3 "[(2, epoch, AtEpochWait2, False)]" "[(1, epoch)]" 0]
    by (simp add: defs)
  let ?g' = "g\<lparr>refcount := 3, global_pending := True\<rparr>"
  have s6: "lock_step (one_key key (g\<lparr>refcount := 3\<rparr>) [(1, epoch)] [(3, 0, AtEntry, True), (2, epoch, AtEpochWait2, False)])
      (one_key key ?g' [(1, epoch)] [(3, 0, AtGlobalWait, False), (2, epoch, AtEpochWait2, False)])"
    using one_key_wait [of "g\<lparr>refcount := 3\<rparr>" key 3 0 AtEntry True
        "[(3, 0, AtEntry, True), (2, epoch, AtEpochWait2, False)]" AtGlobalWait ?g' "[(1, epoch)]"] by (simp add: defs)
  let ?h = "f\<lparr>refcount := 2, global_pending := True\<rparr>"
  have s7: "lock_step (one_key key ?g' [(1, epoch)] [(3, 0, AtGlobalWait, False), (2, epoch, AtEpochWait2, False)])
      (one_key key ?h [] [(3, 0, AtGlobalWait, True), (2, epoch, AtEpochWait2, True)])"
    using lock_step.release [of "one_key key ?g' [(1, epoch)] [(3, 0, AtGlobalWait, False), (2, epoch, AtEpochWait2, False)]"
        1 epoch key "(\<lambda>_. [])(lock_hash key := [?h])" True] e
    by (simp add: one_key_idle defs unlock_table_def one_key_lookup per_epoch_remove_def filelock_release_def one_key_put wake_def)
  let ?k = "?h\<lparr>global_owner := 3, global_depth := 1, global_held := True, global_pending := False\<rparr>"
  have s8: "lock_step (one_key key ?h [] [(3, 0, AtGlobalWait, True), (2, epoch, AtEpochWait2, True)])
      (one_key key ?k [(3, 0)] [(2, epoch, AtEpochWait2, True)])"
    using one_key_grant [of ?h key 3 0 AtGlobalWait True
        "[(3, 0, AtGlobalWait, True), (2, epoch, AtEpochWait2, True)]" ?k "[]"] by (simp add: defs)
  let ?l = "?k\<lparr>epoch_holders := [(epoch, 1)], total_epoch_holders := 1\<rparr>"
  have s9: "lock_step (one_key key ?k [(3, 0)] [(2, epoch, AtEpochWait2, True)]) (one_key key ?l [(2, epoch), (3, 0)] [])"
    using one_key_grant [of ?k key 2 epoch AtEpochWait2 True "[(2, epoch, AtEpochWait2, True)]" ?l "[(3, 0)]"] e
    by (simp add: defs)
  have "lock_reachable (one_key key ?l [(2, epoch), (3, 0)] [])"
    using s2 s3 s4 s5 s6 s7 s8 s9 by (meson rtranclp.rtrancl_into_rtrancl)
  then show ?thesis by (intro exI [of _ "one_key key ?l [(2, epoch), (3, 0)] []"]) simp
qed

theorem vfs_lock_modes_overlap_witness: "\<exists>s. lock_reachable s \<and> held s 7 = [(2, 5), (3, 0)]"
  using vfs_lock_modes_overlap [of 5 7] by simp

end
