(* ===== verification/Heap.thy ===== *)
theory Heap
  imports Pool
begin

text \<open>
  The store as the tree code sees it: a heap of slots (nodes) and a set of data pages.

  \<open>heap_rep pool S P\<close> says that the pool represents the slots \<open>S\<close> and the data pages \<open>P\<close>, which never share a
  page. It is a relation and not a function because the pool does not record which pages it owns. The locale
  \<open>node_heap\<close> states what every access does to \<open>S\<close> and \<open>P\<close>; it is interpreted on the slot pool and on page reads
  and writes of the storage backend.
\<close>

section \<open>Page accesses of the tree code\<close>

text \<open>
  The calls into the storage backend of the pool, for whole data pages.
\<close>

definition data_read :: "Pool \<Rightarrow> int \<Rightarrow> bytes option \<times> StorageReadStatus \<times> Pool" where
  "data_read pool p = (let (r, st, sb) = storage_read_with_status (pool_sb pool) p in (r, st, pool\<lparr>pool_sb := sb\<rparr>))"

definition data_write :: "Pool \<Rightarrow> int \<Rightarrow> bytes \<Rightarrow> Pool" where
  "data_write pool p b = pool\<lparr>pool_sb := storage_write (pool_sb pool) p b 0\<rparr>"

definition data_alloc :: "Pool \<Rightarrow> (int \<times> Pool) option" where
  "data_alloc pool = do { (p, sb) \<leftarrow> storage_allocate (pool_sb pool) 1; Some (p, pool\<lparr>pool_sb := sb\<rparr>) }"

section \<open>The interface\<close>

locale node_heap =
  fixes rep :: "'s \<Rightarrow> (int \<rightharpoonup> bytes) \<Rightarrow> (int \<rightharpoonup> bytes) \<Rightarrow> bool"
    and fresh :: "'s \<Rightarrow> (int \<rightharpoonup> bytes) \<Rightarrow> (int \<rightharpoonup> bytes) \<Rightarrow> int \<Rightarrow> bool"
    and room :: "'s \<Rightarrow> nat \<Rightarrow> bool"
    and psize :: "'s \<Rightarrow> nat"
    and acq :: "'s \<Rightarrow> int \<Rightarrow> bool \<Rightarrow> PoolSlot \<times> 's"
    and rel :: "'s \<Rightarrow> PoolSlot \<Rightarrow> PoolSlot \<times> 's"
    and alloc :: "'s \<Rightarrow> (int \<times> 's) option"
    and dread :: "'s \<Rightarrow> int \<Rightarrow> bytes option \<times> StorageReadStatus \<times> 's"
    and dwrite :: "'s \<Rightarrow> int \<Rightarrow> bytes \<Rightarrow> 's"
    and dalloc :: "'s \<Rightarrow> (int \<times> 's) option"
  assumes slot_shape: "rep s S P \<Longrightarrow> S v = Some b \<Longrightarrow> 0 < v \<and> v < 2 ^ 63 \<and> length b = 32"
    and page_shape: "rep s S P \<Longrightarrow> P d = Some b \<Longrightarrow> 0 \<le> d \<and> d < 2 ^ 31 \<and> length b = psize s"
    and acq_law: "rep s S P \<Longrightarrow> S v = Some b \<Longrightarrow> \<exists>s'. acq s v pin = (\<lparr>ps_vptr = v, pinnedPage = pin, ps_bytes = b\<rparr>, s')
      \<and> rep s' S P \<and> room s' = room s \<and> psize s' = psize s"
    and rel_law: "rep s S P \<Longrightarrow> v \<in> dom S \<Longrightarrow> length b = 32 \<Longrightarrow>
      \<exists>slot s'. rel s \<lparr>ps_vptr = v, pinnedPage = True, ps_bytes = b\<rparr> = (slot, s')
      \<and> rep s' (S(v \<mapsto> b)) P \<and> room s' = room s \<and> psize s' = psize s"
    and rel_unpinned: "rel s \<lparr>ps_vptr = v, pinnedPage = False, ps_bytes = b\<rparr> = (\<lparr>ps_vptr = v, pinnedPage = False, ps_bytes = b\<rparr>, s)"
    and alloc_law: "rep s S P \<Longrightarrow> room s (Suc k) \<Longrightarrow> \<exists>v b s'. alloc s = Some (v, s') \<and> v \<notin> dom S
      \<and> rep s' (S(v \<mapsto> b)) P \<and> room s' k \<and> psize s' = psize s"
    and dread_law: "rep s S P \<Longrightarrow> P d = Some b \<Longrightarrow> \<exists>st s'. dread s d = (Some b, st, s') \<and> rep s' S P
      \<and> room s' = room s \<and> psize s' = psize s \<and> fresh s' S P = fresh s S P"
    and dwrite_law: "rep s S P \<Longrightarrow> d \<in> dom P \<or> fresh s S P d \<Longrightarrow> length b = psize s \<Longrightarrow>
      rep (dwrite s d b) S (P(d \<mapsto> b)) \<and> room (dwrite s d b) = room s \<and> psize (dwrite s d b) = psize s"
    and dalloc_law: "rep s S P \<Longrightarrow> room s (Suc k) \<Longrightarrow> \<exists>d s'. dalloc s = Some (d, s') \<and> d \<notin> dom P \<and> 0 \<le> d
      \<and> rep s' S P \<and> fresh s' S P d \<and> room s' k \<and> psize s' = psize s"
    and room_mono: "room s k \<Longrightarrow> j \<le> k \<Longrightarrow> room s j"
begin

lemma slot_nonzero: "rep s S P \<Longrightarrow> S 0 = None"
  using slot_shape [of s S P 0] by (cases "S 0") auto

text \<open>A read: acquire without a pin, release.\<close>

lemma peek_law:
  assumes "rep s S P" "S v = Some b"
  shows "\<exists>s'. acq s v False = (\<lparr>ps_vptr = v, pinnedPage = False, ps_bytes = b\<rparr>, s')
    \<and> rel s' \<lparr>ps_vptr = v, pinnedPage = False, ps_bytes = b\<rparr> = (\<lparr>ps_vptr = v, pinnedPage = False, ps_bytes = b\<rparr>, s')
    \<and> rep s' S P \<and> room s' = room s \<and> psize s' = psize s \<and> v \<noteq> 0"
  using acq_law [OF assms, of False] slot_shape [OF assms] rel_unpinned by fastforce

text \<open>A new node: allocate, acquire pinned; the caller fills the bytes in and releases.\<close>

lemma new_law:
  assumes "rep s S P" "room s (Suc k)"
  shows "\<exists>v b s1 s2. alloc s = Some (v, s1) \<and> v \<notin> dom S \<and> v \<noteq> 0
    \<and> acq s1 v True = (\<lparr>ps_vptr = v, pinnedPage = True, ps_bytes = b\<rparr>, s2) \<and> length b = 32 \<and> 0 < v \<and> v < 2 ^ 63
    \<and> rep s2 (S(v \<mapsto> b)) P \<and> room s2 k \<and> psize s2 = psize s"
proof -
  from alloc_law [OF assms] obtain v b s1 where a: "alloc s = Some (v, s1)" "v \<notin> dom S" "rep s1 (S(v \<mapsto> b)) P" "room s1 k"
    "psize s1 = psize s" by blast
  from acq_law [OF a(3), of v b True] obtain s2 where
    "acq s1 v True = (\<lparr>ps_vptr = v, pinnedPage = True, ps_bytes = b\<rparr>, s2)" "rep s2 (S(v \<mapsto> b)) P" "room s2 = room s1"
    "psize s2 = psize s1" by auto
  with a slot_shape [OF a(3), of v b] show ?thesis by (intro exI [of _ v] exI [of _ b] exI [of _ s1] exI [of _ s2]) simp
qed

end

section \<open>The interface on the slot pool\<close>

definition heap_rep :: "Pool \<Rightarrow> (int \<rightharpoonup> bytes) \<Rightarrow> (int \<rightharpoonup> bytes) \<Rightarrow> bool" where
  "heap_rep pool S P \<longleftrightarrow> pool_ok pool
     \<and> (\<forall>v b. S v = Some b \<longrightarrow> live pool v \<and> slot_view pool v = Some b \<and> P (VFS_VPTR_PAGE v) = None)
     \<and> (\<forall>d b. P d = Some b \<longrightarrow> 0 \<le> d \<and> d < 2 ^ 31 \<and> page_view (pool_sb pool) d = Some b \<and> \<not> in_list pool d)"

definition fresh_page :: "Pool \<Rightarrow> (int \<rightharpoonup> bytes) \<Rightarrow> (int \<rightharpoonup> bytes) \<Rightarrow> int \<Rightarrow> bool" where
  "fresh_page pool S P p \<longleftrightarrow> 0 \<le> p \<and> p < 2 ^ 31 \<and> indir_lookup (pool_sb pool) p \<noteq> 0 \<and> \<not> in_list pool p
     \<and> (\<forall>v. S v \<noteq> None \<longrightarrow> VFS_VPTR_PAGE v \<noteq> p)"

text \<open>A step that changes neither the view of the pages nor the list.\<close>

lemma heap_rep_same:
  assumes rep: "heap_rep pool S P" and sb: "store_ok sb'" "page_view sb' = page_view (pool_sb pool)" "same_but_cache (pool_sb pool) sb'"
  shows "heap_rep (pool\<lparr>pool_sb := sb'\<rparr>) S P" "fresh_page (pool\<lparr>pool_sb := sb'\<rparr>) S P = fresh_page pool S P"
    "store_room sb' = store_room (pool_sb pool)" "page_size sb' = page_size (pool_sb pool)"
proof -
  have ok: "pool_ok pool" using rep by (simp add: heap_rep_def)
  note c = pool_ok_cache [OF ok sb]
  have l: "in_list (pool\<lparr>pool_sb := sb'\<rparr>) = in_list pool" by (simp add: fun_eq_iff in_list_def sb(2))
  show "heap_rep (pool\<lparr>pool_sb := sb'\<rparr>) S P" using rep c l by (simp add: heap_rep_def sb(2))
  have "indir_lookup sb' = indir_lookup (pool_sb pool)"
    using sb(3) unfolding same_but_cache_def by (metis indir_lookup_upd(9))
  then show "fresh_page (pool\<lparr>pool_sb := sb'\<rparr>) S P = fresh_page pool S P" by (simp add: fun_eq_iff fresh_page_def l)
  show "store_room sb' = store_room (pool_sb pool)" by (rule c)
  show "page_size sb' = page_size (pool_sb pool)" using same_but_cache_fields [OF sb(3)] by simp
qed

text \<open>Pages that do not belong to the pool change; slots, list and the other pages stay.\<close>

lemma heap_rep_page:
  assumes rep: "heap_rep pool S P" and d: "0 \<le> d" "d < 2 ^ 31" "\<not> in_list pool d" "\<forall>v. S v \<noteq> None \<longrightarrow> VFS_VPTR_PAGE v \<noteq> d"
    and sb: "store_ok sb'" "page_view sb' = (page_view (pool_sb pool))(d \<mapsto> b)" "page_size sb' = page_size (pool_sb pool)"
  shows "heap_rep (pool\<lparr>pool_sb := sb'\<rparr>) S (P(d \<mapsto> b))"
proof -
  let ?pool' = "pool\<lparr>pool_sb := sb'\<rparr>"
  have ok: "pool_ok pool" using rep by (simp add: heap_rep_def)
  then obtain pages where pg: "pool_pages (page_view (pool_sb pool)) (list_head pool) pages"
    and each: "\<forall>p \<in> set pages. 2 \<le> p \<and> p < 2 ^ 31
      \<and> (\<forall>b. page_view (pool_sb pool) p = Some b \<longrightarrow> pool_page_ok (page_size (pool_sb pool)) b)"
    by (auto simp: pool_ok_def)
  have nd: "d \<notin> set pages" using d(3) in_list_pages [OF pg] by simp
  have pg': "pool_pages (page_view sb') (list_head pool) pages"
    by (rule pool_pages_cong [OF pg]) (use sb(2) nd in auto)
  then have l: "in_list ?pool' = in_list pool"
    using in_list_pages [of ?pool' pages] in_list_pages [OF pg] by (simp add: fun_eq_iff)
  have "\<forall>p \<in> set pages. page_view sb' p = page_view (pool_sb pool) p" using nd sb(2) by auto
  then have ok': "pool_ok ?pool'" using pg' each sb(1,3) unfolding pool_ok_def by (auto intro!: exI [of _ pages])
  have "live ?pool' v \<and> slot_view ?pool' v = Some c" if "S v = Some c" for v c
  proof -
    have "VFS_VPTR_PAGE v \<noteq> d" using d(4) that by auto
    moreover have "live pool v" "slot_view pool v = Some c" using rep that by (auto simp: heap_rep_def)
    ultimately show ?thesis by (simp add: live_def slot_view_def view_slot_def sb(2,3))
  qed
  with rep d ok' l show ?thesis unfolding heap_rep_def by (auto simp: sb(2))
qed

lemma heap_rep_store: "heap_rep pool S P \<Longrightarrow> store_ok (pool_sb pool)"
  by (simp add: heap_rep_def pool_ok_def)

lemma heap_alloc:
  assumes rep: "heap_rep pool S P" and room: "store_room (pool_sb pool) (Suc k)"
  shows "\<exists>v b pool'. pool_alloc pool = Some (v, pool') \<and> v \<notin> dom S \<and> heap_rep pool' (S(v \<mapsto> b)) P
    \<and> store_room (pool_sb pool') k \<and> page_size (pool_sb pool') = page_size (pool_sb pool)"
proof -
  have ok: "pool_ok pool" using rep by (simp add: heap_rep_def)
  from pool_alloc_listed [OF ok room] obtain v pool' where
    a: "pool_alloc pool = Some (v, pool')" "pool_ok pool'" "store_room (pool_sb pool') k" "alloc_step pool v pool'"
      "in_list pool (VFS_VPTR_PAGE v) \<or> page_view (pool_sb pool) (VFS_VPTR_PAGE v) = None"
      "\<forall>p. in_list pool' p \<longrightarrow> p = VFS_VPTR_PAGE v \<or> in_list pool p" by blast
  obtain b where b: "slot_view pool' v = Some b"
    using a(2,4) ph.look_live [of pool' v] by (auto simp: alloc_step_def)
  have out: "P (VFS_VPTR_PAGE v) = None"
    using rep a(5) by (cases "P (VFS_VPTR_PAGE v)") (auto simp: heap_rep_def)
  have "v \<notin> dom S" using rep a(4) by (auto simp: heap_rep_def alloc_step_def)
  moreover have "page_view (pool_sb pool') d = Some c \<and> \<not> in_list pool' d" if "P d = Some c" for d c
  proof -
    have "d \<noteq> VFS_VPTR_PAGE v" using that out by auto
    then show ?thesis using rep that a(4,6) by (auto simp: heap_rep_def alloc_step_def)
  qed
  then have "heap_rep pool' (S(v \<mapsto> b)) P"
    using rep a(2,4) b out unfolding heap_rep_def alloc_step_def by simp
  ultimately show ?thesis using a by (auto simp: alloc_step_def)
qed

lemma heap_release:
  assumes rep: "heap_rep pool S P" and v: "v \<in> dom S" and len: "length b = 32"
  shows "\<exists>slot pool'. pool_release pool \<lparr>ps_vptr = v, pinnedPage = True, ps_bytes = b\<rparr> = (slot, pool')
    \<and> heap_rep pool' (S(v \<mapsto> b)) P \<and> store_room (pool_sb pool') = store_room (pool_sb pool)
    \<and> page_size (pool_sb pool') = page_size (pool_sb pool)"
proof -
  have ok: "pool_ok pool" "live pool v" and out: "P (VFS_VPTR_PAGE v) = None" using rep v by (auto simp: heap_rep_def)
  from pool_release_law [of pool "\<lparr>ps_vptr = v, pinnedPage = True, ps_bytes = b\<rparr>"] ok len obtain sb' where
    r: "pool_release pool \<lparr>ps_vptr = v, pinnedPage = True, ps_bytes = b\<rparr> =
          (\<lparr>ps_vptr = v, pinnedPage = False, ps_bytes = b\<rparr>, pool\<lparr>pool_sb := sb'\<rparr>)"
      "pool_ok (pool\<lparr>pool_sb := sb'\<rparr>)" "slot_view (pool\<lparr>pool_sb := sb'\<rparr>) = (slot_view pool)(v \<mapsto> b)"
      "live (pool\<lparr>pool_sb := sb'\<rparr>) = live pool" "same_but_cache (pool_sb pool) sb'"
      "\<forall>q. q \<noteq> VFS_VPTR_PAGE v \<longrightarrow> page_view sb' q = page_view (pool_sb pool) q"
      "in_list (pool\<lparr>pool_sb := sb'\<rparr>) = in_list pool" by auto
  have "d \<noteq> VFS_VPTR_PAGE v" if "P d = Some c" for d c using that out by auto
  then have "heap_rep (pool\<lparr>pool_sb := sb'\<rparr>) (S(v \<mapsto> b)) P"
    using rep r(2-4,6,7) out ok(2) unfolding heap_rep_def by auto
  with r(1) same_but_cache_fields [OF r(5)] show ?thesis by (auto simp: fun_eq_iff)
qed

lemma heap_data_alloc:
  assumes rep: "heap_rep pool S P" and room: "store_room (pool_sb pool) (Suc k)"
  shows "\<exists>d pool'. data_alloc pool = Some (d, pool') \<and> d \<notin> dom P \<and> 0 \<le> d \<and> heap_rep pool' S P \<and> fresh_page pool' S P d
    \<and> store_room (pool_sb pool') k \<and> page_size (pool_sb pool') = page_size (pool_sb pool)"
proof -
  have ok: "pool_ok pool" using rep by (simp add: heap_rep_def)
  from allocate_ok [OF heap_rep_store [OF rep] room] obtain d sb' where
    a: "storage_allocate (pool_sb pool) 1 = Some (d, sb')" "store_ok sb'" "store_room sb' k" "2 \<le> d" "d < 2 ^ 31"
      "page_view (pool_sb pool) d = None" "indir_lookup sb' d \<noteq> 0" "page_size sb' = page_size (pool_sb pool)"
      "\<forall>q b. page_view (pool_sb pool) q = Some b \<longrightarrow> 0 \<le> q \<longrightarrow> page_view sb' q = Some b" by blast
  let ?pool' = "pool\<lparr>pool_sb := sb'\<rparr>"
  from ok obtain pages where pg: "pool_pages (page_view (pool_sb pool)) (list_head pool) pages"
    and each: "\<forall>p \<in> set pages. 2 \<le> p \<and> p < 2 ^ 31
      \<and> (\<forall>b. page_view (pool_sb pool) p = Some b \<longrightarrow> pool_page_ok (page_size (pool_sb pool)) b)"
    by (auto simp: pool_ok_def)
  have keep: "page_view sb' p = page_view (pool_sb pool) p" if "p \<in> set pages" for p
    using pool_pages_members [OF pg that] a(9) each that by force
  have pg': "pool_pages (page_view sb') (list_head pool) pages"
    by (rule pool_pages_cong [OF pg]) (use keep in auto)
  then have l: "in_list ?pool' = in_list pool"
    using in_list_pages [of ?pool' pages] in_list_pages [OF pg] by (simp add: fun_eq_iff)
  have ok': "pool_ok ?pool'" using pg' each a(2,8) keep unfolding pool_ok_def by (auto intro!: exI [of _ pages])
  have slots: "live ?pool' v \<and> slot_view ?pool' v = Some b \<and> VFS_VPTR_PAGE v \<noteq> d" if "S v = Some b" for v b
  proof -
    have "live pool v" "slot_view pool v = Some b" using rep that by (auto simp: heap_rep_def)
    moreover then obtain c where c: "page_view (pool_sb pool) (VFS_VPTR_PAGE v) = Some c" by (auto simp: live_view)
    moreover then have "page_view sb' (VFS_VPTR_PAGE v) = Some c" using a(9) by simp
    ultimately show ?thesis using a(6,8) by (auto simp: live_def slot_view_def view_slot_def)
  qed
  have "heap_rep ?pool' S P" using rep ok' slots l a(9) unfolding heap_rep_def by auto
  moreover have "d \<notin> dom P" using rep a(6) by (auto simp: heap_rep_def)
  moreover have "\<not> in_list pool d" using in_list_pages [OF pg] pool_pages_members [OF pg, of d] a(6) by auto
  then have "fresh_page ?pool' S P d" using a(4,5,7) l slots by (auto simp: fresh_page_def)
  ultimately show ?thesis using a by (auto simp: data_alloc_def)
qed

interpretation nh: node_heap heap_rep fresh_page "\<lambda>pool. store_room (pool_sb pool)" "\<lambda>pool. page_size (pool_sb pool)"
  pool_acquire pool_release pool_alloc data_read data_write data_alloc
proof
  fix s S P v and b :: bytes assume "heap_rep s S P" "S v = Some b"
  then have "pool_ok s" "live s v" "slot_view s v = Some b" by (auto simp: heap_rep_def)
  with ph.look_live [of s v] show "0 < v \<and> v < 2 ^ 63 \<and> length b = 32" by (auto simp: live_def vptr_ok_def)
next
  fix s S P d and b :: bytes assume "heap_rep s S P" "P d = Some b"
  then show "0 \<le> d \<and> d < 2 ^ 31 \<and> length b = page_size (pool_sb s)"
    using page_view_length [of "pool_sb s" d b] by (auto simp: heap_rep_def pool_ok_def store_ok_def)
next
  fix s S P v pin and b :: bytes assume rep: "heap_rep s S P" and v: "S v = Some b"
  then have lv: "pool_ok s" "live s v" "slot_view s v = Some b" by (auto simp: heap_rep_def)
  then have "vptr_ok (page_size (pool_sb s)) v" by (simp add: live_view)
  from pool_acquire_law [OF lv(1) this, of pin] obtain slot sb' where
    r: "pool_acquire s v pin = (slot, s\<lparr>pool_sb := sb'\<rparr>)" "store_ok sb'" "page_view sb' = page_view (pool_sb s)"
      "same_but_cache (pool_sb s) sb'" "ps_vptr slot = v"
      "ps_bytes slot = (case slot_view s v of None \<Rightarrow> zero_bytes 32 | Some b \<Rightarrow> b)"
      "pinnedPage slot \<longleftrightarrow> pin \<and> slot_view s v \<noteq> None" by blast
  have "slot = \<lparr>ps_vptr = v, pinnedPage = pin, ps_bytes = b\<rparr>" using r(5-7) lv(3) by (cases slot) simp
  with r(1) heap_rep_same [OF rep r(2-4)]
  show "\<exists>s'. pool_acquire s v pin = (\<lparr>ps_vptr = v, pinnedPage = pin, ps_bytes = b\<rparr>, s') \<and> heap_rep s' S P
      \<and> store_room (pool_sb s') = store_room (pool_sb s) \<and> page_size (pool_sb s') = page_size (pool_sb s)" by auto
next
  fix s S P v and b :: bytes assume "heap_rep s S P" "v \<in> dom S" "length b = 32"
  then show "\<exists>slot s'. pool_release s \<lparr>ps_vptr = v, pinnedPage = True, ps_bytes = b\<rparr> = (slot, s')
      \<and> heap_rep s' (S(v \<mapsto> b)) P \<and> store_room (pool_sb s') = store_room (pool_sb s)
      \<and> page_size (pool_sb s') = page_size (pool_sb s)" by (rule heap_release)
next
  fix s v and b :: bytes
  show "pool_release s \<lparr>ps_vptr = v, pinnedPage = False, ps_bytes = b\<rparr> = (\<lparr>ps_vptr = v, pinnedPage = False, ps_bytes = b\<rparr>, s)"
    by (simp add: pool_release_def)
next
  fix s S P k assume "heap_rep s S P" "store_room (pool_sb s) (Suc k)"
  then show "\<exists>v b s'. pool_alloc s = Some (v, s') \<and> v \<notin> dom S \<and> heap_rep s' (S(v \<mapsto> b)) P
      \<and> store_room (pool_sb s') k \<and> page_size (pool_sb s') = page_size (pool_sb s)" by (rule heap_alloc)
next
  fix s S P d and b :: bytes assume rep: "heap_rep s S P" and d: "P d = Some b"
  obtain r st sb' where rd: "storage_read_with_status (pool_sb s) d = (r, st, sb')" by (metis prod_cases3)
  have "0 \<le> d" "page_view (pool_sb s) d = Some b" using rep d by (auto simp: heap_rep_def)
  with read_ok [OF heap_rep_store [OF rep] rd] have
    r: "r = Some b" "store_ok sb'" "page_view sb' = page_view (pool_sb s)" "same_but_cache (pool_sb s) sb'" by auto
  from heap_rep_same [OF rep r(2-4)] rd r(1)
  show "\<exists>st s'. data_read s d = (Some b, st, s') \<and> heap_rep s' S P \<and> store_room (pool_sb s') = store_room (pool_sb s)
      \<and> page_size (pool_sb s') = page_size (pool_sb s) \<and> fresh_page s' S P = fresh_page s S P"
    by (auto simp: data_read_def)
next
  fix s S P d and b :: bytes assume rep: "heap_rep s S P" and d: "d \<in> dom P \<or> fresh_page s S P d" and b: "length b = page_size (pool_sb s)"
  have so: "store_ok (pool_sb s)" by (rule heap_rep_store [OF rep])
  have D: "0 \<le> d" "d < 2 ^ 31" "\<not> in_list s d" "\<forall>v. S v \<noteq> None \<longrightarrow> VFS_VPTR_PAGE v \<noteq> d" "indir_lookup (pool_sb s) d \<noteq> 0"
    using d rep page_view_mapped [OF so] by (auto simp: heap_rep_def fresh_page_def)
  note w = write_ok [OF so D(1,5) b, of 0]
  note f = same_but_cache_fields [OF w(3)]
  show "heap_rep (data_write s d b) S (P(d \<mapsto> b)) \<and> store_room (pool_sb (data_write s d b)) = store_room (pool_sb s)
      \<and> page_size (pool_sb (data_write s d b)) = page_size (pool_sb s)"
    using heap_rep_page [OF rep D(1-4) w(1,2)] f by (auto simp: data_write_def fun_eq_iff)
next
  fix s S P k assume "heap_rep s S P" "store_room (pool_sb s) (Suc k)"
  then show "\<exists>d s'. data_alloc s = Some (d, s') \<and> d \<notin> dom P \<and> 0 \<le> d \<and> heap_rep s' S P \<and> fresh_page s' S P d
      \<and> store_room (pool_sb s') k \<and> page_size (pool_sb s') = page_size (pool_sb s)" by (rule heap_data_alloc)
next
  fix s :: Pool and k j :: nat assume "store_room (pool_sb s) k" "j \<le> k"
  then show "store_room (pool_sb s) j" by (rule store_room_mono)
qed

end
