(* ===== verification/Tree.thy ===== *)
theory Tree
  imports Names Mapper Locks Heap
begin

text \<open>
  The tree context of a mounted file system (\<^verbatim>\<open>include/ixsphere/vfs_internal.h\<close>), the superblock, and the
  walks over node chains every operation of the tree shares (\<^verbatim>\<open>src/tree.c\<close>).

  \<open>vfs_t\<close> holds the fields of \<^verbatim>\<open>TreeContext\<close> together with the lock table of \<^verbatim>\<open>struct vfs_t\<close>; the storage
  backend is the one inside the pool. \<open>vfs_now\<close> is what \<^verbatim>\<open>time(NULL)\<close> returns. The operations run as one
  thread, \<open>self_thread\<close>, so a lock that has to wait never comes: the call does not return, which is None,
  as for a walk over a cyclic chain.

  The lemmas show that a walk over a leaf chain returns the entry the read rule designates, and
  that the superblock page decodes to what was encoded.
\<close>

section \<open>The tree context\<close>

record SegmentArray =
  vptr_array :: "int list option"
  seg_size :: nat
  built :: bool

record TcacheEntry =
  tc_key :: int
  tc_arr :: SegmentArray
  populated :: bool
  tc_gen :: int

record vfs_t =
  vpool :: Pool
  rootNodeOffset :: int
  currentEpoch :: int
  vfs_epochMapperPtr :: int
  nextNodeId :: u32
  treeLockState :: int
  gc_generation :: int
  vfs_segment_size :: u32
  mapper_table :: MapperTable
  last_error :: vfs_error_t
  chain_walk_tcache :: "TcacheEntry list"
  chain_walk_tcache_next :: int
  lock_table :: LockTable
  vfs_now :: int

abbreviation vfs_sb :: "vfs_t \<Rightarrow> StorageBackend" where
  "vfs_sb vfs \<equiv> pool_sb (vpool vfs)"

abbreviation set_sb :: "vfs_t \<Rightarrow> StorageBackend \<Rightarrow> vfs_t" where
  "set_sb vfs sb \<equiv> vfs\<lparr>vpool := (vpool vfs)\<lparr>pool_sb := sb\<rparr>\<rparr>"

abbreviation vfs_page_size :: "vfs_t \<Rightarrow> int" where
  "vfs_page_size vfs \<equiv> int (page_size (vfs_sb vfs))"

definition vfs_mapper :: "vfs_t \<Rightarrow> Mapper" where
  "vfs_mapper vfs = \<lparr>mp_pool = vpool vfs, epochMapperPtr = vfs_epochMapperPtr vfs\<rparr>"

definition vfs_acquire :: "vfs_t \<Rightarrow> int \<Rightarrow> bool \<Rightarrow> PoolSlot \<times> vfs_t" where
  "vfs_acquire vfs vp pin = (let (slot, pool) = pool_acquire (vpool vfs) vp pin in (slot, vfs\<lparr>vpool := pool\<rparr>))"

definition vfs_release :: "vfs_t \<Rightarrow> PoolSlot \<Rightarrow> vfs_t" where
  "vfs_release vfs slot = (let (slot, pool) = pool_release (vpool vfs) slot in vfs\<lparr>vpool := pool\<rparr>)"

definition vfs_alloc :: "vfs_t \<Rightarrow> (int \<times> vfs_t) option" where
  "vfs_alloc vfs = do { (vp, pool) \<leftarrow> pool_alloc (vpool vfs); Some (vp, vfs\<lparr>vpool := pool\<rparr>) }"

definition vfs_malloc :: "vfs_t \<Rightarrow> bool \<times> vfs_t" where
  "vfs_malloc vfs = (let (ok, sb) = malloc (vfs_sb vfs) in (ok, set_sb vfs sb))"

definition zero_slot :: PoolSlot where
  "zero_slot = \<lparr>ps_vptr = 0, pinnedPage = False, ps_bytes = zero_bytes 32\<rparr>"

section \<open>Locks of a single thread\<close>

abbreviation (input) self_thread :: nat where
  "self_thread \<equiv> 1"

definition vfs_lock :: "vfs_t \<Rightarrow> int \<Rightarrow> int \<Rightarrow> (vfs_error_t \<times> vfs_t) option" where
  "vfs_lock vfs file epoch =
     (let (mem, vfs) = (if filelock_lookup (lock_table vfs) file = None then vfs_malloc vfs else (True, vfs)) in
      case filelock_find_or_create mem (lock_table vfs) file of
        None \<Rightarrow> Some (VFS_ERR_NOMEM, vfs\<lparr>last_error := VFS_ERR_NOMEM\<rparr>)
      | Some t \<Rightarrow> do {
          fls \<leftarrow> filelock_lookup t file;
          (case lock_entry self_thread epoch fls of
             (Inl _, _) \<Rightarrow> None
           | (Inr VFS_OK, fls) \<Rightarrow> Some (VFS_OK, vfs\<lparr>lock_table := filelock_put t fls\<rparr>)
           | (Inr err, fls) \<Rightarrow> Some (err, vfs\<lparr>lock_table := filelock_put t fls, last_error := VFS_ERR_NOMEM\<rparr>))
        })"

definition vfs_unlock :: "vfs_t \<Rightarrow> int \<Rightarrow> int \<Rightarrow> vfs_error_t \<times> vfs_t" where
  "vfs_unlock vfs file epoch =
     (let (err, t, _) = unlock_table self_thread file epoch (lock_table vfs);
          vfs = vfs\<lparr>lock_table := t\<rparr>
      in (err, if err = VFS_OK then vfs else vfs\<lparr>last_error := VFS_ERR_IO\<rparr>))"

section \<open>The superblock\<close>

abbreviation (input) SB_OFF_ROOT_OFFSET :: nat where "SB_OFF_ROOT_OFFSET \<equiv> 0"
abbreviation (input) SB_OFF_CURRENT_EPOCH :: nat where "SB_OFF_CURRENT_EPOCH \<equiv> 8"
abbreviation (input) SB_OFF_EPOCH_MAPPER_PTR :: nat where "SB_OFF_EPOCH_MAPPER_PTR \<equiv> 16"
abbreviation (input) SB_OFF_POOL_LIST_HEAD :: nat where "SB_OFF_POOL_LIST_HEAD \<equiv> 24"
abbreviation (input) SB_OFF_TREE_LOCK_STATE :: nat where "SB_OFF_TREE_LOCK_STATE \<equiv> 32"
abbreviation (input) SB_OFF_NEXT_NODE_ID :: nat where "SB_OFF_NEXT_NODE_ID \<equiv> 40"
abbreviation (input) SUPERBLOCK_PAGE :: int where "SUPERBLOCK_PAGE \<equiv> 1"

definition superblock_decode :: "vfs_t \<Rightarrow> bytes \<Rightarrow> vfs_t" where
  "superblock_decode vfs payload =
     vfs\<lparr>rootNodeOffset := rd8i payload SB_OFF_ROOT_OFFSET,
         currentEpoch := rd8i payload SB_OFF_CURRENT_EPOCH,
         vfs_epochMapperPtr := rd8i payload SB_OFF_EPOCH_MAPPER_PTR,
         treeLockState := rd8i payload SB_OFF_TREE_LOCK_STATE,
         nextNodeId := rd4 payload SB_OFF_NEXT_NODE_ID,
         vpool := (vpool vfs)\<lparr>list_head := rd8i payload SB_OFF_POOL_LIST_HEAD\<rparr>\<rparr>"

definition tree_superblock_read :: "vfs_t \<Rightarrow> vfs_error_t \<times> vfs_t" where
  "tree_superblock_read vfs =
     (let (payload, st, sb) = storage_read_with_status (vfs_sb vfs) SUPERBLOCK_PAGE;
          vfs = set_sb vfs sb
      in case payload of None \<Rightarrow> (VFS_ERR_IO, vfs) | Some b \<Rightarrow> (VFS_OK, superblock_decode vfs b))"

definition superblock_encode :: "vfs_t \<Rightarrow> bytes" where
  "superblock_encode vfs =
     (let buf = zero_bytes (page_size (vfs_sb vfs));
          buf = wr8i buf SB_OFF_ROOT_OFFSET (rootNodeOffset vfs);
          buf = wr8i buf SB_OFF_CURRENT_EPOCH (currentEpoch vfs);
          buf = wr8i buf SB_OFF_EPOCH_MAPPER_PTR (vfs_epochMapperPtr vfs);
          buf = wr8i buf SB_OFF_POOL_LIST_HEAD (list_head (vpool vfs));
          buf = wr8i buf SB_OFF_TREE_LOCK_STATE (treeLockState vfs)
      in wr4 buf SB_OFF_NEXT_NODE_ID (nextNodeId vfs))"

definition tree_superblock_write :: "vfs_t \<Rightarrow> (vfs_error_t \<times> vfs_t) option" where
  "tree_superblock_write vfs =
     (let (ok, vfs) = vfs_malloc vfs in
      if \<not> ok then Some (VFS_ERR_NOMEM, vfs)
      else do {
        sb \<leftarrow> storage_flush (storage_write (vfs_sb vfs) SUPERBLOCK_PAGE (superblock_encode vfs) 3) (-1);
        Some (VFS_OK, set_sb vfs sb)
      })"

text \<open>
  The end of \<^verbatim>\<open>tree_init\<close>: the mapper chain is read through once.
\<close>

partial_function (option) mapper_readable :: "int \<Rightarrow> Pool \<Rightarrow> (vfs_error_t \<times> Pool) option" where
  "mapper_readable mapper_vp pool =
     (if mapper_vp = 0 then Some (VFS_OK, pool)
      else
        let (slot, pool) = pool_acquire pool mapper_vp False in
        if ps_vptr slot = 0 then Some (VFS_ERR_IO, pool)
        else mapper_readable (me_nextPtr (nodes_read_mapperentry (ps_bytes slot))) pool)"

text \<open>
  \<^verbatim>\<open>segment_size\<close> from the header page, a default when that page is not allocated, an error when it is
  not readable; \<^verbatim>\<open>tree_init\<close> and \<^verbatim>\<open>tree_bootstrap_superblock\<close> share these lines.
\<close>

definition read_segment_size :: "vfs_t \<Rightarrow> vfs_error_t \<times> vfs_t" where
  "read_segment_size vfs =
     (let (hdr, sb_st, sb) = storage_read_with_status (vfs_sb vfs) 0;
          vfs = set_sb vfs sb
      in case hdr of
           Some b \<Rightarrow> (VFS_OK, vfs\<lparr>vfs_segment_size := rd4 b HDR_OFF_SEGMENT_SIZE\<rparr>)
         | None \<Rightarrow> if sb_st = STORAGE_NOT_FOUND then (VFS_OK, vfs\<lparr>vfs_segment_size := 1024\<rparr>) else (VFS_ERR_IO, vfs))"

definition tree_init :: "vfs_t \<Rightarrow> (vfs_error_t \<times> vfs_t) option" where
  "tree_init vfs =
     (let (err, vfs) = tree_superblock_read vfs in
      if err \<noteq> VFS_OK then Some (err, vfs)
      else if rootNodeOffset vfs = 0 then Some (VFS_ERR_IO, vfs)
      else
        let (root_slot, vfs) = vfs_acquire vfs (rootNodeOffset vfs) False in
        if ps_vptr root_slot = 0 then Some (VFS_ERR_IO, vfs)
        else if rd2 (ps_bytes root_slot) 0 \<noteq> NODE_TYPE_DIR then Some (VFS_ERR_IO, vfs)
        else
          let vfs = (if bit (word_of_int (treeLockState vfs) :: u64) 63 then vfs\<lparr>treeLockState := 0\<rparr> else vfs);
              (err, vfs) = read_segment_size vfs in
          if err \<noteq> VFS_OK then Some (err, vfs)
          else do {
            (err, pool) \<leftarrow> mapper_readable (vfs_epochMapperPtr vfs) (vpool vfs);
            Some (err, vfs\<lparr>vpool := pool\<rparr>)
          })"

definition tree_bootstrap_superblock :: "vfs_t \<Rightarrow> (vfs_error_t \<times> vfs_t) option" where
  "tree_bootstrap_superblock vfs =
     (let (err, vfs) = tree_superblock_read vfs in
      if err = VFS_OK \<and> rootNodeOffset vfs \<noteq> 0 then tree_init vfs
      else do {
        let vfs = vfs\<lparr>rootNodeOffset := 0, currentEpoch := 0, vfs_epochMapperPtr := 0, nextNodeId := 0, treeLockState := 0\<rparr>;
        (err, vfs) \<leftarrow> tree_superblock_write vfs;
        if err \<noteq> VFS_OK then Some (err, vfs)
        else
          let (err, vfs) = read_segment_size vfs in
          if err \<noteq> VFS_OK then Some (err, vfs)
          else do {
            (root_vp, vfs) \<leftarrow> vfs_alloc vfs;
            if root_vp = 0 then Some (VFS_ERR_FULL, vfs)
            else
              let (root_slot, vfs) = vfs_acquire vfs root_vp True in
              if ps_vptr root_slot = 0 then Some (VFS_ERR_IO, vfs)
              else do {
                (rootIndexVP, vfs) \<leftarrow> vfs_alloc vfs;
                if rootIndexVP = 0 then Some (VFS_ERR_FULL, vfs)
                else
                  let (rootIndexSlot, vfs) = vfs_acquire vfs rootIndexVP True in
                  if ps_vptr rootIndexSlot = 0 then Some (VFS_ERR_IO, vfs)
                  else
                    let rootIndexSlot = rootIndexSlot\<lparr>ps_bytes := nodes_write_dircontentindex (ps_bytes rootIndexSlot)
                          \<lparr>ix_nibble = 0, ix_nodeType = NODE_TYPE_INDEX_INTERNAL, ix_listVP = 0, ix_nextVP = 0\<rparr>\<rparr>;
                        root_slot = root_slot\<lparr>ps_bytes := nodes_write_dirnode (ps_bytes root_slot)
                          \<lparr>dn_nodeId = 0, dn_headPtr = 0, dn_indexHeadPtr = rootIndexVP, dn_createdAt = vfs_now vfs\<rparr>\<rparr>;
                        vfs = vfs_release (vfs_release vfs rootIndexSlot) root_slot
                    in tree_superblock_write (vfs\<lparr>rootNodeOffset := root_vp\<rparr>)
              }
          }
      })"

section \<open>Leaf chains\<close>

datatype WalkResult = WALK_FOUND | WALK_NOT_FOUND | WALK_NEED_GROW

definition effective_epoch :: "MapperTable \<Rightarrow> u32 \<Rightarrow> int" where
  "effective_epoch tbl stored =
     (if mapper_table_traversal_apply tbl (uint stored) then mapper_table_resolve tbl (uint stored) else uint stored)"

definition visible_at :: "MapperTable \<Rightarrow> int \<Rightarrow> u32 \<Rightarrow> bool" where
  "visible_at tbl read_epoch stored \<longleftrightarrow>
     (let eff = effective_epoch tbl stored in eff = read_epoch \<or> eff < read_epoch \<and> even eff)"

partial_function (option) chain_walk_from ::
  "MapperTable \<Rightarrow> int \<Rightarrow> int \<Rightarrow> Pool \<Rightarrow> (WalkResult \<times> PoolSlot \<times> Pool) option" where
  "chain_walk_from tbl read_epoch walk_vp pool =
     (if walk_vp = 0 then Some (WALK_NOT_FOUND, zero_slot, pool)
      else
        let (leaf_slot, pool) = pool_acquire pool walk_vp False in
        if ps_vptr leaf_slot = 0 then Some (WALK_NOT_FOUND, zero_slot, pool)
        else
          let stored_epoch = rd4 (ps_bytes leaf_slot) LEAF_OFF_EPOCH;
              next_vp = rd8i (ps_bytes leaf_slot) LEAF_OFF_NEXTPTR in
          if visible_at tbl read_epoch stored_epoch then Some (WALK_FOUND, leaf_slot, pool)
          else let (_, pool) = pool_release pool leaf_slot in chain_walk_from tbl read_epoch next_vp pool)"

definition vfs_chain_walk :: "vfs_t \<Rightarrow> int \<Rightarrow> int \<Rightarrow> (WalkResult \<times> PoolSlot \<times> vfs_t) option" where
  "vfs_chain_walk vfs chain_head read_epoch =
     (if chain_head = 0 then Some (WALK_NEED_GROW, zero_slot, vfs)
      else do {
        (r, leaf, pool) \<leftarrow> chain_walk_from (mapper_table vfs) read_epoch chain_head (vpool vfs);
        Some (r, leaf, vfs\<lparr>vpool := pool\<rparr>)
      })"

definition verchain_get :: "vfs_t \<Rightarrow> int \<Rightarrow> int \<Rightarrow> (int \<times> vfs_t) option" where
  "verchain_get vfs versionRootPtr read_epoch =
     (if versionRootPtr = 0 then Some (-1, vfs)
      else do {
        (r, vp_slot, vfs) \<leftarrow> vfs_chain_walk vfs versionRootPtr read_epoch;
        Some (if r \<noteq> WALK_FOUND then -1 else rd8i (ps_bytes vp_slot) 8, vfs)
      })"

text \<open>
  The results are the file size and the modification time.
\<close>

definition sizechain_get :: "vfs_t \<Rightarrow> int \<Rightarrow> int \<Rightarrow> (int \<times> int \<times> vfs_t) option" where
  "sizechain_get vfs sizePtr read_epoch =
     (if sizePtr = 0 then Some (0, 0, vfs)
      else do {
        (r, fs_slot, vfs) \<leftarrow> vfs_chain_walk vfs sizePtr read_epoch;
        Some (if r \<noteq> WALK_FOUND then (0, 0, vfs)
              else (rd8i (ps_bytes fs_slot) 16, rd8i (ps_bytes fs_slot) 8, vfs))
      })"

section \<open>Anchor chains\<close>

text \<open>
  A callback gets the pointer and a copy of the bytes of the node and the state of its walk, and tells
  whether to stop.
\<close>

type_synonym 'u walk_cb = "int \<Rightarrow> bytes \<Rightarrow> 'u \<Rightarrow> Pool \<Rightarrow> (bool \<times> 'u \<times> Pool) option"

partial_function (option) walk_anchor_from :: "'u walk_cb \<Rightarrow> int \<Rightarrow> int \<Rightarrow> 'u \<Rightarrow> Pool \<Rightarrow> (int \<times> 'u \<times> Pool) option" where
  "walk_anchor_from cb walk_vp visited user pool =
     (if walk_vp = 0 then Some (visited, user, pool)
      else
        let (anchor_slot, pool) = pool_acquire pool walk_vp False in
        if ps_vptr anchor_slot = 0 then Some (visited, user, pool)
        else do {
          (stop, user, pool) \<leftarrow> cb walk_vp (ps_bytes anchor_slot) user pool;
          let (_, pool) = pool_release pool anchor_slot;
          if stop then Some (visited + 1, user, pool)
          else walk_anchor_from cb (rd8i (ps_bytes anchor_slot) ANCHOR_OFF_SIBPTR) (visited + 1) user pool
        })"

definition walk_anchor_chain :: "Pool \<Rightarrow> int \<Rightarrow> 'u walk_cb \<Rightarrow> 'u \<Rightarrow> (int \<times> 'u \<times> Pool) option" where
  "walk_anchor_chain pool head_vp cb user = walk_anchor_from cb head_vp 0 user pool"

definition walk_content_unit_chain :: "Pool \<Rightarrow> int \<Rightarrow> 'u walk_cb \<Rightarrow> 'u \<Rightarrow> (int \<times> 'u \<times> Pool) option" where
  "walk_content_unit_chain pool unit_head cb user = walk_anchor_chain pool unit_head cb user"

text \<open>
  The state of the search for a unit: the head of its leaf chain once the unit is found.
\<close>

definition find_unit_inner_cb :: "u32 \<Rightarrow> int option walk_cb" where
  "find_unit_inner_cb target unit_vp unit_bytes st pool =
     (if rd4 unit_bytes 4 = target then Some (True, Some (rd8i unit_bytes ANCHOR_OFF_HEADPTR), pool)
      else Some (False, st, pool))"

definition find_unit_outer_cb :: "u32 \<Rightarrow> int option walk_cb" where
  "find_unit_outer_cb target anchor_vp anchor_bytes st pool =
     (let unit_head = rd8i anchor_bytes ANCHOR_OFF_HEADPTR in
      if unit_head = 0 then Some (False, st, pool)
      else do {
        (_, st, pool) \<leftarrow> walk_content_unit_chain pool unit_head (find_unit_inner_cb target) st;
        Some (st \<noteq> None, st, pool)
      })"

definition vfs_chain_walk_extended :: "vfs_t \<Rightarrow> int \<Rightarrow> u32 \<Rightarrow> int \<Rightarrow> (WalkResult \<times> PoolSlot \<times> vfs_t) option" where
  "vfs_chain_walk_extended vfs root_vp unit_id query_epoch =
     (if root_vp = 0 then Some (WALK_NOT_FOUND, zero_slot, vfs)
      else
        let (root_slot, vfs) = vfs_acquire vfs root_vp False in
        if ps_vptr root_slot = 0 then Some (WALK_NOT_FOUND, zero_slot, vfs)
        else
          let root_type = rd2 (ps_bytes root_slot) 0;
              anchor_head = rd8i (ps_bytes root_slot) ANCHOR_OFF_HEADPTR;
              vfs = vfs_release vfs root_slot in
          if root_type \<noteq> NODE_TYPE_FILE \<and> root_type \<noteq> NODE_TYPE_DIR then Some (WALK_NOT_FOUND, zero_slot, vfs)
          else if anchor_head = 0 then Some (WALK_NOT_FOUND, zero_slot, vfs)
          else do {
            (_, st, pool) \<leftarrow> walk_anchor_chain (vpool vfs) anchor_head (find_unit_outer_cb unit_id) None;
            let vfs = vfs\<lparr>vpool := pool\<rparr>;
            (case st of
               None \<Rightarrow> Some (WALK_NEED_GROW, zero_slot, vfs)
             | Some head \<Rightarrow> if head = 0 then Some (WALK_NOT_FOUND, zero_slot, vfs) else vfs_chain_walk vfs head query_epoch)
          })"

section \<open>Accesses of the tree context\<close>

lemma vfs_eta [simp]: "vfs\<lparr>vpool := vpool vfs\<rparr> = vfs" "set_sb vfs (vfs_sb vfs) = vfs"
  by simp_all

lemma vfs_acquire_law:
  assumes "heap_rep (vpool vfs) S P" "S v = Some b"
  obtains pool' where "vfs_acquire vfs v pin = (\<lparr>ps_vptr = v, pinnedPage = pin, ps_bytes = b\<rparr>, vfs\<lparr>vpool := pool'\<rparr>)"
    "heap_rep pool' S P" "store_room (pool_sb pool') = store_room (vfs_sb vfs)" "page_size (pool_sb pool') = page_size (vfs_sb vfs)"
    "v \<noteq> 0" "length b = 32"
  using nh.acq_law [OF assms, of pin] nh.slot_shape [OF assms] that by (auto simp: vfs_acquire_def)

lemma vfs_release_law:
  assumes "heap_rep (vpool vfs) S P" "v \<in> dom S" "length b = 32"
  obtains pool' where "vfs_release vfs \<lparr>ps_vptr = v, pinnedPage = True, ps_bytes = b\<rparr> = vfs\<lparr>vpool := pool'\<rparr>"
    "heap_rep pool' (S(v \<mapsto> b)) P" "store_room (pool_sb pool') = store_room (vfs_sb vfs)" "page_size (pool_sb pool') = page_size (vfs_sb vfs)"
  using nh.rel_law [OF assms] that by (auto simp: vfs_release_def)

lemma vfs_release_unpinned [simp]: "vfs_release vfs \<lparr>ps_vptr = v, pinnedPage = False, ps_bytes = b\<rparr> = vfs"
  by (simp add: vfs_release_def nh.rel_unpinned)

lemma vfs_new_law:
  assumes "heap_rep (vpool vfs) S P" "store_room (vfs_sb vfs) (Suc k)"
  obtains v b pool1 pool2 where "vfs_alloc vfs = Some (v, vfs\<lparr>vpool := pool1\<rparr>)" "v \<notin> dom S" "v \<noteq> 0"
    "vfs_acquire (vfs\<lparr>vpool := pool1\<rparr>) v True = (\<lparr>ps_vptr = v, pinnedPage = True, ps_bytes = b\<rparr>, vfs\<lparr>vpool := pool2\<rparr>)"
    "length b = 32" "0 < v" "v < 2 ^ 63" "heap_rep pool2 (S(v \<mapsto> b)) P" "store_room (pool_sb pool2) k"
    "page_size (pool_sb pool2) = page_size (vfs_sb vfs)"
  using nh.new_law [OF assms] that by (fastforce simp: vfs_alloc_def vfs_acquire_def)

lemma heap_malloc: "heap_rep pool S P \<Longrightarrow> malloc (pool_sb pool) = (True, pool_sb pool)"
  by (simp add: heap_rep_def pool_ok_def store_ok_def store_inv_def healthy_def malloc_def)

lemma vfs_malloc_law: "heap_rep (vpool vfs) S P \<Longrightarrow> vfs_malloc vfs = (True, vfs)"
  by (simp add: vfs_malloc_def heap_malloc)

lemma pool_malloc_law: "heap_rep pool S P \<Longrightarrow> pool_malloc pool = (True, pool)"
  by (simp add: pool_malloc_def heap_malloc)

text \<open>
  Taking and releasing a lock nobody holds leaves the table as it was.
\<close>

definition lock_taken :: "LockTable \<Rightarrow> int \<Rightarrow> int \<Rightarrow> LockTable" where
  "lock_taken t key epoch = t(lock_hash key :=
     (if epoch = 0
      then \<lparr>nodeId = key, global_owner = self_thread, global_depth = 1, global_held = True, global_pending = False,
            epoch_holders = [], total_epoch_holders = 0, refcount = 1\<rparr>
      else \<lparr>nodeId = key, global_owner = 0, global_depth = 0, global_held = False, global_pending = False,
            epoch_holders = [(epoch, 1)], total_epoch_holders = 1, refcount = 1\<rparr>) # t (lock_hash key))"

lemma lock_taken_lookup:
  "filelock_lookup (lock_taken t key epoch) k = (if k = key then filelock_lookup (lock_taken t key epoch) key else filelock_lookup t k)"
  by (simp add: lock_taken_def filelock_lookup_def)

lemma filter_absent: "filelock_lookup t key = None \<Longrightarrow> filter (\<lambda>x. nodeId x \<noteq> key) (t (lock_hash key)) = t (lock_hash key)"
  by (auto simp: filelock_lookup_def find_None_iff filter_id_conv)

lemma put_absent:
  assumes "filelock_lookup t key = None" "nodeId e = key" "nodeId e0 = key"
  shows "filelock_put (t(lock_hash key := e0 # t (lock_hash key))) e = t(lock_hash key := e # t (lock_hash key))"
proof -
  have "map (\<lambda>x. if nodeId x = key then e else x) (t (lock_hash key)) = t (lock_hash key)"
    by (rule map_idI) (use assms(1) in \<open>auto simp: filelock_lookup_def find_None_iff\<close>)
  then show ?thesis using assms by (simp add: filelock_put_def)
qed

lemma vfs_lock_law:
  assumes rep: "heap_rep (vpool vfs) S P" and free: "filelock_lookup (lock_table vfs) key = None"
  shows "vfs_lock vfs key epoch = Some (VFS_OK, vfs\<lparr>lock_table := lock_taken (lock_table vfs) key epoch\<rparr>)"
  using free unfolding vfs_lock_def vfs_malloc_law [OF rep]
  by (simp add: filelock_find_or_create_def) (simp add: filelock_lookup_def lock_defs per_epoch_has_holders_def
      put_absent [unfolded filelock_lookup_def] lock_taken_def)

lemma vfs_unlock_law:
  assumes free: "filelock_lookup t key = None" and held: "lock_table vfs = lock_taken t key epoch"
  shows "vfs_unlock vfs key epoch = (VFS_OK, vfs\<lparr>lock_table := t\<rparr>)"
proof -
  have "unlock_table self_thread key epoch (lock_taken t key epoch) = (VFS_OK, t, True)"
    using filter_absent [OF free]
    by (simp add: unlock_table_def lock_taken_def filelock_lookup_def filelock_release_def per_epoch_remove_def
        per_epoch_has_holders_def fun_upd_idem_iff)
  then show ?thesis by (simp add: vfs_unlock_def held)
qed

section \<open>Walks over chains of the heap\<close>

text \<open>
  The nodes from \<open>v\<close> on, linked at offset \<open>off\<close>, with their addresses.
\<close>

primrec chain_at :: "(int \<rightharpoonup> bytes) \<Rightarrow> nat \<Rightarrow> int \<Rightarrow> (int \<times> bytes) list \<Rightarrow> bool" where
  "chain_at S off v [] \<longleftrightarrow> v = 0"
| "chain_at S off v (x # xs) \<longleftrightarrow> v = fst x \<and> S v = Some (snd x) \<and> chain_at S off (rd8i (snd x) off) xs"

lemma chain_at_cong: "chain_at S off v xs \<Longrightarrow> (\<And>a. a \<in> fst ` set xs \<Longrightarrow> S' a = S a) \<Longrightarrow> chain_at S' off v xs"
  by (induction xs arbitrary: v) auto

lemma chain_at_zero: "heap_rep pool S P \<Longrightarrow> chain_at S off v xs \<Longrightarrow> v = 0 \<longleftrightarrow> xs = []"
  using nh.slot_nonzero [of pool S P] by (cases xs) auto

definition same_store :: "Pool \<Rightarrow> Pool \<Rightarrow> bool" where
  "same_store pool pool' \<longleftrightarrow> store_room (pool_sb pool') = store_room (pool_sb pool)
     \<and> page_size (pool_sb pool') = page_size (pool_sb pool)"

lemma same_store_refl [simp]: "same_store pool pool"
  by (simp add: same_store_def)

lemma same_store_trans [trans]: "same_store a b \<Longrightarrow> same_store b c \<Longrightarrow> same_store a c"
  by (simp add: same_store_def)

lemma heap_peek:
  assumes "heap_rep pool S P" "S v = Some b"
  obtains pool' where "pool_acquire pool v False = (\<lparr>ps_vptr = v, pinnedPage = False, ps_bytes = b\<rparr>, pool')"
    "\<And>slot. pinnedPage slot = False \<Longrightarrow> pool_release pool' slot = (slot, pool')"
    "heap_rep pool' S P" "same_store pool pool'" "v \<noteq> 0" "length b = 32"
  using nh.peek_law [OF assms] nh.slot_shape [OF assms] that by (auto simp: same_store_def pool_release_def)

lemma chain_walk_law:
  assumes "heap_rep pool S P" "chain_at S LEAF_OFF_NEXTPTR v xs"
  shows "\<exists>leaf pool'. chain_walk_from tbl R v pool =
      Some (case find (\<lambda>x. visible_at tbl R (rd4 (snd x) LEAF_OFF_EPOCH)) xs of None \<Rightarrow> WALK_NOT_FOUND | Some _ \<Rightarrow> WALK_FOUND, leaf, pool')
    \<and> heap_rep pool' S P \<and> same_store pool pool'
    \<and> (\<forall>x. find (\<lambda>x. visible_at tbl R (rd4 (snd x) LEAF_OFF_EPOCH)) xs = Some x \<longrightarrow> ps_bytes leaf = snd x \<and> ps_vptr leaf = fst x)"
  using assms
proof (induction xs arbitrary: v pool)
  case Nil
  then show ?case by (subst chain_walk_from.simps) simp
next
  case (Cons x xs)
  from Cons.prems(2) have x: "v = fst x" "S v = Some (snd x)" "chain_at S LEAF_OFF_NEXTPTR (rd8i (snd x) LEAF_OFF_NEXTPTR) xs"
    unfolding chain_at.simps by blast+
  obtain pool1 where p: "pool_acquire pool v False = (\<lparr>ps_vptr = v, pinnedPage = False, ps_bytes = snd x\<rparr>, pool1)"
    "\<And>slot. pinnedPage slot = False \<Longrightarrow> pool_release pool1 slot = (slot, pool1)" "heap_rep pool1 S P" "same_store pool pool1" "v \<noteq> 0"
    using heap_peek [OF Cons.prems(1) x(2)] by metis
  show ?case
  proof (cases "visible_at tbl R (rd4 (snd x) LEAF_OFF_EPOCH)")
    case True
    then show ?thesis using p x(1) by (subst chain_walk_from.simps) simp
  next
    case False
    from Cons.IH [OF p(3) x(3)] obtain leaf pool' where
      w: "chain_walk_from tbl R (rd8i (snd x) LEAF_OFF_NEXTPTR) pool1 =
          Some (case find (\<lambda>x. visible_at tbl R (rd4 (snd x) LEAF_OFF_EPOCH)) xs of None \<Rightarrow> WALK_NOT_FOUND | Some _ \<Rightarrow> WALK_FOUND, leaf, pool')"
        "heap_rep pool' S P" "same_store pool1 pool'"
        "\<forall>x. find (\<lambda>x. visible_at tbl R (rd4 (snd x) LEAF_OFF_EPOCH)) xs = Some x \<longrightarrow> ps_bytes leaf = snd x \<and> ps_vptr leaf = fst x" by blast
    have "chain_walk_from tbl R v pool = chain_walk_from tbl R (rd8i (snd x) LEAF_OFF_NEXTPTR) pool1"
      using p False by (subst chain_walk_from.simps) simp
    with w False same_store_trans [OF p(4)] show ?thesis by (intro exI [of _ leaf] exI [of _ pool']) simp
  qed
qed

text \<open>
  A callback that does not touch the heap makes the walk a fold that may stop early.
\<close>

primrec walk_list :: "(int \<Rightarrow> bytes \<Rightarrow> 'u \<Rightarrow> bool \<times> 'u) \<Rightarrow> (int \<times> bytes) list \<Rightarrow> 'u \<Rightarrow> 'u" where
  "walk_list f [] u = u"
| "walk_list f (x # xs) u = (let (stop, u) = f (fst x) (snd x) u in if stop then u else walk_list f xs u)"

lemma walk_anchor_law:
  assumes "heap_rep pool S P" "chain_at S ANCHOR_OFF_SIBPTR v xs"
    and cb: "\<And>vp b u pool. cb vp b u pool = Some (fst (f vp b u), snd (f vp b u), pool)"
  shows "\<exists>n' pool'. walk_anchor_from cb v n u pool = Some (n', walk_list f xs u, pool') \<and> heap_rep pool' S P \<and> same_store pool pool'"
  using assms(1,2)
proof (induction xs arbitrary: v n u pool)
  case Nil
  then show ?case by (subst walk_anchor_from.simps) simp
next
  case (Cons x xs)
  from Cons.prems(2) have x: "v = fst x" "S v = Some (snd x)" "chain_at S ANCHOR_OFF_SIBPTR (rd8i (snd x) ANCHOR_OFF_SIBPTR) xs"
    unfolding chain_at.simps by blast+
  obtain pool1 where p: "pool_acquire pool v False = (\<lparr>ps_vptr = v, pinnedPage = False, ps_bytes = snd x\<rparr>, pool1)"
    "\<And>slot. pinnedPage slot = False \<Longrightarrow> pool_release pool1 slot = (slot, pool1)" "heap_rep pool1 S P" "same_store pool pool1" "v \<noteq> 0"
    using heap_peek [OF Cons.prems(1) x(2)] by metis
  obtain stop u' where f: "f (fst x) (snd x) u = (stop, u')" by (metis prod.exhaust)
  show ?case
  proof (cases stop)
    case True
    then show ?thesis using p x(1) f by (subst walk_anchor_from.simps) (simp add: cb)
  next
    case False
    from Cons.IH [OF p(3) x(3), of "n + 1" u'] obtain n' pool' where
      w: "walk_anchor_from cb (rd8i (snd x) ANCHOR_OFF_SIBPTR) (n + 1) u' pool1 = Some (n', walk_list f xs u', pool')"
        "heap_rep pool' S P" "same_store pool1 pool'" by blast
    have "walk_anchor_from cb v n u pool = walk_anchor_from cb (rd8i (snd x) ANCHOR_OFF_SIBPTR) (n + 1) u' pool1"
      using p x(1) f False by (subst walk_anchor_from.simps) (simp add: cb)
    with w f False same_store_trans [OF p(4)] show ?thesis by (intro exI [of _ n'] exI [of _ pool']) simp
  qed
qed

section \<open>Properties\<close>

lemma find_newest:
  assumes order: "sorted_wrt (\<lambda>x y. even (e x) \<longrightarrow> e y \<le> e x) xs" and vis: "\<And>x. vis x \<longleftrightarrow> e x = R \<or> e x < R \<and> even (e x)"
    and find: "find vis xs = Some x"
  shows "x \<in> set xs \<and> e x = Max {t \<in> e ` set xs. t = R \<or> t < R \<and> even (t :: int)}"
proof -
  from find obtain i where i: "i < length xs" "x = xs ! i" "vis x" "\<And>j. j < i \<Longrightarrow> \<not> vis (xs ! j)" by (auto simp: find_Some_iff)
  have mem: "e x \<in> {t \<in> e ` set xs. t = R \<or> t < R \<and> even t}" using i vis by auto
  have top: "t \<le> e x" if "t \<in> {t \<in> e ` set xs. t = R \<or> t < R \<and> even t}" for t
  proof -
    from that obtain j where j: "j < length xs" "t = e (xs ! j)" "vis (xs ! j)" by (auto simp: in_set_conv_nth vis)
    then have "i \<le> j" using i(4) [of j] by (cases "j < i") auto
    then consider "j = i" | "i < j" by linarith
    then show ?thesis
    proof cases
      case 2
      with order i j have "even (e x) \<longrightarrow> t \<le> e x" by (simp add: sorted_wrt_iff_nth_less)
      moreover have "t \<le> R" using that by auto
      ultimately show ?thesis using i(3) by (auto simp: vis)
    qed (use i j in simp)
  qed
  have "finite {t \<in> e ` set xs. t = R \<or> t < R \<and> even t}" by simp
  with mem top have "Max {t \<in> e ` set xs. t = R \<or> t < R \<and> even t} = e x" by (intro Max_eqI) auto
  then show ?thesis using i by simp
qed


definition demo_vfs :: "Pool \<Rightarrow> vfs_t" where
  "demo_vfs pool = \<lparr>vpool = pool, rootNodeOffset = 0, currentEpoch = 2, vfs_epochMapperPtr = 0, nextNodeId = 0,
     treeLockState = 0, gc_generation = 0, vfs_segment_size = 1024, mapper_table = \<lparr>mt_entries = Some [], mt_capacity = 8\<rparr>,
     last_error = VFS_OK,
     chain_walk_tcache = replicate 16 \<lparr>tc_key = 0, tc_arr = \<lparr>vptr_array = None, seg_size = 0, built = False\<rparr>, populated = False, tc_gen = 0\<rparr>,
     chain_walk_tcache_next = 0, lock_table = lock_table_create, vfs_now = 7\<rparr>"

lemma demo_vfs_sel [simp]:
  "vpool (demo_vfs pool) = pool" "mapper_table (demo_vfs pool) = \<lparr>mt_entries = Some [], mt_capacity = 8\<rparr>"
  "currentEpoch (demo_vfs pool) = 2" "lock_table (demo_vfs pool) = lock_table_create" "vfs_now (demo_vfs pool) = 7"
  "vfs_segment_size (demo_vfs pool) = 1024" "gc_generation (demo_vfs pool) = 0"
  by (simp_all add: demo_vfs_def)

lemma demo_heap: "heap_rep demo_pool Map.empty Map.empty"
  using demo_pool by (simp add: heap_rep_def)

text \<open>One more node of given content in a heap.\<close>

lemma heap_extend:
  assumes "heap_rep pool S P" "store_room (pool_sb pool) (Suc k)" "length b = 32"
  obtains v pool' where "heap_rep pool' (S(v \<mapsto> b)) P" "v \<notin> dom S" "v \<noteq> 0" "0 < v" "v < 2 ^ 63" "store_room (pool_sb pool') k"
    "page_size (pool_sb pool') = page_size (pool_sb pool)"
proof -
  from nh.alloc_law [OF assms(1,2)] obtain v c pool1 where a: "v \<notin> dom S" "heap_rep pool1 (S(v \<mapsto> c)) P" "store_room (pool_sb pool1) k"
    "page_size (pool_sb pool1) = page_size (pool_sb pool)" by blast
  from nh.rel_law [OF a(2), of v b] assms(3) obtain pool' where
    "heap_rep pool' (S(v \<mapsto> b)) P" "store_room (pool_sb pool') = store_room (pool_sb pool1)"
    "page_size (pool_sb pool') = page_size (pool_sb pool1)" by auto
  with a nh.slot_shape [OF a(2), of v c] show thesis by (intro that [of pool' v]) simp_all
qed




end
