(* ===== verification/Files.thy ===== *)
theory Files
  imports Tree
begin

text \<open>
  File contents (\<^verbatim>\<open>src/tree.c\<close>, \<^verbatim>\<open>src/page_array.c\<close>): the in-memory page arrays, the resolution of a page of a
  file to its node, and reading, writing and truncating files at an epoch.

  A file is a chain of segments, a segment a sorted chain of page nodes, a page node a chain of versions, one
  per epoch that wrote the page, each with a data page of its own; a second chain holds the file sizes per epoch.
\<close>

section \<open>Page arrays\<close>

partial_function (option) segment_array_fill :: "int \<Rightarrow> int list \<Rightarrow> Pool \<Rightarrow> (int list \<times> Pool) option" where
  "segment_array_fill vp arr pool =
     (if vp = 0 then Some (arr, pool)
      else
        let (slot, pool) = pool_acquire pool vp False in
        if ps_vptr slot = 0 then Some (arr, pool)
        else
          let pn = nodes_read_pagenode (ps_bytes slot);
              idx = unat (pn_page_index pn);
              arr = (if idx < length arr then arr[idx := vp] else arr);
              (_, pool) = pool_release pool slot
          in segment_array_fill (pn_nextPtr pn) arr pool)"

definition segment_array_build :: "Pool \<Rightarrow> int \<Rightarrow> nat \<Rightarrow> SegmentArray \<Rightarrow> (vfs_error_t \<times> SegmentArray \<times> Pool) option" where
  "segment_array_build pool root segsize arr =
     (let (ok, pool) = pool_malloc pool in
      if \<not> ok then Some (VFS_ERR_NOMEM, arr\<lparr>vptr_array := None\<rparr>, pool)
      else do {
        (xs, pool) \<leftarrow> segment_array_fill root (replicate segsize 0) pool;
        Some (VFS_OK, \<lparr>vptr_array = Some xs, seg_size = segsize, built = True\<rparr>, pool)
      })"

text \<open>
  None is the failed assertion on the page index.
\<close>

definition segment_array_resolve :: "Pool \<Rightarrow> SegmentArray \<Rightarrow> nat \<Rightarrow> (bool \<times> PoolSlot \<times> Pool) option" where
  "segment_array_resolve pool arr page_index =
     (if \<not> built arr then Some (False, zero_slot, pool)
      else do {
        xs \<leftarrow> vptr_array arr;
        if page_index < length xs then
          let vp = xs ! page_index in
          if vp = 0 then Some (False, zero_slot, pool)
          else let (out, pool) = pool_acquire pool vp False in Some (ps_vptr out \<noteq> 0, out, pool)
        else None
      })"

definition segment_array_destroy :: "SegmentArray \<Rightarrow> SegmentArray" where
  "segment_array_destroy arr = arr\<lparr>vptr_array := None, built := False\<rparr>"

section \<open>Helpers of the page resolution\<close>

definition link_fc_into_chain :: "vfs_t \<Rightarrow> int \<Rightarrow> PoolSlot \<Rightarrow> int \<Rightarrow> int \<Rightarrow> (bool \<times> PoolSlot \<times> vfs_t) option" where
  "link_fc_into_chain vfs epoch file_slot prev_fc_vp new_fc_vp =
     (if prev_fc_vp = 0
      then Some (True, file_slot\<lparr>ps_bytes := wr8i (ps_bytes file_slot) 8 new_fc_vp\<rparr>, vfs)
      else do {
        (err, vfs) \<leftarrow> vfs_lock vfs prev_fc_vp epoch;
        if err \<noteq> VFS_OK then Some (False, file_slot, vfs)
        else
          let (prev_slot, vfs) = vfs_acquire vfs prev_fc_vp True in
          if ps_vptr prev_slot = 0 then Some (False, file_slot, snd (vfs_unlock vfs prev_fc_vp epoch))
          else
            let prev_slot = prev_slot\<lparr>ps_bytes := wr8i (ps_bytes prev_slot) 16 new_fc_vp\<rparr>;
                vfs = vfs_release vfs prev_slot
            in Some (True, file_slot, snd (vfs_unlock vfs prev_fc_vp epoch))
      })"

definition allocate_filecontent :: "vfs_t \<Rightarrow> int \<Rightarrow> bool \<Rightarrow> (int \<times> PoolSlot \<times> vfs_t) option" where
  "allocate_filecontent vfs page_in_segment allocate_page = do {
     (new_fc_vp, vfs) \<leftarrow> vfs_alloc vfs;
     if new_fc_vp = 0 then Some (0, zero_slot, vfs)
     else
       let (fc_slot, vfs) = vfs_acquire vfs new_fc_vp True in
       if ps_vptr fc_slot = 0 then Some (0, fc_slot, vfs)
       else if \<not> allocate_page
       then Some (new_fc_vp, fc_slot\<lparr>ps_bytes := nodes_write_filecontent (ps_bytes fc_slot) \<lparr>fc_pageRootPtr = 0, fc_nextPtr = 0\<rparr>\<rparr>, vfs)
       else do {
         (new_pn_vp, vfs) \<leftarrow> vfs_alloc vfs;
         if new_pn_vp = 0 then Some (0, fc_slot\<lparr>ps_vptr := 0\<rparr>, vfs_release vfs fc_slot)
         else
           let (pn_slot, vfs) = vfs_acquire vfs new_pn_vp True in
           if ps_vptr pn_slot = 0 then Some (0, fc_slot\<lparr>ps_vptr := 0\<rparr>, vfs_release vfs fc_slot)
           else
             let pn_slot = pn_slot\<lparr>ps_bytes := nodes_write_pagenode (ps_bytes pn_slot)
                   \<lparr>pn_versionRootPtr = 0, pn_nextPtr = 0, pn_page_index = word_of_int page_in_segment\<rparr>\<rparr>;
                 vfs = vfs_release vfs pn_slot
             in Some (new_fc_vp, fc_slot\<lparr>ps_bytes := nodes_write_filecontent (ps_bytes fc_slot)
                  \<lparr>fc_pageRootPtr = new_pn_vp, fc_nextPtr = 0\<rparr>\<rparr>, vfs)
       }
   }"

definition link_pn_into_chain :: "vfs_t \<Rightarrow> int \<Rightarrow> PoolSlot \<Rightarrow> int \<Rightarrow> int \<Rightarrow> (bool \<times> PoolSlot \<times> vfs_t) option" where
  "link_pn_into_chain vfs epoch fc_slot prev_pn_vp new_pn_vp =
     (if prev_pn_vp = 0
      then Some (True, fc_slot\<lparr>ps_bytes := wr8i (ps_bytes fc_slot) 8 new_pn_vp\<rparr>, vfs)
      else do {
        (err, vfs) \<leftarrow> vfs_lock vfs prev_pn_vp epoch;
        if err \<noteq> VFS_OK then Some (False, fc_slot, vfs)
        else
          let (prev_slot, vfs) = vfs_acquire vfs prev_pn_vp True in
          if ps_vptr prev_slot = 0 then Some (False, fc_slot, snd (vfs_unlock vfs prev_pn_vp epoch))
          else
            let prev_slot = prev_slot\<lparr>ps_bytes := wr8i (ps_bytes prev_slot) 16 new_pn_vp\<rparr>;
                vfs = vfs_release vfs prev_slot
            in Some (True, fc_slot, snd (vfs_unlock vfs prev_pn_vp epoch))
      })"

record find_pageno_state =
  found_pn_vp :: int
  prev_pn_vp :: int
  found_higher :: bool
  found :: bool

definition find_pageno_cb :: "u32 \<Rightarrow> find_pageno_state walk_cb" where
  "find_pageno_cb target pn_vp unit_bytes st pool =
     (let pn_idx = rd4 unit_bytes 4 in
      if pn_idx = target then Some (True, st\<lparr>found_pn_vp := pn_vp, found := True\<rparr>, pool)
      else if pn_idx > target \<and> \<not> found_higher st then Some (True, st\<lparr>found_higher := True\<rparr>, pool)
      else Some (False, st\<lparr>prev_pn_vp := pn_vp\<rparr>, pool))"

text \<open>
  The second walk, for the first page node with a higher index.
\<close>

partial_function (option) find_higher_from :: "u32 \<Rightarrow> int \<Rightarrow> Pool \<Rightarrow> (int \<times> Pool) option" where
  "find_higher_from target walk_vp pool =
     (if walk_vp = 0 then Some (0, pool)
      else
        let (ws, pool) = pool_acquire pool walk_vp False in
        if ps_vptr ws = 0 then Some (0, pool)
        else
          let (_, pool) = pool_release pool ws in
          if rd4 (ps_bytes ws) 4 > target then Some (walk_vp, pool)
          else find_higher_from target (rd8i (ps_bytes ws) ANCHOR_OFF_SIBPTR) pool)"

section \<open>The array cache of a mounted file system\<close>

abbreviation CHAIN_WALK_TCACHE_SIZE :: nat where "CHAIN_WALK_TCACHE_SIZE \<equiv> 16"
abbreviation SPARSE_CACHE_THRESHOLD :: int where "SPARSE_CACHE_THRESHOLD \<equiv> 64"

definition tcache_key :: "int \<Rightarrow> int \<Rightarrow> int" where
  "tcache_key file_vp segment_idx =
     sint (push_bit 20 (word_of_int file_vp :: u64) OR (word_of_int segment_idx AND 0xFFFFF))"

definition tcache_slot :: "vfs_t \<Rightarrow> int \<Rightarrow> nat option" where
  "tcache_slot vfs key =
     find (\<lambda>ci. tc_key (chain_walk_tcache vfs ! ci) = key \<and> populated (chain_walk_tcache vfs ! ci)) [0..<CHAIN_WALK_TCACHE_SIZE]"

abbreviation tcache_update :: "vfs_t \<Rightarrow> nat \<Rightarrow> (TcacheEntry \<Rightarrow> TcacheEntry) \<Rightarrow> vfs_t" where
  "tcache_update vfs ci f \<equiv> vfs\<lparr>chain_walk_tcache := (chain_walk_tcache vfs)[ci := f (chain_walk_tcache vfs ! ci)]\<rparr>"

text \<open>
  The lookup before the walk: a hit, or the entry whose array has no pointer for this page.
\<close>

definition tcache_lookup :: "vfs_t \<Rightarrow> int \<Rightarrow> nat \<Rightarrow> (PoolSlot option \<times> nat option \<times> vfs_t) option" where
  "tcache_lookup vfs key page_in_segment =
     (case tcache_slot vfs key of
        None \<Rightarrow> Some (None, None, vfs)
      | Some ci \<Rightarrow>
          if tc_gen (chain_walk_tcache vfs ! ci) \<noteq> gc_generation vfs
          then Some (None, None, tcache_update vfs ci (\<lambda>e. e\<lparr>populated := False\<rparr>))
          else do {
            (ok, out, pool) \<leftarrow> segment_array_resolve (vpool vfs) (tc_arr (chain_walk_tcache vfs ! ci)) page_in_segment;
            let vfs = vfs\<lparr>vpool := pool\<rparr>;
            Some (if ok then (Some out, None, vfs) else (None, Some ci, vfs))
          })"

text \<open>
  The store into the array of the entry; None is the store through a null pointer.
\<close>

definition tcache_patch :: "vfs_t \<Rightarrow> nat option \<Rightarrow> nat \<Rightarrow> int \<Rightarrow> vfs_t option" where
  "tcache_patch vfs cache_slot page_in_segment pn_vp =
     (case cache_slot of None \<Rightarrow> Some vfs
      | Some ci \<Rightarrow>
          if \<not> populated (chain_walk_tcache vfs ! ci) \<or> pn_vp = 0 then Some vfs
          else do {
            xs \<leftarrow> vptr_array (tc_arr (chain_walk_tcache vfs ! ci));
            Some (tcache_update vfs ci (\<lambda>e. e\<lparr>tc_arr := (tc_arr e)\<lparr>vptr_array := Some (xs[page_in_segment := pn_vp])\<rparr>\<rparr>))
          })"

definition tcache_populate :: "vfs_t \<Rightarrow> PoolSlot \<Rightarrow> int \<Rightarrow> vfs_t option" where
  "tcache_populate vfs fc_slot key =
     (if rd4i (ps_bytes fc_slot) 24 < SPARSE_CACHE_THRESHOLD then Some vfs
      else do {
        let ci = nat (chain_walk_tcache_next vfs mod int CHAIN_WALK_TCACHE_SIZE);
        let vfs = (if built (tc_arr (chain_walk_tcache vfs ! ci))
                   then tcache_update vfs ci (\<lambda>e. e\<lparr>tc_arr := segment_array_destroy (tc_arr e)\<rparr>) else vfs);
        (rc, arr, pool) \<leftarrow> segment_array_build (vpool vfs) (rd8i (ps_bytes fc_slot) 8) (unat (vfs_segment_size vfs))
                           (tc_arr (chain_walk_tcache vfs ! ci));
        let vfs = tcache_update (vfs\<lparr>vpool := pool\<rparr>) ci (\<lambda>e. e\<lparr>tc_arr := arr\<rparr>);
        Some (if rc \<noteq> VFS_OK then vfs
              else (tcache_update vfs ci (\<lambda>e. e\<lparr>tc_key := key, populated := True, tc_gen := gc_generation vfs\<rparr>))
                     \<lparr>chain_walk_tcache_next := chain_walk_tcache_next vfs + 1\<rparr>)
      })"

section \<open>Page resolution\<close>

datatype SegmentWalk = SegFail | SegDone PoolSlot | SegFound PoolSlot PoolSlot

text \<open>
  The walk to the segment of a page, with the number of segments still ahead as its first argument; missing
  segments are created. \<open>SegFail\<close> and \<open>SegDone\<close> are the early returns, \<open>SegFound\<close> holds the pinned slots of
  the segment and of the file.
\<close>

primrec segment_walk ::
  "nat \<Rightarrow> int \<Rightarrow> bool \<Rightarrow> nat \<Rightarrow> nat option \<Rightarrow> int \<Rightarrow> int \<Rightarrow> PoolSlot \<Rightarrow> vfs_t \<Rightarrow> (SegmentWalk \<times> vfs_t) option" where
  "segment_walk 0 epoch is_write page_in_segment cache_slot fc_vp prev_fc_vp file_slot vfs =
     (if fc_vp = 0 then
        if \<not> is_write then Some (SegFail, vfs_release vfs file_slot)
        else do {
          (new_fc, fc_slot, vfs) \<leftarrow> allocate_filecontent vfs (int page_in_segment) True;
          if new_fc = 0 then Some (SegFail, vfs_release vfs file_slot)
          else do {
            (ok, file_slot, vfs) \<leftarrow> link_fc_into_chain vfs epoch file_slot prev_fc_vp new_fc;
            if \<not> ok then Some (SegFail, vfs_release (vfs_release vfs fc_slot) file_slot)
            else do {
              let cur = rd4 (ps_bytes fc_slot) 24;
              let fc_slot = fc_slot\<lparr>ps_bytes := wr4 (ps_bytes fc_slot) 24 (cur + 1)\<rparr>;
              let new_pn = rd8i (ps_bytes fc_slot) 8;
              let vfs = vfs_release vfs fc_slot;
              vfs \<leftarrow> tcache_patch vfs cache_slot page_in_segment new_pn;
              let (out, vfs) = vfs_acquire vfs new_pn is_write;
              Some (if ps_vptr out = 0 then SegFail else SegDone out, vfs_release vfs file_slot)
            }
          }
        }
      else
        let (fc_slot, vfs) = vfs_acquire vfs fc_vp True in
        if ps_vptr fc_slot = 0 then Some (SegFail, vfs_release vfs file_slot)
        else Some (SegFound fc_slot file_slot, vfs))"
| "segment_walk (Suc n) epoch is_write page_in_segment cache_slot fc_vp prev_fc_vp file_slot vfs =
     (if fc_vp = 0 then do {
        (new_fc, fc_slot, vfs) \<leftarrow> allocate_filecontent vfs (int page_in_segment) False;
        if new_fc = 0 then Some (SegFail, vfs_release vfs file_slot)
        else do {
          (ok, file_slot, vfs) \<leftarrow> link_fc_into_chain vfs epoch file_slot prev_fc_vp new_fc;
          if \<not> ok then Some (SegFail, vfs_release (vfs_release vfs fc_slot) file_slot)
          else segment_walk n epoch is_write page_in_segment cache_slot 0 new_fc file_slot (vfs_release vfs fc_slot)
        }
      }
      else
        let (fc_slot, vfs) = vfs_acquire vfs fc_vp True in
        if ps_vptr fc_slot = 0 then Some (SegFail, vfs_release vfs file_slot)
        else
          let next_fc = rd8i (ps_bytes fc_slot) 16;
              vfs = vfs_release vfs fc_slot
          in segment_walk n epoch is_write page_in_segment cache_slot next_fc fc_vp file_slot vfs)"

text \<open>
  The insertion of a missing page node; the result is None on an error, else its pointer, with the segment slot.
\<close>

definition insert_pagenode ::
  "vfs_t \<Rightarrow> int \<Rightarrow> nat \<Rightarrow> find_pageno_state \<Rightarrow> PoolSlot \<Rightarrow> (int option \<times> PoolSlot \<times> vfs_t) option" where
  "insert_pagenode vfs epoch page_in_segment st fc_slot = do {
     (new_pn_vp, vfs) \<leftarrow> vfs_alloc vfs;
     if new_pn_vp = 0 then Some (None, fc_slot, vfs)
     else
       let (new_pn_slot, vfs) = vfs_acquire vfs new_pn_vp True in
       if ps_vptr new_pn_slot = 0 then Some (None, fc_slot, vfs)
       else do {
         (next_pn, pool) \<leftarrow> (if found_higher st
            then find_higher_from (of_nat page_in_segment) (rd8i (ps_bytes fc_slot) 8) (vpool vfs) else Some (0, vpool vfs));
         let vfs = vfs\<lparr>vpool := pool\<rparr>;
         let new_pn_slot = new_pn_slot\<lparr>ps_bytes := nodes_write_pagenode (ps_bytes new_pn_slot)
               \<lparr>pn_versionRootPtr = 0, pn_nextPtr = next_pn, pn_page_index = of_nat page_in_segment\<rparr>\<rparr>;
         let vfs = vfs_release vfs new_pn_slot;
         (ok, fc_slot, vfs) \<leftarrow> link_pn_into_chain vfs epoch fc_slot (prev_pn_vp st) new_pn_vp;
         if \<not> ok then Some (None, fc_slot, vfs)
         else Some (Some new_pn_vp, fc_slot\<lparr>ps_bytes := wr4 (ps_bytes fc_slot) 24 (rd4 (ps_bytes fc_slot) 24 + 1)\<rparr>, vfs)
       }
   }"

text \<open>
  The second step of the resolution: the page node in the segment found. The first result is True for the return
  value 0.
\<close>

definition resolve_in_segment ::
  "vfs_t \<Rightarrow> int \<Rightarrow> int \<Rightarrow> bool \<Rightarrow> nat \<Rightarrow> nat option \<Rightarrow> PoolSlot \<Rightarrow> PoolSlot \<Rightarrow> (bool \<times> PoolSlot \<times> vfs_t) option" where
  "resolve_in_segment vfs cache_key epoch is_write page_in_segment cache_slot fc_slot file_slot = do {
     let fc_page_root = rd8i (ps_bytes fc_slot) 8;
     (_, st, pool) \<leftarrow> walk_content_unit_chain (vpool vfs) fc_page_root (find_pageno_cb (of_nat page_in_segment))
       \<lparr>found_pn_vp = 0, prev_pn_vp = 0, found_higher = False, found = False\<rparr>;
     let vfs = vfs\<lparr>vpool := pool\<rparr>;
     if \<not> found st \<and> \<not> is_write
     then Some (False, zero_slot, vfs_release (vfs_release vfs fc_slot) file_slot)
     else do {
       (result, fc_slot, vfs) \<leftarrow> (if found st then Some (Some (found_pn_vp st), fc_slot, vfs)
          else insert_pagenode vfs epoch page_in_segment st fc_slot);
       (case result of
          None \<Rightarrow> Some (False, zero_slot, vfs_release (vfs_release vfs fc_slot) file_slot)
        | Some result_pn_vp \<Rightarrow> do {
            vfs \<leftarrow> tcache_patch vfs cache_slot page_in_segment result_pn_vp;
            vfs \<leftarrow> tcache_populate vfs fc_slot cache_key;
            let vfs = vfs_release (vfs_release vfs fc_slot) file_slot;
            let (out, vfs) = vfs_acquire vfs result_pn_vp is_write;
            Some (ps_vptr out \<noteq> 0, out, vfs)
          })
     }
   }"

text \<open>
  A segment size of 0 is a division by zero.
\<close>

definition tree_resolve_page :: "vfs_t \<Rightarrow> int \<Rightarrow> int \<Rightarrow> int \<Rightarrow> bool \<Rightarrow> (bool \<times> PoolSlot \<times> vfs_t) option" where
  "tree_resolve_page vfs file_vp logical_page epoch is_write =
     (let segsize = uint (vfs_segment_size vfs) in
      if segsize = 0 then None
      else
        let segment_idx = logical_page div segsize;
            page_in_segment = nat (logical_page mod segsize);
            (file_slot, vfs) = vfs_acquire vfs file_vp True in
        if ps_vptr file_slot = 0 then Some (False, zero_slot, vfs)
        else do {
          let cache_key = tcache_key file_vp segment_idx;
          (hit, cache_slot, vfs) \<leftarrow> tcache_lookup vfs cache_key page_in_segment;
          (case hit of Some out \<Rightarrow> Some (True, out, vfs_release vfs file_slot)
           | None \<Rightarrow> do {
               (sw, vfs) \<leftarrow> segment_walk (nat segment_idx) epoch is_write page_in_segment cache_slot
                 (fn_headPtr (nodes_read_filenode (ps_bytes file_slot))) 0 file_slot vfs;
               (case sw of
                  SegFail \<Rightarrow> Some (False, zero_slot, vfs)
                | SegDone out \<Rightarrow> Some (True, out, vfs)
                | SegFound fc_slot file_slot \<Rightarrow>
                    resolve_in_segment vfs cache_key epoch is_write page_in_segment cache_slot fc_slot file_slot)
             })
        })"

section \<open>File sizes and times\<close>

definition vfs_epoch_is_writable :: "vfs_t \<Rightarrow> int \<Rightarrow> bool" where
  "vfs_epoch_is_writable vfs epoch =
     (let epoch = (if epoch = -1 then currentEpoch vfs else epoch) in
      if epoch = currentEpoch vfs then True
      else if 0 \<le> epoch \<and> odd epoch then mapper_table_resolve (mapper_table vfs) epoch = epoch
      else False)"

text \<open>
  The common part of \<^verbatim>\<open>vfs_file_size\<close> and \<^verbatim>\<open>vfs_file_mtime\<close>: the size and the modification time, or None for
  the return value -1.
\<close>

definition file_size_entry :: "vfs_t \<Rightarrow> int \<Rightarrow> int \<Rightarrow> ((int \<times> int) option \<times> vfs_t) option" where
  "file_size_entry vfs file epoch =
     (let (file_slot, vfs) = vfs_acquire vfs file False in
      if ps_vptr file_slot = 0 then Some (None, vfs\<lparr>last_error := VFS_ERR_NOTFOUND\<rparr>)
      else if rd2 (ps_bytes file_slot) 0 \<noteq> NODE_TYPE_FILE then Some (None, vfs\<lparr>last_error := VFS_ERR_IO\<rparr>)
      else do {
        (file_size, modified_at, vfs) \<leftarrow> sizechain_get vfs (rd8i (ps_bytes file_slot) 16)
          (mapper_table_resolve (mapper_table vfs) epoch);
        Some (Some (file_size, modified_at), vfs)
      })"

definition vfs_file_size :: "vfs_t \<Rightarrow> int \<Rightarrow> int \<Rightarrow> (int \<times> vfs_t) option" where
  "vfs_file_size vfs file epoch = do {
     (r, vfs) \<leftarrow> file_size_entry vfs file epoch;
     Some (case r of None \<Rightarrow> -1 | Some (file_size, _) \<Rightarrow> file_size, vfs)
   }"

definition vfs_file_mtime :: "vfs_t \<Rightarrow> int \<Rightarrow> int \<Rightarrow> (int \<times> vfs_t) option" where
  "vfs_file_mtime vfs file epoch = do {
     (r, vfs) \<leftarrow> file_size_entry vfs file epoch;
     Some (case r of None \<Rightarrow> -1 | Some (_, modified_at) \<Rightarrow> modified_at, vfs)
   }"

definition vfs_file_ctime :: "vfs_t \<Rightarrow> int \<Rightarrow> int \<times> vfs_t" where
  "vfs_file_ctime vfs file =
     (let (file_slot, vfs) = vfs_acquire vfs file False in
      if ps_vptr file_slot = 0 then (-1, vfs\<lparr>last_error := VFS_ERR_NOTFOUND\<rparr>)
      else if rd2 (ps_bytes file_slot) 0 \<noteq> NODE_TYPE_FILE then (-1, vfs\<lparr>last_error := VFS_ERR_IO\<rparr>)
      else (nodes_read_filenode_ctime (ps_bytes file_slot), vfs))"

text \<open>
  A new entry in front of the size chain of a file whose slot is held by the caller: the new slot of the file,
  or None when no slot could be had.
\<close>

definition push_filesize :: "vfs_t \<Rightarrow> PoolSlot \<Rightarrow> int \<Rightarrow> int \<Rightarrow> (PoolSlot option \<times> vfs_t) option" where
  "push_filesize vfs file_slot epoch new_size = do {
     let old_sizePtr = rd8i (ps_bytes file_slot) 16;
     (fs_vp, vfs) \<leftarrow> vfs_alloc vfs;
     if fs_vp = 0 then Some (None, vfs)
     else
       let (fs_slot, vfs) = vfs_acquire vfs fs_vp True in
       if ps_vptr fs_slot = 0 then Some (None, vfs)
       else
         let fs_slot = fs_slot\<lparr>ps_bytes := nodes_write_filesize (ps_bytes fs_slot)
               \<lparr>fs_epoch = word_of_int epoch, fs_modifiedAt = vfs_now vfs, fs_fileSize = new_size, fs_nextPtr = old_sizePtr\<rparr>\<rparr>;
             vfs = vfs_release vfs fs_slot
         in Some (Some (file_slot\<lparr>ps_bytes := wr8i (ps_bytes file_slot) 16 fs_vp\<rparr>), vfs)
   }"

section \<open>Writing\<close>

text \<open>
  The two searches of a version chain in \<^verbatim>\<open>vfs_write\<close>, which ignore the mapper: the data page of the first
  version whose epoch satisfies the condition.
\<close>

partial_function (option) version_search :: "(u32 \<Rightarrow> bool) \<Rightarrow> int \<Rightarrow> Pool \<Rightarrow> (int option \<times> Pool) option" where
  "version_search cond vp pool =
     (if vp = 0 then Some (None, pool)
      else
        let (vp_slot, pool) = pool_acquire pool vp False in
        if ps_vptr vp_slot = 0 then Some (None, pool)
        else
          let v = nodes_read_versionpage (ps_bytes vp_slot);
              (_, pool) = pool_release pool vp_slot in
          if cond (vp_epoch v) then Some (Some (vp_dataPage v), pool)
          else version_search cond (vp_nextPtr v) pool)"

text \<open>
  The content a first write of an epoch starts from: the page of the newest older even epoch, or zeros.
\<close>

definition cow_base :: "vfs_t \<Rightarrow> int option \<Rightarrow> bytes option \<times> vfs_t" where
  "cow_base vfs base_page =
     (case base_page of
        None \<Rightarrow> (Some (zero_bytes (page_size (vfs_sb vfs))), vfs)
      | Some d \<Rightarrow>
          if d < 0 then (Some (zero_bytes (page_size (vfs_sb vfs))), vfs)
          else
            let (base_buf, bstatus, pool) = data_read (vpool vfs) d;
                vfs = vfs\<lparr>vpool := pool\<rparr>
            in case base_buf of Some b \<Rightarrow> (Some b, vfs)
               | None \<Rightarrow> (if bstatus = STORAGE_NOT_FOUND then Some (zero_bytes (page_size (vfs_sb vfs))) else None, vfs))"

text \<open>
  One page of \<^verbatim>\<open>vfs_write\<close> on the resolved page node: None on success, else the error code the caller returns.
\<close>

definition write_version :: "vfs_t \<Rightarrow> PoolSlot \<Rightarrow> int \<Rightarrow> nat \<Rightarrow> bytes \<Rightarrow> (vfs_error_t option \<times> vfs_t) option" where
  "write_version vfs pn_slot epoch page_offset src = do {
     let version_root = rd8i (ps_bytes pn_slot) 8;
     (in_place, pool) \<leftarrow> version_search (\<lambda>e. e = word_of_int epoch) version_root (vpool vfs);
     let vfs = vfs\<lparr>vpool := pool\<rparr>;
     (case in_place of
        Some data_page \<Rightarrow>
          let (page_buf, _, pool) = data_read (vpool vfs) data_page;
              vfs = vfs\<lparr>vpool := pool\<rparr>
          in (case page_buf of
                None \<Rightarrow> Some (Some VFS_ERR_IO, vfs_release vfs pn_slot)
              | Some b \<Rightarrow> Some (None, vfs_release (vfs\<lparr>vpool := data_write (vpool vfs) data_page (blit b page_offset src)\<rparr>) pn_slot))
      | None \<Rightarrow> do {
          (base_page, pool) \<leftarrow> version_search (\<lambda>e. e < word_of_int epoch \<and> even (uint e)) version_root (vpool vfs);
          (new_dp, pool) \<leftarrow> data_alloc pool;
          let vfs = vfs\<lparr>vpool := pool\<rparr>;
          if new_dp < 0 then Some (Some VFS_ERR_NOMEM, vfs_release vfs pn_slot)
          else do {
            let (ok, vfs) = vfs_malloc vfs;
            if \<not> ok then Some (Some VFS_ERR_NOMEM, vfs_release vfs pn_slot)
            else do {
              let (base, vfs) = cow_base vfs base_page;
              (case base of
                 None \<Rightarrow> Some (Some VFS_ERR_IO, vfs_release vfs pn_slot)
               | Some b \<Rightarrow> do {
                   let vfs = vfs\<lparr>vpool := data_write (vpool vfs) new_dp (blit b page_offset src)\<rparr>;
                   (vp_new, vfs) \<leftarrow> vfs_alloc vfs;
                   if vp_new = 0 then Some (Some VFS_ERR_NOMEM, vfs_release vfs pn_slot)
                   else do {
                     let (vp_new_slot, vfs) = vfs_acquire vfs vp_new True;
                     if ps_vptr vp_new_slot = 0 then Some (Some VFS_ERR_NOMEM, vfs_release vfs pn_slot)
                     else do {
                       let vp_new_slot = vp_new_slot\<lparr>ps_bytes := nodes_write_versionpage (ps_bytes vp_new_slot)
                             \<lparr>vp_epoch = word_of_int epoch, vp_dataPage = new_dp, vp_nextPtr = version_root\<rparr>\<rparr>;
                       let vfs = vfs_release vfs vp_new_slot;
                       (err, vfs) \<leftarrow> vfs_lock vfs (ps_vptr pn_slot) epoch;
                       if err \<noteq> VFS_OK then Some (Some VFS_ERR_IO, vfs)
                       else
                         let vfs = snd (vfs_unlock vfs (ps_vptr pn_slot) epoch)
                         in Some (None, vfs_release vfs (pn_slot\<lparr>ps_bytes := wr8i (ps_bytes pn_slot) 8 vp_new\<rparr>))
                     }
                   }
                 })
            }
          }
        })
   }"

text \<open>
  The loop over the pages of a write, with the number of pages ahead. \<open>page_offset\<close> is the offset in the first page.
\<close>

primrec write_pages :: "nat \<Rightarrow> int \<Rightarrow> int \<Rightarrow> int \<Rightarrow> nat \<Rightarrow> bytes \<Rightarrow> vfs_t \<Rightarrow> (vfs_error_t option \<times> vfs_t) option" where
  "write_pages 0 file epoch p page_offset src vfs = Some (None, vfs)"
| "write_pages (Suc n) file epoch p page_offset src vfs = do {
     (ok, pn_slot, vfs) \<leftarrow> tree_resolve_page vfs file p epoch True;
     if \<not> ok then Some (Some VFS_ERR_IO, vfs)
     else do {
       let page_count = min (page_size (vfs_sb vfs) - page_offset) (length src);
       (err, vfs) \<leftarrow> write_version vfs pn_slot epoch page_offset (take page_count src);
       if err \<noteq> None then Some (err, vfs)
       else write_pages n file epoch (p + 1) 0 (drop page_count src) vfs
     }
   }"

definition write_fail :: "vfs_t \<Rightarrow> PoolSlot \<Rightarrow> int \<Rightarrow> int \<Rightarrow> vfs_error_t \<Rightarrow> (int \<times> vfs_t) option" where
  "write_fail vfs file_slot file epoch err =
     (let vfs = vfs_release vfs file_slot;
          vfs = snd (vfs_unlock vfs file epoch)
      in Some (-1, vfs\<lparr>last_error := err\<rparr>))"

text \<open>
  \<open>data\<close> holds the bytes to write; the returned count is cut to the 32 bits of a C int.
\<close>

definition vfs_write :: "vfs_t \<Rightarrow> int \<Rightarrow> bytes \<Rightarrow> int \<Rightarrow> int \<Rightarrow> int \<Rightarrow> (int \<times> vfs_t) option" where
  "vfs_write vfs file data offset count epoch =
     (if count \<le> 0 \<or> offset < 0 then Some (-1, vfs\<lparr>last_error := VFS_ERR_IO\<rparr>)
      else if \<not> vfs_epoch_is_writable vfs epoch then Some (-1, vfs\<lparr>last_error := VFS_ERR_EPOCH\<rparr>)
      else
        let (file_slot, vfs) = vfs_acquire vfs file True in
        if ps_vptr file_slot = 0 then Some (-1, vfs\<lparr>last_error := VFS_ERR_NOTFOUND\<rparr>)
        else if rd2 (ps_bytes file_slot) 0 \<noteq> NODE_TYPE_FILE
        then Some (-1, vfs_release (vfs\<lparr>last_error := VFS_ERR_IO\<rparr>) file_slot)
        else do {
          (err, vfs) \<leftarrow> vfs_lock vfs file epoch;
          if err \<noteq> VFS_OK then Some (-1, (vfs_release vfs file_slot)\<lparr>last_error := VFS_ERR_IO\<rparr>)
          else do {
            let ps = vfs_page_size vfs;
            let first_page = offset div ps;
            let last_page = (offset + count - 1) div ps;
            (old_size, vfs) \<leftarrow> vfs_file_size vfs file epoch;
            let new_size = max old_size (offset + count);
            (err, vfs) \<leftarrow> write_pages (nat (last_page - first_page + 1)) file epoch first_page (nat (offset mod ps))
              (take (nat count) data) vfs;
            (case err of
               Some err \<Rightarrow> write_fail vfs file_slot file epoch err
             | None \<Rightarrow> do {
                 let (file_slot, vfs) = vfs_acquire vfs file True;
                 (slot, vfs) \<leftarrow> (if new_size > old_size then push_filesize vfs file_slot epoch new_size
                                else Some (Some file_slot, vfs));
                 (case slot of
                    None \<Rightarrow> write_fail vfs file_slot file epoch VFS_ERR_NOMEM
                  | Some file_slot \<Rightarrow>
                      let vfs = vfs_release vfs file_slot;
                          vfs = snd (vfs_unlock vfs file epoch)
                      in Some (sint (word_of_int count :: u32), vfs))
               })
          }
        })"

section \<open>Reading\<close>

text \<open>
  One page of \<^verbatim>\<open>vfs_read\<close> on the resolved page node: the bytes of the page, or None on an I/O error.
\<close>

definition read_version :: "vfs_t \<Rightarrow> PoolSlot \<Rightarrow> int \<Rightarrow> nat \<Rightarrow> nat \<Rightarrow> (bytes option \<times> vfs_t) option" where
  "read_version vfs pn_slot read_epoch page_offset page_count = do {
     (data_page, vfs) \<leftarrow> verchain_get vfs (rd8i (ps_bytes pn_slot) 8) read_epoch;
     if data_page < 0 then Some (Some (zero_bytes page_count), vfs)
     else
       let (page_data, rstatus, pool) = data_read (vpool vfs) data_page;
           vfs = vfs\<lparr>vpool := pool\<rparr>
       in case page_data of
            Some b \<Rightarrow> Some (Some (chunk b page_offset page_count), vfs)
          | None \<Rightarrow>
              if rstatus = STORAGE_NOT_FOUND then Some (Some (zero_bytes page_count), vfs)
              else Some (None, (vfs_release vfs pn_slot)\<lparr>last_error := VFS_ERR_IO\<rparr>)
   }"

primrec read_pages :: "nat \<Rightarrow> int \<Rightarrow> int \<Rightarrow> int \<Rightarrow> nat \<Rightarrow> nat \<Rightarrow> vfs_t \<Rightarrow> (bytes option \<times> vfs_t) option" where
  "read_pages 0 file read_epoch p page_offset remaining vfs = Some (Some [], vfs)"
| "read_pages (Suc n) file read_epoch p page_offset remaining vfs = do {
     (ok, pn_slot, vfs) \<leftarrow> tree_resolve_page vfs file p read_epoch False;
     let page_count = min (page_size (vfs_sb vfs) - page_offset) remaining;
     (part, vfs) \<leftarrow> (if \<not> ok then Some (Some (zero_bytes page_count), vfs)
       else read_version vfs pn_slot read_epoch page_offset page_count);
     (case part of None \<Rightarrow> Some (None, vfs)
      | Some bs \<Rightarrow> do {
          (rest, vfs) \<leftarrow> read_pages n file read_epoch (p + 1) 0 (remaining - page_count) vfs;
          Some (map_option (\<lambda>rest. bs @ rest) rest, vfs)
        })
   }"

text \<open>
  The results are the returned count and the bytes stored into the buffer of the caller.
\<close>

definition vfs_read :: "vfs_t \<Rightarrow> int \<Rightarrow> int \<Rightarrow> int \<Rightarrow> int \<Rightarrow> (int \<times> bytes \<times> vfs_t) option" where
  "vfs_read vfs file offset count epoch =
     (if count \<le> 0 \<or> offset < 0 then Some (-1, [], vfs\<lparr>last_error := VFS_ERR_IO\<rparr>)
      else do {
        (file_size, vfs) \<leftarrow> vfs_file_size vfs file epoch;
        if offset \<ge> file_size then Some (0, [], vfs)
        else do {
          let count = (if offset + count > file_size then file_size - offset else count);
          let read_epoch = mapper_table_resolve (mapper_table vfs) epoch;
          let (file_slot, vfs) = vfs_acquire vfs file False;
          if ps_vptr file_slot = 0 then Some (-1, [], vfs\<lparr>last_error := VFS_ERR_NOTFOUND\<rparr>)
          else if rd2 (ps_bytes file_slot) 0 \<noteq> NODE_TYPE_FILE then Some (-1, [], vfs\<lparr>last_error := VFS_ERR_IO\<rparr>)
          else do {
            let ps = vfs_page_size vfs;
            let first_page = offset div ps;
            let last_page = (offset + count - 1) div ps;
            (r, vfs) \<leftarrow> read_pages (nat (last_page - first_page + 1)) file read_epoch first_page (nat (offset mod ps)) (nat count) vfs;
            Some (case r of None \<Rightarrow> (-1, [], vfs) | Some bs \<Rightarrow> (sint (word_of_int (int (length bs)) :: u32), bs, vfs))
          }
        }
      })"

section \<open>Truncation\<close>

partial_function (option) truncate_grow :: "int \<Rightarrow> int \<Rightarrow> int \<Rightarrow> int \<Rightarrow> vfs_t \<Rightarrow> (int option \<times> vfs_t) option" where
  "truncate_grow file epoch wr_off remaining vfs =
     (if remaining \<le> 0 then Some (None, vfs)
      else do {
        let chunk = min remaining 8192;
        (r, vfs) \<leftarrow> vfs_write vfs file (zero_bytes 8192) wr_off chunk epoch;
        if r < 0 then Some (Some r, vfs)
        else truncate_grow file epoch (wr_off + chunk) (remaining - chunk) vfs
      })"

text \<open>
  The result is 0 or a negative number: a result code of \<^verbatim>\<open>vfs_error_t\<close>, here \<open>Inl\<close>, or what \<^verbatim>\<open>vfs_write\<close> returned.
\<close>

definition vfs_truncate :: "vfs_t \<Rightarrow> int \<Rightarrow> int \<Rightarrow> int \<Rightarrow> ((vfs_error_t + int) \<times> vfs_t) option" where
  "vfs_truncate vfs file new_size epoch =
     (if new_size < 0 then Some (Inl VFS_ERR_IO, vfs)
      else if \<not> vfs_epoch_is_writable vfs epoch then Some (Inl VFS_ERR_EPOCH, vfs\<lparr>last_error := VFS_ERR_EPOCH\<rparr>)
      else do {
        (err, vfs) \<leftarrow> vfs_lock vfs file epoch;
        if err \<noteq> VFS_OK then Some (Inl VFS_ERR_IO, vfs\<lparr>last_error := VFS_ERR_IO\<rparr>)
        else
          let (file_slot, vfs) = vfs_acquire vfs file True in
          if ps_vptr file_slot = 0
          then Some (Inl VFS_ERR_NOTFOUND, (snd (vfs_unlock vfs file epoch))\<lparr>last_error := VFS_ERR_NOTFOUND\<rparr>)
          else if rd2 (ps_bytes file_slot) 0 \<noteq> NODE_TYPE_FILE
          then Some (Inl VFS_ERR_IO, vfs_release ((snd (vfs_unlock vfs file epoch))\<lparr>last_error := VFS_ERR_IO\<rparr>) file_slot)
          else do {
            (cur_size, vfs) \<leftarrow> vfs_file_size vfs file epoch;
            if new_size = cur_size then Some (Inl VFS_OK, snd (vfs_unlock (vfs_release vfs file_slot) file epoch))
            else if new_size < cur_size then do {
              (slot, vfs) \<leftarrow> push_filesize vfs file_slot epoch new_size;
              (case slot of
                 None \<Rightarrow> Some (Inl VFS_ERR_NOMEM,
                   vfs_release ((snd (vfs_unlock vfs file epoch))\<lparr>last_error := VFS_ERR_NOMEM\<rparr>) file_slot)
               | Some file_slot \<Rightarrow> do {
                   let vfs = vfs_release (vfs\<lparr>last_error := VFS_OK\<rparr>) file_slot;
                   let vfs = snd (vfs_unlock vfs file epoch);
                   (_, sb) \<leftarrow> bin_push (vfs_sb vfs) BIN_TRIGGER_NOOP file new_size;
                   Some (Inl VFS_OK, set_sb vfs sb)
                 })
            }
            else do {
              let vfs = snd (vfs_unlock (vfs_release vfs file_slot) file epoch);
              (r, vfs) \<leftarrow> truncate_grow file epoch cur_size (new_size - cur_size) vfs;
              (case r of Some r \<Rightarrow> Some (Inr r, vfs) | None \<Rightarrow> Some (Inl VFS_OK, vfs\<lparr>last_error := VFS_OK\<rparr>))
            }
          }
      })"

end
