(* ===== verification/FileLaws.thy ===== *)
theory FileLaws
  imports Files
begin

text \<open>
  Files as data: the representation of a file in the heap of slots, what the operations of \<^verbatim>\<open>Files\<close> do to it,
  and the properties of reading and writing that follow.
\<close>

section \<open>Linked nodes\<close>

text \<open>
  \<open>list_seg R off S h xs m\<close>: the nodes \<open>xs\<close>, whose first components are their addresses, are linked at offset \<open>off\<close>
  from \<open>h\<close> up to \<open>m\<close>, and \<open>R\<close> relates the bytes of each with its content.
\<close>

primrec list_seg :: "(bytes \<Rightarrow> int \<times> 'a \<Rightarrow> bool) \<Rightarrow> nat \<Rightarrow> (int \<rightharpoonup> bytes) \<Rightarrow> int \<Rightarrow> (int \<times> 'a) list \<Rightarrow> int \<Rightarrow> bool" where
  "list_seg R off S h [] m \<longleftrightarrow> h = m"
| "list_seg R off S h (x # xs) m \<longleftrightarrow> h = fst x \<and> (\<exists>b. S h = Some b \<and> R b x \<and> list_seg R off S (rd8i b off) xs m)"

lemma list_seg_append:
  "list_seg R off S h (xs @ ys) m \<longleftrightarrow> (\<exists>k. list_seg R off S h xs k \<and> list_seg R off S k ys m)"
  by (induction xs arbitrary: h) auto

lemma list_seg_cong:
  assumes "list_seg R off S h xs m" "\<And>a. a \<in> fst ` set xs \<Longrightarrow> S' a = S a" "\<And>b x. x \<in> set xs \<Longrightarrow> R b x \<Longrightarrow> R' b x"
  shows "list_seg R' off S' h xs m"
  using assms by (induction xs arbitrary: h) auto

lemma list_seg_mem: "list_seg R off S h xs m \<Longrightarrow> x \<in> set xs \<Longrightarrow> \<exists>b. S (fst x) = Some b \<and> R b x"
  by (induction xs arbitrary: h) auto

lemma list_seg_dom: "list_seg R off S h xs m \<Longrightarrow> fst ` set xs \<subseteq> dom S"
  using list_seg_mem by fastforce

lemma list_seg_chain:
  "list_seg R off S h xs 0 \<Longrightarrow> \<exists>bs. chain_at S off h (zip (map fst xs) bs) \<and> length bs = length xs \<and> list_all2 R bs xs"
proof (induction xs arbitrary: h)
  case (Cons x xs)
  then obtain b where b: "h = fst x" "S h = Some b" "R b x" "list_seg R off S (rd8i b off) xs 0" by auto
  from Cons.IH [OF b(4)] obtain bs where "chain_at S off (rd8i b off) (zip (map fst xs) bs)" "length bs = length xs" "list_all2 R bs xs"
    by blast
  with b show ?case by (intro exI [of _ "b # bs"]) simp
qed simp

text \<open>The link of the last node of a segment is redirected.\<close>

lemma list_seg_relink:
  assumes seg: "list_seg R off S h (xs @ [x]) m" and b: "S (fst x) = Some b" and new: "fst x \<notin> fst ` set xs"
    and R: "\<And>c y. y \<in> set xs \<Longrightarrow> R c y \<Longrightarrow> R' c y" "R b x \<Longrightarrow> R' b' x" and off: "rd8i b' off = m'"
    and S': "S' (fst x) = Some b'" "\<And>a. a \<in> fst ` set xs \<Longrightarrow> S' a = S a"
  shows "list_seg R' off S' h (xs @ [x]) m'"
proof -
  from seg obtain k where k: "list_seg R off S h xs k" "k = fst x" "R b x"
    using b by (auto simp: list_seg_append)
  have "list_seg R' off S' h xs k" by (rule list_seg_cong [OF k(1)]) (use S' R in auto)
  with k off S' R(2) show ?thesis by (auto simp: list_seg_append)
qed

section \<open>Files\<close>

text \<open>
  A version is the slot of its node, its epoch and its data page; a unit the slot of its page node, its index
  in the segment and its versions; a segment its slot and its units; a size entry its slot, epoch, modification
  time and size.
\<close>

type_synonym file_version = "int \<times> u32 \<times> int"
type_synonym file_unit = "int \<times> u32 \<times> file_version list"
type_synonym file_segment = "int \<times> file_unit list"
type_synonym file_size = "int \<times> u32 \<times> int \<times> int"

definition version_node :: "bytes \<Rightarrow> file_version \<Rightarrow> bool" where
  "version_node b x \<longleftrightarrow> rd4 b 0 = fst (snd x) \<and> rd8i b 8 = snd (snd x)"

abbreviation versions_at :: "(int \<rightharpoonup> bytes) \<Rightarrow> int \<Rightarrow> file_version list \<Rightarrow> bool" where
  "versions_at S h vs \<equiv> list_seg version_node LEAF_OFF_NEXTPTR S h vs 0"

definition unit_node :: "(int \<rightharpoonup> bytes) \<Rightarrow> bytes \<Rightarrow> file_unit \<Rightarrow> bool" where
  "unit_node S b x \<longleftrightarrow> rd4 b 4 = fst (snd x) \<and> versions_at S (rd8i b 8) (snd (snd x))"

abbreviation units_seg :: "(int \<rightharpoonup> bytes) \<Rightarrow> int \<Rightarrow> file_unit list \<Rightarrow> int \<Rightarrow> bool" where
  "units_seg S \<equiv> list_seg (unit_node S) ANCHOR_OFF_SIBPTR S"

definition segment_node :: "(int \<rightharpoonup> bytes) \<Rightarrow> bytes \<Rightarrow> file_segment \<Rightarrow> bool" where
  "segment_node S b x \<longleftrightarrow> units_seg S (rd8i b 8) (snd x) 0 \<and> rd4 b 24 = of_nat (length (snd x))"

abbreviation segments_seg :: "(int \<rightharpoonup> bytes) \<Rightarrow> int \<Rightarrow> file_segment list \<Rightarrow> int \<Rightarrow> bool" where
  "segments_seg S \<equiv> list_seg (segment_node S) ANCHOR_OFF_SIBPTR S"

definition size_node :: "bytes \<Rightarrow> file_size \<Rightarrow> bool" where
  "size_node b x \<longleftrightarrow> rd4 b 0 = fst (snd x) \<and> rd8i b 8 = fst (snd (snd x)) \<and> rd8i b 16 = snd (snd (snd x))"

abbreviation sizes_at :: "(int \<rightharpoonup> bytes) \<Rightarrow> int \<Rightarrow> file_size list \<Rightarrow> bool" where
  "sizes_at S h zs \<equiv> list_seg size_node LEAF_OFF_NEXTPTR S h zs 0"

definition file_at :: "(int \<rightharpoonup> bytes) \<Rightarrow> int \<Rightarrow> file_size list \<Rightarrow> file_segment list \<Rightarrow> bool" where
  "file_at S f zs ss \<longleftrightarrow> (\<exists>b. S f = Some b \<and> rd2 b 0 = NODE_TYPE_FILE \<and> sizes_at S (rd8i b 16) zs \<and> segments_seg S (rd8i b 8) ss 0)"

definition unit_slots :: "file_unit \<Rightarrow> int list" where
  "unit_slots x = fst x # map fst (snd (snd x))"

definition segment_slots :: "file_segment \<Rightarrow> int list" where
  "segment_slots x = fst x # concat (map unit_slots (snd x))"

definition file_slots :: "int \<Rightarrow> file_size list \<Rightarrow> file_segment list \<Rightarrow> int list" where
  "file_slots f zs ss = f # map fst zs @ concat (map segment_slots ss)"

definition unit_pages :: "file_unit \<Rightarrow> int list" where
  "unit_pages x = map (\<lambda>v. snd (snd v)) (snd (snd x))"

definition file_pages :: "file_segment list \<Rightarrow> int list" where
  "file_pages ss = concat (map unit_pages (concat (map snd ss)))"

definition file_wf :: "nat \<Rightarrow> (int \<rightharpoonup> bytes) \<Rightarrow> (int \<rightharpoonup> bytes) \<Rightarrow> int \<Rightarrow> file_size list \<Rightarrow> file_segment list \<Rightarrow> bool" where
  "file_wf n S P f zs ss \<longleftrightarrow> file_at S f zs ss \<and> distinct (file_slots f zs ss) \<and> distinct (file_pages ss)
     \<and> set (file_pages ss) \<subseteq> dom P
     \<and> (\<forall>s\<in>set ss. sorted_wrt (<) (map (\<lambda>u. unat (fst (snd u))) (snd s)) \<and> (\<forall>u\<in>set (snd s). unat (fst (snd u)) < n))"

subsection \<open>Frames\<close>

lemma versions_at_cong:
  "versions_at S h vs \<Longrightarrow> (\<And>a. a \<in> fst ` set vs \<Longrightarrow> S' a = S a) \<Longrightarrow> versions_at S' h vs"
  by (rule list_seg_cong) auto

lemma unit_node_cong: "unit_node S b x \<Longrightarrow> (\<And>a. a \<in> fst ` set (snd (snd x)) \<Longrightarrow> S' a = S a) \<Longrightarrow> unit_node S' b x"
  unfolding unit_node_def by (auto intro: versions_at_cong)

lemma units_seg_cong:
  assumes "units_seg S h us m" "\<And>a. a \<in> set (concat (map unit_slots us)) \<Longrightarrow> S' a = S a"
  shows "units_seg S' h us m"
proof (rule list_seg_cong [OF assms(1)])
  show "S' a = S a" if "a \<in> fst ` set us" for a using that assms(2) by (auto simp: unit_slots_def)
  show "unit_node S' b x" if "x \<in> set us" "unit_node S b x" for b x
    using that assms(2) by (intro unit_node_cong [OF that(2)]) (auto simp: unit_slots_def)
qed

lemma segment_node_cong:
  "segment_node S b x \<Longrightarrow> (\<And>a. a \<in> set (concat (map unit_slots (snd x))) \<Longrightarrow> S' a = S a) \<Longrightarrow> segment_node S' b x"
  unfolding segment_node_def by (auto intro: units_seg_cong)

lemma segments_seg_cong:
  assumes "segments_seg S h ss m" "\<And>a. a \<in> set (concat (map segment_slots ss)) \<Longrightarrow> S' a = S a"
  shows "segments_seg S' h ss m"
proof (rule list_seg_cong [OF assms(1)])
  show "S' a = S a" if "a \<in> fst ` set ss" for a using that assms(2) by (auto simp: segment_slots_def)
  show "segment_node S' b x" if "x \<in> set ss" "segment_node S b x" for b x
    using that assms(2) by (intro segment_node_cong [OF that(2)]) (auto simp: segment_slots_def)
qed

lemma file_at_cong:
  assumes "file_at S f zs ss" "\<And>a. a \<in> set (file_slots f zs ss) \<Longrightarrow> S' a = S a"
  shows "file_at S' f zs ss"
proof -
  from assms(1) obtain b where b: "S f = Some b" "rd2 b 0 = NODE_TYPE_FILE" "sizes_at S (rd8i b 16) zs" "segments_seg S (rd8i b 8) ss 0"
    by (auto simp: file_at_def)
  have "sizes_at S' (rd8i b 16) zs"
    by (rule list_seg_cong [OF b(3)]) (use assms(2) in \<open>auto simp: file_slots_def\<close>)
  moreover have "segments_seg S' (rd8i b 8) ss 0"
    by (rule segments_seg_cong [OF b(4)]) (use assms(2) in \<open>auto simp: file_slots_def\<close>)
  moreover have "S' f = Some b" using assms(2) b(1) by (simp add: file_slots_def)
  ultimately show ?thesis using b by (auto simp: file_at_def)
qed

lemma file_wf_cong:
  assumes "file_wf n S P f zs ss" "\<And>a. a \<in> set (file_slots f zs ss) \<Longrightarrow> S' a = S a" "set (file_pages ss) \<subseteq> dom P'"
  shows "file_wf n S' P' f zs ss"
  using assms file_at_cong [of S f zs ss S'] by (auto simp: file_wf_def)

lemma units_seg_slots:
  assumes seg: "units_seg S h us m"
  shows "set (concat (map unit_slots us)) \<subseteq> dom S"
proof
  fix a assume "a \<in> set (concat (map unit_slots us))"
  then obtain x where x: "x \<in> set us" "a \<in> set (unit_slots x)" by auto
  from list_seg_mem [OF seg x(1)] obtain b where b: "S (fst x) = Some b" "versions_at S (rd8i b 8) (snd (snd x))"
    unfolding unit_node_def by blast
  from list_seg_dom [OF b(2)] b(1) x(2) show "a \<in> dom S" unfolding unit_slots_def by auto
qed

lemma segments_seg_slots:
  assumes seg: "segments_seg S h ss m"
  shows "set (concat (map segment_slots ss)) \<subseteq> dom S"
proof
  fix a assume "a \<in> set (concat (map segment_slots ss))"
  then obtain x where x: "x \<in> set ss" "a \<in> set (segment_slots x)" by auto
  from list_seg_mem [OF seg x(1)] obtain b where b: "S (fst x) = Some b" "units_seg S (rd8i b 8) (snd x) 0"
    unfolding segment_node_def by blast
  from units_seg_slots [OF b(2)] b(1) x(2) show "a \<in> dom S" unfolding segment_slots_def by auto
qed

lemma file_at_slots:
  assumes "file_at S f zs ss"
  shows "set (file_slots f zs ss) \<subseteq> dom S"
proof -
  from assms obtain b where b: "S f = Some b" "sizes_at S (rd8i b 16) zs" "segments_seg S (rd8i b 8) ss 0" by (auto simp: file_at_def)
  from list_seg_dom [OF b(2)] segments_seg_slots [OF b(3)] b(1) show ?thesis unfolding file_slots_def by auto
qed

subsection \<open>Changes of linked nodes\<close>

lemma list_seg_replace:
  assumes seg: "list_seg R off S h (xs @ x # ys) m" and b: "S (fst x) = Some b" and x': "fst x' = fst x" "R b x \<Longrightarrow> R' b' x'"
    and S': "S' (fst x) = Some b'" "rd8i b' off = rd8i b off" "\<And>a. a \<in> fst ` set xs \<union> fst ` set ys \<Longrightarrow> S' a = S a"
    and R: "\<And>c y. y \<in> set xs \<union> set ys \<Longrightarrow> R c y \<Longrightarrow> R' c y"
  shows "list_seg R' off S' h (xs @ x' # ys) m"
proof -
  from seg b have k: "list_seg R off S h xs (fst x)" "R b x" "list_seg R off S (rd8i b off) ys m" by (auto simp: list_seg_append)
  have "list_seg R' off S' h xs (fst x)" by (rule list_seg_cong [OF k(1)]) (use S' R in auto)
  moreover have "list_seg R' off S' (rd8i b off) ys m" by (rule list_seg_cong [OF k(3)]) (use S' R in auto)
  ultimately show ?thesis using k(2) x' S' by (auto simp: list_seg_append)
qed

lemma list_seg_insert:
  assumes seg: "list_seg R off S h (xs @ ys) m" and new: "S' (fst n) = Some nb" "R' nb n" "rd8i nb off = (if ys = [] then m else fst (hd ys))"
    and dist: "distinct (map fst xs)"
    and first: "xs = [] \<Longrightarrow> h' = fst n"
    and link: "xs \<noteq> [] \<Longrightarrow> h' = h \<and> S (fst (last xs)) = Some b \<and> S' (fst (last xs)) = Some b' \<and> rd8i b' off = fst n
      \<and> (R b (last xs) \<longrightarrow> R' b' (last xs))"
    and S': "\<And>a. a \<in> fst ` set (butlast xs) \<union> fst ` set ys \<Longrightarrow> S' a = S a"
    and R: "\<And>c y. y \<in> set (butlast xs) \<union> set ys \<Longrightarrow> R c y \<Longrightarrow> R' c y"
  shows "list_seg R' off S' h' (xs @ n # ys) m"
proof -
  from seg obtain k where k: "list_seg R off S h xs k" "list_seg R off S k ys m" by (auto simp: list_seg_append)
  have "k = (if ys = [] then m else fst (hd ys))" using k(2) by (cases ys) auto
  moreover have "list_seg R' off S' k ys m" by (rule list_seg_cong [OF k(2)]) (use S' R in auto)
  ultimately have tail: "list_seg R' off S' (fst n) (n # ys) m" using new by simp
  show ?thesis
  proof (cases xs rule: rev_cases)
    case Nil
    with first tail show ?thesis by simp
  next
    case (snoc xs0 x)
    have "list_seg R' off S' h (xs0 @ [x]) (fst n)"
      by (rule list_seg_relink [OF k(1) [unfolded snoc], where b = b and b' = b']) (use snoc link S' R dist in auto)
    with snoc link tail show ?thesis by (auto simp: list_seg_append)
  qed
qed

lemma list_seg_head: "list_seg R off S h xs m \<Longrightarrow> h = (if xs = [] then m else fst (hd xs))"
  by (cases xs) auto

text \<open>Writes to one field of a 32-byte node leave the others.\<close>

lemma node_fields:
  assumes "length b = 32"
  shows "i64 v \<Longrightarrow> rd8i (wr8i b 8 v) 8 = v" "i64 v \<Longrightarrow> rd8i (wr8i b 16 v) 16 = v"
    "rd8i (wr8i b 8 v) 16 = rd8i b 16" "rd8i (wr8i b 16 v) 8 = rd8i b 8"
    "rd4 (wr8i b 8 v) 4 = rd4 b 4" "rd4 (wr8i b 16 v) 4 = rd4 b 4" "rd2 (wr8i b 8 v) 0 = rd2 b 0" "rd2 (wr8i b 16 v) 0 = rd2 b 0"
    "rd8i (wr4 b 24 w) 8 = rd8i b 8" "rd8i (wr4 b 24 w) 16 = rd8i b 16" "rd4 (wr4 b 24 w) 24 = w"
    "rd4 (wr8i b 8 v) 24 = rd4 b 24" "rd4 (wr8i b 16 v) 24 = rd4 b 24"
    "length (wr8i b 8 v) = 32" "length (wr8i b 16 v) = 32" "length (wr4 b 24 w) = 32"
  using assms by (simp_all add: buf_simps)

subsection \<open>Changes of a file\<close>

lemma file_slots_split:
  "file_slots f zs (ss1 @ s # ss2) = f # map fst zs @ concat (map segment_slots ss1) @ segment_slots s @ concat (map segment_slots ss2)"
  by (simp add: file_slots_def)

lemma segment_slots_mem:
  "s \<in> set ss \<Longrightarrow> fst s \<in> set (concat (map segment_slots ss))"
  "s \<in> set ss \<Longrightarrow> set (concat (map unit_slots (snd s))) \<subseteq> set (concat (map segment_slots ss))"
  by (induction ss) (auto simp: segment_slots_def)

lemma unit_slots_mem:
  "u \<in> set us \<Longrightarrow> fst u \<in> set (concat (map unit_slots us))"
  "u \<in> set us \<Longrightarrow> fst ` set (snd (snd u)) \<subseteq> set (concat (map unit_slots us))"
  by (induction us) (auto simp: unit_slots_def)

lemma segments_distinct: "distinct (concat (map segment_slots ss)) \<Longrightarrow> distinct (map fst ss)"
proof (induction ss)
  case (Cons s ss)
  have "fst s \<noteq> fst t" if "t \<in> set ss" for t
  proof -
    have "set (segment_slots s) \<inter> set (concat (map segment_slots ss)) = {}" using Cons.prems by simp
    moreover have "fst s \<in> set (segment_slots s)" by (simp add: segment_slots_def)
    ultimately show ?thesis using segment_slots_mem(1) [OF that] by (metis IntI empty_iff)
  qed
  with Cons show ?case by fastforce
qed simp

lemma units_distinct: "distinct (concat (map unit_slots us)) \<Longrightarrow> distinct (map fst us)"
proof (induction us)
  case (Cons u us)
  have "fst u \<noteq> fst t" if "t \<in> set us" for t
  proof -
    have "set (unit_slots u) \<inter> set (concat (map unit_slots us)) = {}" using Cons.prems by simp
    moreover have "fst u \<in> set (unit_slots u)" by (simp add: unit_slots_def)
    ultimately show ?thesis using unit_slots_mem(1) [OF that] by (metis IntI empty_iff)
  qed
  with Cons show ?case by fastforce
qed simp

lemma segments_apart:
  assumes "distinct (concat (map segment_slots ss))" "y \<in> set ss" "z \<in> set ss"
  shows "fst y \<notin> set (concat (map unit_slots (snd z)))"
  using assms
proof (induction ss)
  case (Cons s ss)
  note mem = segment_slots_mem(1) [of y ss] segment_slots_mem(2) [of z ss]
  have "distinct (segment_slots s)" "set (segment_slots s) \<inter> set (concat (map segment_slots ss)) = {}"
    using Cons.prems(1) by simp_all
  then show ?case using Cons mem unfolding segment_slots_def by auto
qed simp

lemma units_apart:
  assumes "distinct (concat (map unit_slots us))" "y \<in> set us" "z \<in> set us"
  shows "fst y \<notin> fst ` set (snd (snd z))"
  using assms
proof (induction us)
  case (Cons u us)
  note mem = unit_slots_mem(1) [of y us] unit_slots_mem(2) [of z us]
  have "distinct (unit_slots u)" "set (unit_slots u) \<inter> set (concat (map unit_slots us)) = {}"
    using Cons.prems(1) by simp_all
  then show ?case using Cons mem unfolding unit_slots_def by auto
qed simp

text \<open>A new segment behind the last one.\<close>

lemma file_at_append:
  assumes at: "file_at V f zs ss" and dist: "distinct (file_slots f zs ss)"
    and new: "V' a = Some ab" "rd8i ab 16 = 0" "units_seg V' (rd8i ab 8) us 0" "rd4 ab 24 = of_nat (length us)"
    and link: "V (if ss = [] then f else fst (last ss)) = Some b"
      "V' (if ss = [] then f else fst (last ss)) = Some (if ss = [] then wr8i b 8 a else wr8i b 16 a)"
    and b: "length b = 32" and a: "i64 a"
    and V': "\<And>w. w \<in> set (file_slots f zs ss) \<Longrightarrow> w \<noteq> (if ss = [] then f else fst (last ss)) \<Longrightarrow> V' w = V w"
  shows "file_at V' f zs (ss @ [(a, us)])"
proof -
  let ?k = "if ss = [] then f else fst (last ss)"
  from at obtain fb where fb: "V f = Some fb" "rd2 fb 0 = NODE_TYPE_FILE" "sizes_at V (rd8i fb 16) zs" "segments_seg V (rd8i fb 8) ss 0"
    by (auto simp: file_at_def)
  have dseg: "distinct (concat (map segment_slots ss))" using dist by (simp add: file_slots_def)
  have "fst (last ss) \<in> set (concat (map segment_slots ss))" if "ss \<noteq> []"
    using segment_slots_mem(1) [OF last_in_set [OF that]] .
  then have apart: "?k \<notin> fst ` set zs" using dist by (auto simp: file_slots_def)
  have zs: "sizes_at V' (rd8i fb 16) zs"
  proof (rule list_seg_cong [OF fb(3)])
    fix w assume w: "w \<in> fst ` set zs"
    then have "w \<in> set (file_slots f zs ss)" by (simp add: file_slots_def)
    moreover have "w \<noteq> ?k" using w apart by blast
    ultimately show "V' w = V w" by (rule V')
  qed
  have node: "segment_node V' c' y" if "y \<in> set ss" "segment_node V c y" "rd8i c' 8 = rd8i c 8" "rd4 c' 24 = rd4 c 24" for c c' y
  proof -
    have "?k \<notin> set (concat (map unit_slots (snd y)))"
      using that(1) dist segments_apart [OF dseg _ that(1)] last_in_set [of ss]
      by (cases "ss = []") (auto simp: file_slots_def)
    moreover have "set (concat (map unit_slots (snd y))) \<subseteq> set (file_slots f zs ss)"
      using segment_slots_mem(2) [OF that(1)] unfolding file_slots_def by auto
    ultimately have "segment_node V' c y" using V' by (intro segment_node_cong [OF that(2)]) auto
    then show ?thesis using that(3,4) by (simp add: segment_node_def)
  qed
  have other: "V' w = V w" if "w \<in> fst ` set (butlast ss)" for w
  proof -
    from that obtain ss0 s where ss: "ss = ss0 @ [s]" by (cases ss rule: rev_cases) auto
    have "fst s \<notin> fst ` set ss0" "w \<in> fst ` set ss0" using segments_distinct [OF dseg] that ss by simp_all
    then have "w \<noteq> ?k" using ss by (simp, blast)
    moreover have "w \<in> set (file_slots f zs ss)"
    proof -
      from that obtain t where "t \<in> set (butlast ss)" "w = fst t" by blast
      with segment_slots_mem(1) [OF in_set_butlastD] show ?thesis by (simp add: file_slots_def)
    qed
    ultimately show ?thesis by (rule V' [rotated])
  qed
  have seg: "segments_seg V' (if ss = [] then a else rd8i fb 8) (ss @ [(a, us)]) 0"
  proof (rule list_seg_insert [where R = "segment_node V" and ys = "[]" and b = b and b' = "wr8i b 16 a" and nb = ab])
    show "segments_seg V (rd8i fb 8) (ss @ []) 0" using fb(4) by simp
    show "V' (fst (a, us)) = Some ab" "segment_node V' ab (a, us)" "rd8i ab 16 = (if [] = [] then 0 else fst (hd []))"
      using new by (simp_all add: segment_node_def)
    show "distinct (map fst ss)" by (rule segments_distinct [OF dseg])
    show "(if ss = [] then a else rd8i fb 8) = rd8i fb 8 \<and> V (fst (last ss)) = Some b \<and> V' (fst (last ss)) = Some (wr8i b 16 a)
        \<and> rd8i (wr8i b 16 a) 16 = fst (a, us) \<and> (segment_node V b (last ss) \<longrightarrow> segment_node V' (wr8i b 16 a) (last ss))"
      if "ss \<noteq> []" using that link a node [OF last_in_set [OF that]] node_fields [OF b] by simp
    show "V' w = V w" if "w \<in> fst ` set (butlast ss) \<union> fst ` set []" for w using that other by simp
    show "segment_node V' c y" if "y \<in> set (butlast ss) \<union> set []" "segment_node V c y" for c y
      using that node [of y c c] in_set_butlastD by fastforce
  qed simp
  show ?thesis
  proof (cases "ss = []")
    case True
    then have "fb = b" using fb(1) link(1) by simp
    with True link(2) zs seg fb(2) node_fields [OF b] a show ?thesis by (auto simp: file_at_def)
  next
    case False
    have "f \<noteq> ?k" using False dist segment_slots_mem(1) [OF last_in_set [OF False]] unfolding file_slots_def by auto
    then have "V' f = Some fb" using V' [of f] fb(1) by (simp add: file_slots_def)
    with False zs seg fb(2) show ?thesis by (auto simp: file_at_def)
  qed
qed

text \<open>The units of one segment change.\<close>

lemma file_at_segment:
  assumes at: "file_at V f zs (ss1 @ (a, us) # ss2)" and a: "V a = Some ab" "V' a = Some ab'" "rd8i ab' 16 = rd8i ab 16"
      "units_seg V' (rd8i ab' 8) us' 0" "rd4 ab' 24 = of_nat (length us')"
    and V': "\<And>w. w \<in> set (file_slots f zs (ss1 @ ss2)) \<Longrightarrow> V' w = V w"
  shows "file_at V' f zs (ss1 @ (a, us') # ss2)"
proof -
  from at obtain fb where fb: "V f = Some fb" "rd2 fb 0 = NODE_TYPE_FILE" "sizes_at V (rd8i fb 16) zs"
    "segments_seg V (rd8i fb 8) (ss1 @ (a, us) # ss2) 0" by (auto simp: file_at_def)
  have f: "V' f = V f" using V' by (simp add: file_slots_def)
  have "sizes_at V' (rd8i fb 16) zs" by (rule list_seg_cong [OF fb(3)]) (use V' in \<open>simp_all add: file_slots_def\<close>)
  moreover have "segments_seg V' (rd8i fb 8) (ss1 @ (a, us') # ss2) 0"
  proof (rule list_seg_replace [OF fb(4), where b = ab and b' = ab'])
    show "V' w = V w" if "w \<in> fst ` set ss1 \<union> fst ` set ss2" for w
    proof -
      from that obtain s where "s \<in> set (ss1 @ ss2)" "w = fst s" by auto
      with segment_slots_mem(1) have "w \<in> set (concat (map segment_slots (ss1 @ ss2)))" by blast
      then show ?thesis by (intro V') (simp add: file_slots_def)
    qed
    show "segment_node V' c y" if "y \<in> set ss1 \<union> set ss2" "segment_node V c y" for c y
    proof (rule segment_node_cong [OF that(2)])
      fix w assume "w \<in> set (concat (map unit_slots (snd y)))"
      with that(1) segment_slots_mem(2) [of y "ss1 @ ss2"] have "w \<in> set (concat (map segment_slots (ss1 @ ss2)))" by auto
      then show "V' w = V w" by (intro V') (simp add: file_slots_def)
    qed
  qed (use a in \<open>simp_all add: segment_node_def\<close>)
  ultimately show ?thesis using f fb by (auto simp: file_at_def)
qed

lemma units_replace:
  assumes seg: "units_seg V h (us1 @ (u, i, vs) # us2) m" and u: "V u = Some ub" "V' u = Some ub'" "rd4 ub' 4 = rd4 ub 4"
      "rd8i ub' 16 = rd8i ub 16" "versions_at V' (rd8i ub' 8) vs'"
    and V': "\<And>w. w \<in> set (concat (map unit_slots (us1 @ us2))) \<Longrightarrow> V' w = V w"
  shows "units_seg V' h (us1 @ (u, i, vs') # us2) m"
proof (rule list_seg_replace [OF seg, where b = ub and b' = ub'])
  show "V' w = V w" if "w \<in> fst ` set us1 \<union> fst ` set us2" for w
  proof -
    from that obtain s where "s \<in> set (us1 @ us2)" "w = fst s" by auto
    with unit_slots_mem(1) show ?thesis by (intro V') blast
  qed
  show "unit_node V' c y" if "y \<in> set us1 \<union> set us2" "unit_node V c y" for c y
  proof (rule unit_node_cong [OF that(2)])
    fix w assume "w \<in> fst ` set (snd (snd y))"
    with that(1) unit_slots_mem(2) [of y "us1 @ us2"] show "V' w = V w" by (intro V') auto
  qed
qed (use u in \<open>auto simp: unit_node_def\<close>)

text \<open>A new version in front of those of a unit.\<close>

lemma file_at_version:
  assumes at: "file_at V f zs (ss1 @ (a, us1 @ (u, i, vs) # us2) # ss2)"
    and dist: "distinct (file_slots f zs (ss1 @ (a, us1 @ (u, i, vs) # us2) # ss2))"
    and new: "w \<notin> set (file_slots f zs (ss1 @ (a, us1 @ (u, i, vs) # us2) # ss2))" "i64 w"
    and u: "V u = Some ub" "length ub = 32" and vb: "version_node vb (w, e, d)" "rd8i vb 24 = rd8i ub 8"
  shows "file_at (V(w \<mapsto> vb, u \<mapsto> wr8i ub 8 w)) f zs (ss1 @ (a, us1 @ (u, i, (w, e, d) # vs) # us2) # ss2)"
proof -
  let ?V = "V(w \<mapsto> vb, u \<mapsto> wr8i ub 8 w)" and ?us = "us1 @ (u, i, vs) # us2"
  from at obtain fb where "segments_seg V (rd8i fb 8) (ss1 @ (a, ?us) # ss2) 0" by (auto simp: file_at_def)
  from list_seg_mem [OF this, of "(a, ?us)"] obtain ab where ab: "V a = Some ab" "units_seg V (rd8i ab 8) ?us 0"
    "rd4 ab 24 = of_nat (length ?us)" unfolding segment_node_def by fastforce
  from list_seg_mem [OF ab(2), of "(u, i, vs)"] u have vs: "versions_at V (rd8i ub 8) vs" by (auto simp: unit_node_def)
  have slots: "set (file_slots f zs (ss1 @ (a, ?us) # ss2)) =
      set (file_slots f zs (ss1 @ ss2)) \<union> {a} \<union> set (concat (map unit_slots (us1 @ us2))) \<union> {u} \<union> fst ` set vs"
    by (auto simp: file_slots_def segment_slots_def unit_slots_def)
  have apart: "u \<notin> set (file_slots f zs (ss1 @ ss2))" "u \<noteq> a" "u \<notin> set (concat (map unit_slots (us1 @ us2)))" "u \<notin> fst ` set vs"
    using dist by (auto simp: file_slots_def segment_slots_def unit_slots_def)
  have w: "w \<notin> set (file_slots f zs (ss1 @ ss2))" "w \<noteq> a" "w \<notin> set (concat (map unit_slots (us1 @ us2)))" "w \<notin> fst ` set vs" "w \<noteq> u"
    using new(1) unfolding slots by auto
  have vs': "versions_at ?V (rd8i ub 8) vs" by (rule versions_at_cong [OF vs]) (use apart w in auto)
  have "units_seg ?V (rd8i ab 8) (us1 @ (u, i, (w, e, d) # vs) # us2) 0"
  proof (rule units_replace [OF ab(2) u(1)])
    show "?V u = Some (wr8i ub 8 w)" by simp
    show "versions_at ?V (rd8i (wr8i ub 8 w) 8) ((w, e, d) # vs)" using vs' vb w new node_fields [OF u(2)] by simp
    show "?V x = V x" if "x \<in> set (concat (map unit_slots (us1 @ us2)))" for x using that apart w by (metis fun_upd_other)
  qed (use node_fields [OF u(2)] in simp_all)
  then show ?thesis
  proof (rule file_at_segment [OF at ab(1), rotated 2])
    show "?V a = Some ab" using ab(1) apart w by simp
    show "?V x = V x" if "x \<in> set (file_slots f zs (ss1 @ ss2))" for x using that apart w by (metis fun_upd_other)
  qed (use ab(3) in simp_all)
qed

text \<open>A new unit between two runs of units of a segment.\<close>

lemma file_at_unit:
  assumes at: "file_at V f zs (ss1 @ (a, us1 @ us2) # ss2)" and dist: "distinct (file_slots f zs (ss1 @ (a, us1 @ us2) # ss2))"
    and a: "V a = Some ab" "V' a = Some ab'" "rd8i ab' 16 = rd8i ab 16" "rd8i ab' 8 = (if us1 = [] then u else rd8i ab 8)"
      "rd4 ab' 24 = of_nat (length (us1 @ us2)) + 1"
    and u: "V' u = Some ub" "rd4 ub 4 = i" "rd8i ub 8 = 0" "rd8i ub 16 = (if us2 = [] then 0 else fst (hd us2))" "i64 u"
    and link: "us1 \<noteq> [] \<Longrightarrow> V (fst (last us1)) = Some b \<and> V' (fst (last us1)) = Some (wr8i b 16 u) \<and> length b = 32"
    and V': "\<And>w. w \<in> set (file_slots f zs (ss1 @ (a, us1 @ us2) # ss2)) \<Longrightarrow> w \<noteq> a \<Longrightarrow> us1 \<noteq> [] \<longrightarrow> w \<noteq> fst (last us1) \<Longrightarrow> V' w = V w"
  shows "file_at V' f zs (ss1 @ (a, us1 @ (u, i, []) # us2) # ss2)"
proof -
  from at obtain fb where "segments_seg V (rd8i fb 8) (ss1 @ (a, us1 @ us2) # ss2) 0" by (auto simp: file_at_def)
  from list_seg_mem [OF this, of "(a, us1 @ us2)"] a(1) have units: "units_seg V (rd8i ab 8) (us1 @ us2) 0"
    by (auto simp: segment_node_def)
  have du: "distinct (concat (map unit_slots (us1 @ us2)))" "a \<notin> set (concat (map unit_slots (us1 @ us2)))"
    using dist by (auto simp: file_slots_def segment_slots_def)
  have sub: "set (concat (map unit_slots (us1 @ us2))) \<subseteq> set (file_slots f zs (ss1 @ (a, us1 @ us2) # ss2))"
    by (auto simp: file_slots_def segment_slots_def)
  have dm: "distinct (map fst (us1 @ us2))" by (rule units_distinct [OF du(1)])
  have vers: "unit_node V' c' y" if "y \<in> set (us1 @ us2)" "unit_node V c y" "rd8i c' 8 = rd8i c 8" "rd4 c' 4 = rd4 c 4" for c c' y
  proof -
    have "V' w = V w" if w: "w \<in> fst ` set (snd (snd y))" for w
    proof (rule V')
      have wm: "w \<in> set (concat (map unit_slots (us1 @ us2)))" using unit_slots_mem(2) [OF \<open>y \<in> set (us1 @ us2)\<close>] w by blast
      then show "w \<in> set (file_slots f zs (ss1 @ (a, us1 @ us2) # ss2))" using sub by blast
      show "w \<noteq> a" using wm du(2) by blast
      show "us1 \<noteq> [] \<longrightarrow> w \<noteq> fst (last us1)"
      proof
        assume "us1 \<noteq> []"
        then have "last us1 \<in> set (us1 @ us2)" by simp
        from units_apart [OF du(1) this \<open>y \<in> set (us1 @ us2)\<close>] w show "w \<noteq> fst (last us1)" by blast
      qed
    qed
    from unit_node_cong [OF that(2) this] that(3,4) show ?thesis by (simp add: unit_node_def)
  qed
  have "units_seg V' (rd8i ab' 8) (us1 @ (u, i, []) # us2) 0"
  proof (rule list_seg_insert [OF units, where b = b and b' = "wr8i b 16 u" and nb = ub])
    show "V' (fst (u, i, [])) = Some ub" "unit_node V' ub (u, i, [])" using u by (simp_all add: unit_node_def)
    show "rd8i ub 16 = (if us2 = [] then 0 else fst (hd us2))" by (rule u)
    show "distinct (map fst us1)" using dm by simp
    show "us1 = [] \<Longrightarrow> rd8i ab' 8 = fst (u, i, [])" using a by simp
    show "rd8i ab' 8 = rd8i ab 8 \<and> V (fst (last us1)) = Some b \<and> V' (fst (last us1)) = Some (wr8i b 16 u)
        \<and> rd8i (wr8i b 16 u) 16 = fst (u, i, []) \<and> (unit_node V b (last us1) \<longrightarrow> unit_node V' (wr8i b 16 u) (last us1))"
      if "us1 \<noteq> []" using that link a u(5) vers [of "last us1"] node_fields [of b] last_in_set [OF that] by simp
    show "V' w = V w" if "w \<in> fst ` set (butlast us1) \<union> fst ` set us2" for w
    proof (rule V')
      from that obtain t where t: "t \<in> set (butlast us1) \<union> set us2" "w = fst t" by auto
      then have "t \<in> set (us1 @ us2)" by (auto dest: in_set_butlastD)
      then have wm: "w \<in> set (concat (map unit_slots (us1 @ us2)))" using unit_slots_mem(1) t(2) by blast
      then show "w \<in> set (file_slots f zs (ss1 @ (a, us1 @ us2) # ss2))" "w \<noteq> a" using sub du(2) by blast+
      have "fst (last us1) \<notin> fst ` (set (butlast us1) \<union> set us2)" if "us1 \<noteq> []"
        using dm that by (cases us1 rule: rev_cases) (auto simp: image_Un)
      then show "us1 \<noteq> [] \<longrightarrow> w \<noteq> fst (last us1)" using t imageI by metis
    qed
    show "unit_node V' c y" if "y \<in> set (butlast us1) \<union> set us2" "unit_node V c y" for c y
      using that by (intro vers [OF _ that(2)]) (auto dest: in_set_butlastD)
  qed
  then show ?thesis
  proof (rule file_at_segment [where V = V and V' = V', OF at a(1-3)])
    fix w assume w: "w \<in> set (file_slots f zs (ss1 @ ss2))"
    have "w \<notin> set (segment_slots (a, us1 @ us2))" using w dist by (auto simp: file_slots_def)
    then have "w \<noteq> a" "w \<notin> set (concat (map unit_slots (us1 @ us2)))" by (simp_all add: segment_slots_def)
    moreover have "us1 \<noteq> [] \<longrightarrow> fst (last us1) \<in> set (concat (map unit_slots (us1 @ us2)))"
      using unit_slots_mem(1) [of "last us1" "us1 @ us2"] last_in_set [of us1] by simp
    moreover have "w \<in> set (file_slots f zs (ss1 @ (a, us1 @ us2) # ss2))" using w by (auto simp: file_slots_def)
    ultimately show "V' w = V w" by (intro V') auto
  qed (use a(5) in simp)
qed

text \<open>A new entry in front of the sizes.\<close>

lemma file_at_size:
  assumes at: "file_at V f zs ss" and dist: "distinct (file_slots f zs ss)" and new: "z \<notin> set (file_slots f zs ss)" "i64 z"
    and f: "V f = Some fb" "length fb = 32" and zb: "size_node zb (z, e, t, n)" "rd8i zb 24 = rd8i fb 16"
  shows "file_at (V(z \<mapsto> zb, f \<mapsto> wr8i fb 16 z)) f ((z, e, t, n) # zs) ss"
proof -
  let ?V = "V(z \<mapsto> zb, f \<mapsto> wr8i fb 16 z)"
  from at f have fb: "rd2 fb 0 = NODE_TYPE_FILE" "sizes_at V (rd8i fb 16) zs" "segments_seg V (rd8i fb 8) ss 0"
    by (auto simp: file_at_def)
  have out: "f \<notin> fst ` set zs" "f \<notin> set (concat (map segment_slots ss))" "z \<noteq> f" "z \<notin> fst ` set zs" "z \<notin> set (concat (map segment_slots ss))"
    using dist new(1) by (auto simp: file_slots_def)
  have "sizes_at ?V (rd8i fb 16) zs" by (rule list_seg_cong [OF fb(2)]) (use out in \<open>metis fun_upd_other\<close>)+
  moreover have "segments_seg ?V (rd8i fb 8) ss 0" by (rule segments_seg_cong [OF fb(3)]) (use out in \<open>metis fun_upd_other\<close>)
  ultimately show ?thesis using fb(1) zb out node_fields [OF f(2)] new(2) by (simp add: file_at_def)
qed

end
