(* ===== verification/FileWalk.thy ===== *)
theory FileWalk
  imports FileLaws
begin

text \<open>
  The resolution of a page of a file to its node: what the segment walk, the search for the page node and its
  insertion do to the representation of the file.

  The slot of the file is held by the walk as a local copy \<open>fb\<close> and stored back at its end. The statements are
  about the heap with that copy in place, \<open>S(f \<mapsto> fb)\<close>.
\<close>

section \<open>Growth of the heap of a file\<close>

text \<open>
  The slots \<open>A\<close> of a file grow to \<open>A'\<close> by slots that were not in use, and nothing outside of \<open>A\<close> changes.
\<close>

definition heap_grow :: "(int \<rightharpoonup> bytes) \<Rightarrow> int set \<Rightarrow> (int \<rightharpoonup> bytes) \<Rightarrow> int set \<Rightarrow> bool" where
  "heap_grow S A S' A' \<longleftrightarrow> dom S \<subseteq> dom S' \<and> (\<forall>v \<in> dom S - A. S' v = S v) \<and> A \<subseteq> A' \<and> A' \<inter> dom S \<subseteq> A"

lemma heap_grow_refl [simp]: "heap_grow S A S A"
  by (auto simp: heap_grow_def)

lemma heap_grow_trans [trans]:
  assumes "heap_grow S A S' A'" "heap_grow S' A' S'' A''"
  shows "heap_grow S A S'' A''"
proof -
  have *: "dom S \<subseteq> dom S'" "\<And>v. v \<in> dom S - A \<Longrightarrow> S' v = S v" "A \<subseteq> A'" "A' \<inter> dom S \<subseteq> A"
    "dom S' \<subseteq> dom S''" "\<And>v. v \<in> dom S' - A' \<Longrightarrow> S'' v = S' v" "A' \<subseteq> A''" "A'' \<inter> dom S' \<subseteq> A'"
    using assms by (simp_all add: heap_grow_def)
  have "S'' v = S v" if v: "v \<in> dom S - A" for v
  proof -
    have "v \<in> dom S' - A'" using v *(1,4) by blast
    then show ?thesis using v *(2,6) by simp
  qed
  with * show ?thesis unfolding heap_grow_def by blast
qed

lemma heap_grow_upd: "heap_grow S A S' A' \<Longrightarrow> v \<in> A' \<Longrightarrow> heap_grow S A (S'(v \<mapsto> b)) A'"
  by (auto simp: heap_grow_def)

section \<open>Accesses of a tree context with a given pool\<close>

lemma at_acquire:
  assumes "heap_rep pool S P" "S v = Some b"
  obtains pool' where "\<forall>vfs. vfs_acquire (vfs\<lparr>vpool := pool\<rparr>) v pin = (\<lparr>ps_vptr = v, pinnedPage = pin, ps_bytes = b\<rparr>, vfs\<lparr>vpool := pool'\<rparr>)"
    "heap_rep pool' S P" "same_store pool pool'" "v \<noteq> 0" "length b = 32"
proof -
  from nh.acq_law [OF assms, of pin] obtain s' where "pool_acquire pool v pin = (\<lparr>ps_vptr = v, pinnedPage = pin, ps_bytes = b\<rparr>, s')"
    "heap_rep s' S P" "store_room (pool_sb s') = store_room (pool_sb pool)" "page_size (pool_sb s') = page_size (pool_sb pool)" by blast
  with nh.slot_shape [OF assms] show thesis by (intro that [of s']) (auto simp: vfs_acquire_def same_store_def)
qed

lemma at_release:
  assumes "heap_rep pool S P" "v \<in> dom S" "length b = 32"
  obtains pool' where "\<forall>vfs. vfs_release (vfs\<lparr>vpool := pool\<rparr>) \<lparr>ps_vptr = v, pinnedPage = True, ps_bytes = b\<rparr> = vfs\<lparr>vpool := pool'\<rparr>"
    "heap_rep pool' (S(v \<mapsto> b)) P" "same_store pool pool'"
proof -
  from nh.rel_law [OF assms] obtain slot s' where "pool_release pool \<lparr>ps_vptr = v, pinnedPage = True, ps_bytes = b\<rparr> = (slot, s')"
    "heap_rep s' (S(v \<mapsto> b)) P" "store_room (pool_sb s') = store_room (pool_sb pool)" "page_size (pool_sb s') = page_size (pool_sb pool)" by blast
  then show thesis by (intro that [of s']) (auto simp: vfs_release_def same_store_def)
qed

lemma at_new:
  assumes "heap_rep pool S P" "store_room (pool_sb pool) (Suc k)"
  obtains v b pool1 pool2 where "\<forall>vfs. vfs_alloc (vfs\<lparr>vpool := pool\<rparr>) = Some (v, vfs\<lparr>vpool := pool1\<rparr>)"
    "\<forall>vfs. vfs_acquire (vfs\<lparr>vpool := pool1\<rparr>) v True = (\<lparr>ps_vptr = v, pinnedPage = True, ps_bytes = b\<rparr>, vfs\<lparr>vpool := pool2\<rparr>)"
    "v \<notin> dom S" "v \<noteq> 0" "i64 v" "length b = 32" "heap_rep pool2 (S(v \<mapsto> b)) P" "store_room (pool_sb pool2) k"
    "page_size (pool_sb pool2) = page_size (pool_sb pool)"
proof -
  from nh.new_law [OF assms] obtain v b s1 s2 where
    "pool_alloc pool = Some (v, s1)" "v \<notin> dom S" "v \<noteq> 0" "pool_acquire s1 v True = (\<lparr>ps_vptr = v, pinnedPage = True, ps_bytes = b\<rparr>, s2)"
    "length b = 32" "0 < v" "v < 2 ^ 63" "heap_rep s2 (S(v \<mapsto> b)) P" "store_room (pool_sb s2) k" "page_size (pool_sb s2) = page_size (pool_sb pool)"
    by blast
  then show thesis by (intro that [of v s1 b s2]) (simp_all add: vfs_alloc_def vfs_acquire_def i64_def)
qed

section \<open>New segments\<close>

lemma allocate_empty:
  assumes rep: "heap_rep pool S P" and room: "store_room (pool_sb pool) (Suc k)"
  obtains a ab jb pool' where
    "\<forall>vfs. allocate_filecontent (vfs\<lparr>vpool := pool\<rparr>) i False =
      Some (a, \<lparr>ps_vptr = a, pinnedPage = True, ps_bytes = ab\<rparr>, vfs\<lparr>vpool := pool'\<rparr>)"
    "a \<notin> dom S" "a \<noteq> 0" "i64 a" "heap_rep pool' (S(a \<mapsto> jb)) P" "length ab = 32" "rd8i ab 8 = 0" "rd8i ab 16 = 0" "rd4 ab 24 = 0"
    "store_room (pool_sb pool') k" "page_size (pool_sb pool') = page_size (pool_sb pool)"
proof -
  obtain a jb pool1 pool2 where
    a: "\<forall>vfs. vfs_alloc (vfs\<lparr>vpool := pool\<rparr>) = Some (a, vfs\<lparr>vpool := pool1\<rparr>)"
      "\<forall>vfs. vfs_acquire (vfs\<lparr>vpool := pool1\<rparr>) a True = (\<lparr>ps_vptr = a, pinnedPage = True, ps_bytes = jb\<rparr>, vfs\<lparr>vpool := pool2\<rparr>)"
      "a \<notin> dom S" "a \<noteq> 0" "i64 a" "length jb = 32" "heap_rep pool2 (S(a \<mapsto> jb)) P" "store_room (pool_sb pool2) k"
      "page_size (pool_sb pool2) = page_size (pool_sb pool)" by (rule at_new [OF assms])
  show thesis
    by (rule that [of a "nodes_write_filecontent jb \<lparr>fc_pageRootPtr = 0, fc_nextPtr = 0\<rparr>" pool2 jb])
      (use a in \<open>simp_all add: allocate_filecontent_def node_simps buf_simps\<close>)
qed

lemma allocate_page:
  assumes rep: "heap_rep pool S P" and room: "store_room (pool_sb pool) (Suc (Suc k))"
  obtains a ab jb u ub pool' where
    "\<forall>vfs. allocate_filecontent (vfs\<lparr>vpool := pool\<rparr>) i True =
      Some (a, \<lparr>ps_vptr = a, pinnedPage = True, ps_bytes = ab\<rparr>, vfs\<lparr>vpool := pool'\<rparr>)"
    "a \<notin> dom S" "a \<noteq> 0" "i64 a" "u \<notin> dom S" "u \<noteq> a" "u \<noteq> 0" "i64 u" "heap_rep pool' (S(u \<mapsto> ub, a \<mapsto> jb)) P"
    "length ab = 32" "rd8i ab 8 = u" "rd8i ab 16 = 0" "rd4 ab 24 = 0" "length ub = 32" "rd4 ub 4 = word_of_int i" "rd8i ub 8 = 0" "rd8i ub 16 = 0"
    "store_room (pool_sb pool') k" "page_size (pool_sb pool') = page_size (pool_sb pool)"
proof -
  obtain a jb pool1 pool2 where
    a: "\<forall>vfs. vfs_alloc (vfs\<lparr>vpool := pool\<rparr>) = Some (a, vfs\<lparr>vpool := pool1\<rparr>)"
      "\<forall>vfs. vfs_acquire (vfs\<lparr>vpool := pool1\<rparr>) a True = (\<lparr>ps_vptr = a, pinnedPage = True, ps_bytes = jb\<rparr>, vfs\<lparr>vpool := pool2\<rparr>)"
      "a \<notin> dom S" "a \<noteq> 0" "i64 a" "length jb = 32" "heap_rep pool2 (S(a \<mapsto> jb)) P" "store_room (pool_sb pool2) (Suc k)"
      "page_size (pool_sb pool2) = page_size (pool_sb pool)" by (rule at_new [OF assms])
  obtain u uj pool3 pool4 where
    u: "\<forall>vfs. vfs_alloc (vfs\<lparr>vpool := pool2\<rparr>) = Some (u, vfs\<lparr>vpool := pool3\<rparr>)"
      "\<forall>vfs. vfs_acquire (vfs\<lparr>vpool := pool3\<rparr>) u True = (\<lparr>ps_vptr = u, pinnedPage = True, ps_bytes = uj\<rparr>, vfs\<lparr>vpool := pool4\<rparr>)"
      "u \<notin> dom (S(a \<mapsto> jb))" "u \<noteq> 0" "i64 u" "length uj = 32" "heap_rep pool4 (S(a \<mapsto> jb, u \<mapsto> uj)) P" "store_room (pool_sb pool4) k"
      "page_size (pool_sb pool4) = page_size (pool_sb pool2)" by (rule at_new [OF a(7,8)])
  let ?ub = "nodes_write_pagenode uj \<lparr>pn_versionRootPtr = 0, pn_nextPtr = 0, pn_page_index = word_of_int i\<rparr>"
  have d: "u \<in> dom (S(a \<mapsto> jb, u \<mapsto> uj))" "length ?ub = 32" using u by simp_all
  obtain pool5 where
    r: "\<forall>vfs. vfs_release (vfs\<lparr>vpool := pool4\<rparr>) \<lparr>ps_vptr = u, pinnedPage = True, ps_bytes = ?ub\<rparr> = vfs\<lparr>vpool := pool5\<rparr>"
      "heap_rep pool5 ((S(a \<mapsto> jb, u \<mapsto> uj))(u \<mapsto> ?ub)) P" "same_store pool4 pool5" by (rule at_release [OF u(7) d])
  have ne: "u \<noteq> a" "u \<notin> dom S" using u(3) by auto
  then have h: "heap_rep pool5 (S(u \<mapsto> ?ub, a \<mapsto> jb)) P" using r(2) by (simp add: fun_upd_twist)
  have f: "rd4 ?ub 4 = word_of_int i" "rd8i ?ub 8 = 0" "rd8i ?ub 16 = 0" "length ?ub = 32"
    using u(6) by (simp_all add: node_simps buf_simps)
  let ?ab = "nodes_write_filecontent jb \<lparr>fc_pageRootPtr = u, fc_nextPtr = 0\<rparr>"
  have eq: "\<forall>vfs. allocate_filecontent (vfs\<lparr>vpool := pool\<rparr>) i True =
      Some (a, \<lparr>ps_vptr = a, pinnedPage = True, ps_bytes = ?ab\<rparr>, vfs\<lparr>vpool := pool5\<rparr>)"
    using a(4) u(4) by (simp add: allocate_filecontent_def a(1,2) u(1,2) r(1))
  have g: "length ?ab = 32" "rd8i ?ab 8 = u" "rd8i ?ab 16 = 0" "rd4 ?ab 24 = 0"
    using a(6) u(5) by (simp_all add: node_simps buf_simps)
  have st: "store_room (pool_sb pool5) k" "page_size (pool_sb pool5) = page_size (pool_sb pool)"
    using r(3) u(8,9) a(9) by (simp_all add: same_store_def)
  show thesis by (rule that [OF eq a(3-5) ne(2,1) u(4,5) h g(1-4) f(4,1-3) st])
qed

lemma link_fc_law:
  assumes rep: "heap_rep pool S P" and prev: "prev \<noteq> 0 \<Longrightarrow> S prev = Some b"
  obtains pool' where "\<forall>vfs. (prev \<noteq> 0 \<longrightarrow> filelock_lookup (lock_table vfs) prev = None) \<longrightarrow>
      link_fc_into_chain (vfs\<lparr>vpool := pool\<rparr>) e \<lparr>ps_vptr = f, pinnedPage = True, ps_bytes = fb\<rparr> prev a =
      Some (True, \<lparr>ps_vptr = f, pinnedPage = True, ps_bytes = (if prev = 0 then wr8i fb 8 a else fb)\<rparr>, vfs\<lparr>vpool := pool'\<rparr>)"
    "heap_rep pool' (if prev = 0 then S else S(prev \<mapsto> wr8i b 16 a)) P" "same_store pool pool'"
proof (cases "prev = 0")
  case True
  with rep show thesis by (intro that [of pool]) (simp_all add: link_fc_into_chain_def)
next
  case False
  then have b: "S prev = Some b" using prev by auto
  obtain pool1 where
    a: "\<forall>vfs. vfs_acquire (vfs\<lparr>vpool := pool\<rparr>) prev True = (\<lparr>ps_vptr = prev, pinnedPage = True, ps_bytes = b\<rparr>, vfs\<lparr>vpool := pool1\<rparr>)"
      "heap_rep pool1 S P" "same_store pool pool1" "prev \<noteq> 0" "length b = 32" by (rule at_acquire [OF rep b, where pin = True])
  have d: "prev \<in> dom S" "length (wr8i b 16 a) = 32" using b a(5) by (auto simp: buf_simps)
  obtain pool2 where
    r: "\<forall>vfs. vfs_release (vfs\<lparr>vpool := pool1\<rparr>) \<lparr>ps_vptr = prev, pinnedPage = True, ps_bytes = wr8i b 16 a\<rparr> = vfs\<lparr>vpool := pool2\<rparr>"
      "heap_rep pool2 (S(prev \<mapsto> wr8i b 16 a)) P" "same_store pool1 pool2" by (rule at_release [OF a(2) d])
  have link: "link_fc_into_chain (vfs\<lparr>vpool := pool\<rparr>) e \<lparr>ps_vptr = f, pinnedPage = True, ps_bytes = fb\<rparr> prev a =
      Some (True, \<lparr>ps_vptr = f, pinnedPage = True, ps_bytes = fb\<rparr>, vfs\<lparr>vpool := pool2\<rparr>)"
    if free: "filelock_lookup (lock_table vfs) prev = None" for vfs
  proof -
    let ?v = "vfs\<lparr>lock_table := lock_taken (lock_table vfs) prev e\<rparr>"
    have l: "vfs_lock (vfs\<lparr>vpool := pool\<rparr>) prev e = Some (VFS_OK, ?v\<lparr>vpool := pool\<rparr>)"
      using vfs_lock_law [of "vfs\<lparr>vpool := pool\<rparr>" S P prev e] rep free by simp
    have u: "vfs_unlock (?v\<lparr>vpool := pool2\<rparr>) prev e = (VFS_OK, vfs\<lparr>vpool := pool2\<rparr>)"
      using vfs_unlock_law [OF free, of "?v\<lparr>vpool := pool2\<rparr>" e] by simp
    show ?thesis unfolding link_fc_into_chain_def l using False by (simp add: a(1) r(1) u)
  qed
  show thesis by (rule that [of pool2]) (use False r same_store_trans [OF a(3) r(3)] link in simp_all)
qed

lemma link_pn_eq: "link_pn_into_chain = link_fc_into_chain"
  by (intro ext) (simp add: link_pn_into_chain_def link_fc_into_chain_def)

text \<open>A new segment holds no page, or one that was never written.\<close>

definition new_units :: "nat \<Rightarrow> (int \<rightharpoonup> bytes) \<Rightarrow> file_unit list \<Rightarrow> (int \<rightharpoonup> bytes) \<Rightarrow> bool" where
  "new_units n S us S1 \<longleftrightarrow> us = [] \<and> S1 = S \<or> (\<exists>u i ub. us = [(u, i, [])] \<and> unat i < n \<and> u \<notin> dom S \<and> S1 = S(u \<mapsto> ub)
     \<and> rd4 ub 4 = i \<and> rd8i ub 8 = 0 \<and> rd8i ub 16 = 0)"

lemma new_units_props:
  assumes "new_units n S us S1"
  shows "dom S1 = dom S \<union> set (concat (map unit_slots us))" "set (concat (map unit_slots us)) \<inter> dom S = {}"
    "distinct (concat (map unit_slots us))" "concat (map unit_pages us) = []" "v \<in> dom S \<Longrightarrow> S1 v = S v"
    "sorted_wrt (<) (map (\<lambda>u. unat (fst (snd u))) us)" "\<forall>u\<in>set us. unat (fst (snd u)) < n"
  using assms by (auto simp: new_units_def unit_slots_def unit_pages_def split: if_splits)

lemma new_units_seg:
  assumes "new_units n S us S1" "\<And>v. v \<in> set (concat (map unit_slots us)) \<Longrightarrow> V v = S1 v"
  shows "units_seg V (if us = [] then 0 else fst (hd us)) us 0"
  using assms by (auto simp: new_units_def unit_slots_def unit_node_def)

lemma file_wf_append:
  assumes wf: "file_wf n V P f zs ss" and at: "file_at V' f zs (ss @ [(a, us)])"
    and new: "a \<notin> set (file_slots f zs ss)" "a \<notin> set (concat (map unit_slots us))"
      "set (concat (map unit_slots us)) \<inter> set (file_slots f zs ss) = {}" and us: "new_units n S us S1"
  shows "file_wf n V' P f zs (ss @ [(a, us)])"
proof -
  have "file_slots f zs (ss @ [(a, us)]) = file_slots f zs ss @ a # concat (map unit_slots us)"
    by (simp add: file_slots_def segment_slots_def)
  moreover have "file_pages (ss @ [(a, us)]) = file_pages ss" using new_units_props(4) [OF us] by (simp add: file_pages_def)
  ultimately show ?thesis using wf at new new_units_props [OF us] by (simp add: file_wf_def) blast
qed

lemma link_segment:
  assumes rep: "heap_rep pool (S1(a \<mapsto> jb)) P" and us: "new_units n S us S1"
    and a: "a \<notin> dom S1" "i64 a" "a \<noteq> 0" "a \<noteq> f" and ab: "length ab = 32" "rd8i ab 8 = (if us = [] then 0 else fst (hd us))" "rd8i ab 16 = 0"
      "rd4 ab 24 = of_nat (length us)"
    and f: "f \<in> dom S" "length fb = 32" and wf: "file_wf n (S(f \<mapsto> fb)) P f zs ss"
  obtains pool1 pool2 fb' S' where
    "\<forall>vfs. (\<forall>v. v \<noteq> f \<longrightarrow> filelock_lookup (lock_table vfs) v = None) \<longrightarrow>
      link_fc_into_chain (vfs\<lparr>vpool := pool\<rparr>) e \<lparr>ps_vptr = f, pinnedPage = True, ps_bytes = fb\<rparr> (if ss = [] then 0 else fst (last ss)) a =
      Some (True, \<lparr>ps_vptr = f, pinnedPage = True, ps_bytes = fb'\<rparr>, vfs\<lparr>vpool := pool1\<rparr>)"
    "\<forall>vfs. vfs_release (vfs\<lparr>vpool := pool1\<rparr>) \<lparr>ps_vptr = a, pinnedPage = True, ps_bytes = ab\<rparr> = vfs\<lparr>vpool := pool2\<rparr>"
    "heap_rep pool2 S' P" "same_store pool pool2" "file_wf n (S'(f \<mapsto> fb')) P f zs (ss @ [(a, us)])" "length fb' = 32" "f \<in> dom S'"
    "heap_grow S (set (file_slots f zs ss)) S' (set (file_slots f zs (ss @ [(a, us)])))"
    "\<forall>v \<in> set (concat (map unit_slots us)). S' v = S1 v"
proof -
  let ?A = "set (file_slots f zs ss)" and ?V = "S(f \<mapsto> fb)" and ?prev = "if ss = [] then 0 else fst (last ss)"
  let ?k = "if ss = [] then f else fst (last ss)" and ?U = "set (concat (map unit_slots us))"
  have at: "file_at ?V f zs ss" and dist: "distinct (file_slots f zs ss)" using wf by (auto simp: file_wf_def)
  have A: "?A \<subseteq> dom S" using file_at_slots [OF at] f(1) by auto
  have fA: "f \<in> ?A" by (simp add: file_slots_def)
  have last: "ss \<noteq> [] \<Longrightarrow> fst (last ss) \<in> ?A \<and> fst (last ss) \<noteq> f"
    using segment_slots_mem(1) [OF last_in_set, of ss] dist by (auto simp: file_slots_def)
  note u = new_units_props [OF us]
  have Aa: "a \<notin> dom S" "a \<notin> ?U" using a(1) u(1) by auto
  have k: "?k \<in> ?A" "?k \<in> dom S" "?k \<noteq> a" using last fA A Aa by auto
  have S0: "0 \<notin> dom S" using nh.slot_nonzero [OF rep] u(1) a(3) by (metis Un_iff domIff fun_upd_other)
  have pnz: "?prev = 0 \<longleftrightarrow> ss = []" using last A S0 by (metis subsetD)
  define b where "b = (if ss = [] then fb else the (S (fst (last ss))))"
  have Vk: "?V ?k = Some b" using last A by (auto simp: b_def)
  have pb: "?prev \<noteq> 0 \<Longrightarrow> (S1(a \<mapsto> jb)) ?prev = Some b"
    using pnz last A k Vk u(5) by (auto split: if_splits)
  have lb: "length b = 32"
    using pb pnz nh.slot_shape [OF rep, of ?prev b] f(2) by (cases "ss = []") (auto simp: b_def)
  obtain pool1 where
    l: "\<forall>vfs. (?prev \<noteq> 0 \<longrightarrow> filelock_lookup (lock_table vfs) ?prev = None) \<longrightarrow>
        link_fc_into_chain (vfs\<lparr>vpool := pool\<rparr>) e \<lparr>ps_vptr = f, pinnedPage = True, ps_bytes = fb\<rparr> ?prev a =
        Some (True, \<lparr>ps_vptr = f, pinnedPage = True, ps_bytes = (if ?prev = 0 then wr8i fb 8 a else fb)\<rparr>, vfs\<lparr>vpool := pool1\<rparr>)"
      "heap_rep pool1 (if ?prev = 0 then S1(a \<mapsto> jb) else (S1(a \<mapsto> jb))(?prev \<mapsto> wr8i b 16 a)) P" "same_store pool pool1"
    by (rule link_fc_law [OF rep pb])
  let ?fb = "if ?prev = 0 then wr8i fb 8 a else fb"
  define S2 where "S2 = (if ?prev = 0 then S1(a \<mapsto> jb) else (S1(a \<mapsto> jb))(?prev \<mapsto> wr8i b 16 a))"
  have rep1: "heap_rep pool1 S2 P" "a \<in> dom S2" using l(2) by (auto simp: S2_def)
  obtain pool2 where
    r: "\<forall>vfs. vfs_release (vfs\<lparr>vpool := pool1\<rparr>) \<lparr>ps_vptr = a, pinnedPage = True, ps_bytes = ab\<rparr> = vfs\<lparr>vpool := pool2\<rparr>"
      "heap_rep pool2 (S2(a \<mapsto> ab)) P" "same_store pool1 pool2" by (rule at_release [OF rep1 ab(1)])
  let ?S = "S2(a \<mapsto> ab)"
  have keep: "?S v = S1 v" if "v \<noteq> a" "?prev = 0 \<or> v \<noteq> ?prev" for v using that by (auto simp: S2_def)
  have lf: "length ?fb = 32" using f(2) by (simp add: buf_simps)
  have Uprev: "v \<noteq> a \<and> (?prev = 0 \<or> v \<noteq> ?prev)" if "v \<in> ?U" for v
    using that Aa u(2) last A pnz by (metis IntI empty_iff subsetD)
  have Uf: "f \<notin> ?U" using u(2) f(1) by auto
  have us': "units_seg (?S(f \<mapsto> ?fb)) (rd8i ab 8) us 0"
    unfolding ab(2) by (rule new_units_seg [OF us]) (use Uprev keep Uf in \<open>metis fun_upd_other\<close>)
  have at': "file_at (?S(f \<mapsto> ?fb)) f zs (ss @ [(a, us)])"
  proof (rule file_at_append [OF at dist, where b = b and ab = ab])
    show "(?S(f \<mapsto> ?fb)) a = Some ab" using a(4) by simp
    show "(?S(f \<mapsto> ?fb)) ?k = Some (if ss = [] then wr8i b 8 a else wr8i b 16 a)"
    proof (cases "ss = []")
      case False
      then have "?prev \<noteq> 0" "?prev \<noteq> a" "?prev \<noteq> f" using pnz k(3) last by auto
      then show ?thesis using False by (simp add: S2_def)
    qed (use pnz in \<open>simp add: b_def\<close>)
    show "(?S(f \<mapsto> ?fb)) w = ?V w" if "w \<in> ?A" "w \<noteq> ?k" for w
    proof (cases "w = f")
      case True
      with that pnz show ?thesis by (cases "ss = []") simp_all
    next
      case False
      have "w \<in> dom S" "w \<noteq> a" using that(1) A Aa(1) by auto
      moreover have "?prev = 0 \<or> w \<noteq> ?prev" using that(2) by (cases "ss = []") simp_all
      ultimately show ?thesis using False keep [of w] u(5) [of w] by simp
    qed
  qed (use us' ab lb a(2) Vk in simp_all)
  have wf': "file_wf n (?S(f \<mapsto> ?fb)) P f zs (ss @ [(a, us)])"
    by (rule file_wf_append [OF wf at' _ Aa(2) _ us]) (use A Aa u(2) in auto)
  have dom': "dom S1 \<subseteq> dom ?S" by (auto simp: S2_def)
  have slots: "set (file_slots f zs (ss @ [(a, us)])) = ?A \<union> {a} \<union> ?U" by (auto simp: file_slots_def segment_slots_def)
  have "heap_grow S ?A ?S (set (file_slots f zs (ss @ [(a, us)])))"
    unfolding heap_grow_def slots
  proof (intro conjI ballI)
    show "dom S \<subseteq> dom ?S" using dom' u(1) by auto
    show "?S v = S v" if "v \<in> dom S - ?A" for v
    proof -
      have "v \<noteq> a" "?prev = 0 \<or> v \<noteq> ?prev" using that Aa pnz last by (auto split: if_splits)
      then show ?thesis using keep u(5) [of v] that by simp
    qed
  qed (use Aa u(2) in auto)
  moreover have "\<forall>vfs. (\<forall>v. v \<noteq> f \<longrightarrow> filelock_lookup (lock_table vfs) v = None) \<longrightarrow>
      link_fc_into_chain (vfs\<lparr>vpool := pool\<rparr>) e \<lparr>ps_vptr = f, pinnedPage = True, ps_bytes = fb\<rparr> ?prev a =
      Some (True, \<lparr>ps_vptr = f, pinnedPage = True, ps_bytes = ?fb\<rparr>, vfs\<lparr>vpool := pool1\<rparr>)"
  proof (intro allI impI)
    fix vfs :: vfs_t assume free: "\<forall>v. v \<noteq> f \<longrightarrow> filelock_lookup (lock_table vfs) v = None"
    have "?prev \<noteq> 0 \<longrightarrow> ?prev \<noteq> f" using last pnz by auto
    then have "?prev \<noteq> 0 \<longrightarrow> filelock_lookup (lock_table vfs) ?prev = None" using free by blast
    then show "link_fc_into_chain (vfs\<lparr>vpool := pool\<rparr>) e \<lparr>ps_vptr = f, pinnedPage = True, ps_bytes = fb\<rparr> ?prev a =
      Some (True, \<lparr>ps_vptr = f, pinnedPage = True, ps_bytes = ?fb\<rparr>, vfs\<lparr>vpool := pool1\<rparr>)"
      by (rule l(1) [THEN spec, THEN mp])
  qed
  moreover have "\<forall>v \<in> ?U. ?S v = S1 v" using Uprev keep by blast
  moreover have "f \<in> dom ?S" using f(1) dom' u(1) by auto
  ultimately show thesis by (intro that [OF _ r(1,2) same_store_trans [OF l(3) r(3)] wf' lf])
qed

section \<open>The walk over the segments\<close>

abbreviation only_lock :: "int \<Rightarrow> vfs_t \<Rightarrow> bool" where
  "only_lock f vfs \<equiv> \<forall>v. v \<noteq> f \<longrightarrow> filelock_lookup (lock_table vfs) v = None"

abbreviation last_segment :: "file_segment list \<Rightarrow> int" where
  "last_segment ss \<equiv> if ss = [] then 0 else fst (last ss)"

abbreviation pinned :: "int \<Rightarrow> bytes \<Rightarrow> PoolSlot" where
  "pinned v b \<equiv> \<lparr>ps_vptr = v, pinnedPage = True, ps_bytes = b\<rparr>"

abbreviation unpinned :: "int \<Rightarrow> bytes \<Rightarrow> PoolSlot" where
  "unpinned v b \<equiv> \<lparr>ps_vptr = v, pinnedPage = False, ps_bytes = b\<rparr>"

text \<open>One missing segment before the target is created.\<close>

lemma segment_create_step:
  assumes rep: "heap_rep pool S P" and f: "f \<in> dom S" "length fb = 32" and wf: "file_wf n (S(f \<mapsto> fb)) P f zs ss"
    and room: "store_room (pool_sb pool) (Suc k)"
  obtains a pool' fb' S' where
    "\<forall>vfs. only_lock f vfs \<longrightarrow> segment_walk (Suc m) e w i None 0 (last_segment ss) (pinned f fb) (vfs\<lparr>vpool := pool\<rparr>) =
       segment_walk m e w i None 0 (last_segment (ss @ [(a, [])])) (pinned f fb') (vfs\<lparr>vpool := pool'\<rparr>)"
    "heap_rep pool' S' P" "f \<in> dom S'" "length fb' = 32" "file_wf n (S'(f \<mapsto> fb')) P f zs (ss @ [(a, [])])"
    "store_room (pool_sb pool') k" "page_size (pool_sb pool') = page_size (pool_sb pool)"
    "heap_grow S (set (file_slots f zs ss)) S' (set (file_slots f zs (ss @ [(a, [])])))"
proof -
  obtain a ab jb pool1 where
    a: "\<forall>vfs. allocate_filecontent (vfs\<lparr>vpool := pool\<rparr>) (int i) False = Some (a, pinned a ab, vfs\<lparr>vpool := pool1\<rparr>)"
      "a \<notin> dom S" "a \<noteq> 0" "i64 a" "heap_rep pool1 (S(a \<mapsto> jb)) P" "length ab = 32" "rd8i ab 8 = 0" "rd8i ab 16 = 0" "rd4 ab 24 = 0"
      "store_room (pool_sb pool1) k" "page_size (pool_sb pool1) = page_size (pool_sb pool)"
    by (rule allocate_empty [OF rep room])
  have us: "new_units n S [] S" by (simp add: new_units_def)
  have h: "rd8i ab 8 = (if [] = [] then 0 else fst (hd []))" "rd4 ab 24 = of_nat (length [])" using a by simp_all
  have af: "a \<noteq> f" using a(2) f(1) by auto
  obtain pool2 pool3 fb' S' where
    l: "\<forall>vfs. only_lock f vfs \<longrightarrow> link_fc_into_chain (vfs\<lparr>vpool := pool1\<rparr>) e (pinned f fb) (last_segment ss) a =
          Some (True, pinned f fb', vfs\<lparr>vpool := pool2\<rparr>)"
      "\<forall>vfs. vfs_release (vfs\<lparr>vpool := pool2\<rparr>) (pinned a ab) = vfs\<lparr>vpool := pool3\<rparr>"
      "heap_rep pool3 S' P" "same_store pool1 pool3" "file_wf n (S'(f \<mapsto> fb')) P f zs (ss @ [(a, [])])" "length fb' = 32" "f \<in> dom S'"
      "heap_grow S (set (file_slots f zs ss)) S' (set (file_slots f zs (ss @ [(a, [])])))"
      "\<forall>v \<in> set (concat (map unit_slots [])). S' v = S v"
    by (rule link_segment [OF a(5) us a(2,4,3) af a(6) h(1) a(8) h(2) f wf])
  have st: "store_room (pool_sb pool3) k" "page_size (pool_sb pool3) = page_size (pool_sb pool)"
    using l(4) a(10,11) by (simp_all add: same_store_def)
  have eq: "\<forall>vfs. only_lock f vfs \<longrightarrow> segment_walk (Suc m) e w i None 0 (last_segment ss) (pinned f fb) (vfs\<lparr>vpool := pool\<rparr>) =
       segment_walk m e w i None 0 (last_segment (ss @ [(a, [])])) (pinned f fb') (vfs\<lparr>vpool := pool3\<rparr>)"
    by (intro allI impI) (simp add: a(1,3) l(1,2))
  show thesis by (rule that [OF eq l(3,7,6,5) st l(8)])
qed

text \<open>The target segment is created with the page node of the page.\<close>

lemma segment_create_last:
  assumes rep: "heap_rep pool S P" and f: "f \<in> dom S" "length fb = 32" and wf: "file_wf n (S(f \<mapsto> fb)) P f zs ss"
    and room: "store_room (pool_sb pool) (Suc (Suc k))" and i: "i < n" "n \<le> 2 ^ 32"
  obtains a u ub pool' S' where
    "\<forall>vfs. only_lock f vfs \<longrightarrow> segment_walk 0 e True i None 0 (last_segment ss) (pinned f fb) (vfs\<lparr>vpool := pool\<rparr>) =
       Some (SegDone (pinned u ub), vfs\<lparr>vpool := pool'\<rparr>)"
    "heap_rep pool' S' P" "file_wf n S' P f zs (ss @ [(a, [(u, of_nat i, [])])])" "S' u = Some ub"
    "store_room (pool_sb pool') k" "page_size (pool_sb pool') = page_size (pool_sb pool)"
    "heap_grow S (set (file_slots f zs ss)) S' (set (file_slots f zs (ss @ [(a, [(u, of_nat i, [])])])))"
proof -
  obtain a ab jb u ub pool1 where
    a: "\<forall>vfs. allocate_filecontent (vfs\<lparr>vpool := pool\<rparr>) (int i) True = Some (a, pinned a ab, vfs\<lparr>vpool := pool1\<rparr>)"
      "a \<notin> dom S" "a \<noteq> 0" "i64 a" "u \<notin> dom S" "u \<noteq> a" "u \<noteq> 0" "i64 u" "heap_rep pool1 (S(u \<mapsto> ub, a \<mapsto> jb)) P"
      "length ab = 32" "rd8i ab 8 = u" "rd8i ab 16 = 0" "rd4 ab 24 = 0" "length ub = 32" "rd4 ub 4 = word_of_int (int i)" "rd8i ub 8 = 0" "rd8i ub 16 = 0"
      "store_room (pool_sb pool1) k" "page_size (pool_sb pool1) = page_size (pool_sb pool)"
    by (rule allocate_page [OF rep room])
  let ?us = "[(u, of_nat i, [])] :: file_unit list"
  have ui: "unat (of_nat i :: u32) = i" using i by (simp add: unat_of_nat take_bit_nat_eq_self)
  have us: "new_units n S ?us (S(u \<mapsto> ub))" using a ui i by (auto simp: new_units_def)
  define ac where "ac = wr4 ab 24 (rd4 ab 24 + 1)"
  have ac: "length ac = 32" "rd8i ac 8 = (if ?us = [] then 0 else fst (hd ?us))" "rd8i ac 16 = 0" "rd4 ac 24 = of_nat (length ?us)"
    using a(10-13) by (simp_all add: ac_def node_fields [OF a(10)])
  have af: "a \<notin> dom (S(u \<mapsto> ub))" "a \<noteq> f" using a(2,6) f(1) by auto
  obtain pool2 pool3 fb' S' where
    l: "\<forall>vfs. only_lock f vfs \<longrightarrow> link_fc_into_chain (vfs\<lparr>vpool := pool1\<rparr>) e (pinned f fb) (last_segment ss) a =
          Some (True, pinned f fb', vfs\<lparr>vpool := pool2\<rparr>)"
      "\<forall>vfs. vfs_release (vfs\<lparr>vpool := pool2\<rparr>) (pinned a ac) = vfs\<lparr>vpool := pool3\<rparr>"
      "heap_rep pool3 S' P" "same_store pool1 pool3" "file_wf n (S'(f \<mapsto> fb')) P f zs (ss @ [(a, ?us)])" "length fb' = 32" "f \<in> dom S'"
      "heap_grow S (set (file_slots f zs ss)) S' (set (file_slots f zs (ss @ [(a, ?us)])))"
      "\<forall>v \<in> set (concat (map unit_slots ?us)). S' v = (S(u \<mapsto> ub)) v"
    by (rule link_segment [OF a(9) us af(1) a(4,3) af(2) ac f wf])
  have Su: "S' u = Some ub" using l(9) by (simp add: unit_slots_def)
  obtain pool4 where q: "\<forall>vfs. vfs_acquire (vfs\<lparr>vpool := pool3\<rparr>) u True = (pinned u ub, vfs\<lparr>vpool := pool4\<rparr>)"
      "heap_rep pool4 S' P" "same_store pool3 pool4" "u \<noteq> 0" "length ub = 32" by (rule at_acquire [OF l(3) Su])
  obtain pool5 where rl: "\<forall>vfs. vfs_release (vfs\<lparr>vpool := pool4\<rparr>) (pinned f fb') = vfs\<lparr>vpool := pool5\<rparr>"
      "heap_rep pool5 (S'(f \<mapsto> fb')) P" "same_store pool4 pool5" by (rule at_release [OF q(2) l(7,6)])
  have st: "store_room (pool_sb pool5) k" "page_size (pool_sb pool5) = page_size (pool_sb pool)"
    using l(4) q(3) rl(3) a(18,19) by (simp_all add: same_store_def)
  have r8: "rd8i (wr4 ab 24 v) 8 = u" for v using node_fields [OF a(10)] a(11) by simp
  have eq: "\<forall>vfs. only_lock f vfs \<longrightarrow> segment_walk 0 e True i None 0 (last_segment ss) (pinned f fb) (vfs\<lparr>vpool := pool\<rparr>) =
       Some (SegDone (pinned u ub), vfs\<lparr>vpool := pool5\<rparr>)"
    using a(3,7) l(2) by (intro allI impI) (simp add: a(1) l(1) ac_def r8 tcache_patch_def q(1) rl(1))
  have uf: "u \<noteq> f" using a(5) f(1) by auto
  have g: "heap_grow S (set (file_slots f zs ss)) (S'(f \<mapsto> fb')) (set (file_slots f zs (ss @ [(a, ?us)])))"
    by (rule heap_grow_upd [OF l(8)]) (simp add: file_slots_def)
  show thesis by (rule that [OF eq rl(2) l(5) _ st g]) (use Su uf in simp)
qed

lemma segment_create_write:
  assumes "heap_rep pool S P" "f \<in> dom S" "length fb = 32" "file_wf n (S(f \<mapsto> fb)) P f zs ss"
    and "store_room (pool_sb pool) (m + Suc (Suc k))" and i: "i < n" "n \<le> 2 ^ 32"
  shows "\<exists>es a u ub pool' S'. (\<forall>s\<in>set es. snd s = []) \<and> length es = m
    \<and> (\<forall>vfs. only_lock f vfs \<longrightarrow> segment_walk m e True i None 0 (last_segment ss) (pinned f fb) (vfs\<lparr>vpool := pool\<rparr>) =
         Some (SegDone (pinned u ub), vfs\<lparr>vpool := pool'\<rparr>))
    \<and> heap_rep pool' S' P \<and> file_wf n S' P f zs (ss @ es @ [(a, [(u, of_nat i, [])])]) \<and> S' u = Some ub
    \<and> store_room (pool_sb pool') k \<and> page_size (pool_sb pool') = page_size (pool_sb pool)
    \<and> heap_grow S (set (file_slots f zs ss)) S' (set (file_slots f zs (ss @ es @ [(a, [(u, of_nat i, [])])])))"
  using assms(1-5)
proof (induction m arbitrary: pool S fb ss)
  case 0
  then have room: "store_room (pool_sb pool) (Suc (Suc k))" by simp
  obtain a u ub pool' S' where
    "\<forall>vfs. only_lock f vfs \<longrightarrow> segment_walk 0 e True i None 0 (last_segment ss) (pinned f fb) (vfs\<lparr>vpool := pool\<rparr>) =
       Some (SegDone (pinned u ub), vfs\<lparr>vpool := pool'\<rparr>)"
    "heap_rep pool' S' P" "file_wf n S' P f zs (ss @ [(a, [(u, of_nat i, [])])])" "S' u = Some ub"
    "store_room (pool_sb pool') k" "page_size (pool_sb pool') = page_size (pool_sb pool)"
    "heap_grow S (set (file_slots f zs ss)) S' (set (file_slots f zs (ss @ [(a, [(u, of_nat i, [])])])))"
    by (rule segment_create_last [OF 0(1-4) room i])
  then show ?case
    by (intro exI [where x = "[]"] exI [where x = a] exI [where x = u] exI [where x = ub] exI [where x = pool'] exI [where x = S'])
      (simp del: segment_walk.simps)
next
  case (Suc m)
  then have room: "store_room (pool_sb pool) (Suc (m + Suc (Suc k)))" by simp
  obtain b pool1 fb1 S1 where
    c: "\<forall>vfs. only_lock f vfs \<longrightarrow> segment_walk (Suc m) e True i None 0 (last_segment ss) (pinned f fb) (vfs\<lparr>vpool := pool\<rparr>) =
       segment_walk m e True i None 0 (last_segment (ss @ [(b, [])])) (pinned f fb1) (vfs\<lparr>vpool := pool1\<rparr>)"
    "heap_rep pool1 S1 P" "f \<in> dom S1" "length fb1 = 32" "file_wf n (S1(f \<mapsto> fb1)) P f zs (ss @ [(b, [])])"
    "store_room (pool_sb pool1) (m + Suc (Suc k))" "page_size (pool_sb pool1) = page_size (pool_sb pool)"
    "heap_grow S (set (file_slots f zs ss)) S1 (set (file_slots f zs (ss @ [(b, [])])))"
    by (rule segment_create_step [OF Suc.prems(1-4) room])
  from Suc.IH [OF c(2-6)] obtain es a u ub pool' S' where
    r: "\<forall>s\<in>set es. snd s = []" "length es = m"
      "\<forall>vfs. only_lock f vfs \<longrightarrow> segment_walk m e True i None 0 (last_segment (ss @ [(b, [])])) (pinned f fb1) (vfs\<lparr>vpool := pool1\<rparr>) =
         Some (SegDone (pinned u ub), vfs\<lparr>vpool := pool'\<rparr>)"
      "heap_rep pool' S' P" "file_wf n S' P f zs ((ss @ [(b, [])]) @ es @ [(a, [(u, of_nat i, [])])])" "S' u = Some ub"
      "store_room (pool_sb pool') k" "page_size (pool_sb pool') = page_size (pool_sb pool1)"
      "heap_grow S1 (set (file_slots f zs (ss @ [(b, [])]))) S' (set (file_slots f zs ((ss @ [(b, [])]) @ es @ [(a, [(u, of_nat i, [])])])))"
    by blast
  from heap_grow_trans [OF c(8) r(9)] r c(1,7) show ?case
    by (intro exI [where x = "(b, []) # es"] exI [where x = a] exI [where x = u] exI [where x = ub] exI [where x = pool'] exI [where x = S'])
      (simp del: segment_walk.simps)
qed

lemma segment_create_read:
  assumes "heap_rep pool S P" "f \<in> dom S" "length fb = 32" "file_wf n (S(f \<mapsto> fb)) P f zs ss" and "store_room (pool_sb pool) (m + k)"
  shows "\<exists>es pool' S'. (\<forall>s\<in>set es. snd s = []) \<and> length es = m
    \<and> (\<forall>vfs. only_lock f vfs \<longrightarrow> segment_walk m e False i None 0 (last_segment ss) (pinned f fb) (vfs\<lparr>vpool := pool\<rparr>) =
         Some (SegFail, vfs\<lparr>vpool := pool'\<rparr>))
    \<and> heap_rep pool' S' P \<and> file_wf n S' P f zs (ss @ es)
    \<and> store_room (pool_sb pool') k \<and> page_size (pool_sb pool') = page_size (pool_sb pool)
    \<and> heap_grow S (set (file_slots f zs ss)) S' (set (file_slots f zs (ss @ es)))"
  using assms
proof (induction m arbitrary: pool S fb ss)
  case 0
  obtain pool' where r: "\<forall>vfs. vfs_release (vfs\<lparr>vpool := pool\<rparr>) (pinned f fb) = vfs\<lparr>vpool := pool'\<rparr>"
      "heap_rep pool' (S(f \<mapsto> fb)) P" "same_store pool pool'" by (rule at_release [OF 0(1-3)])
  have "heap_grow S (set (file_slots f zs ss)) (S(f \<mapsto> fb)) (set (file_slots f zs ss))"
    by (rule heap_grow_upd) (simp_all add: file_slots_def)
  moreover have "\<forall>vfs. segment_walk 0 e False i None 0 (last_segment ss) (pinned f fb) (vfs\<lparr>vpool := pool\<rparr>) = Some (SegFail, vfs\<lparr>vpool := pool'\<rparr>)"
    using r(1) by simp
  ultimately show ?case
    using r(2,3) 0(4,5) by (intro exI [where x = "[]"] exI [where x = pool'] exI [where x = "S(f \<mapsto> fb)"])
      (simp add: same_store_def del: segment_walk.simps fun_upd_apply)
next
  case (Suc m)
  then have room: "store_room (pool_sb pool) (Suc (m + k))" by simp
  obtain b pool1 fb1 S1 where
    c: "\<forall>vfs. only_lock f vfs \<longrightarrow> segment_walk (Suc m) e False i None 0 (last_segment ss) (pinned f fb) (vfs\<lparr>vpool := pool\<rparr>) =
       segment_walk m e False i None 0 (last_segment (ss @ [(b, [])])) (pinned f fb1) (vfs\<lparr>vpool := pool1\<rparr>)"
    "heap_rep pool1 S1 P" "f \<in> dom S1" "length fb1 = 32" "file_wf n (S1(f \<mapsto> fb1)) P f zs (ss @ [(b, [])])"
    "store_room (pool_sb pool1) (m + k)" "page_size (pool_sb pool1) = page_size (pool_sb pool)"
    "heap_grow S (set (file_slots f zs ss)) S1 (set (file_slots f zs (ss @ [(b, [])])))"
    by (rule segment_create_step [OF Suc.prems(1-4) room])
  from Suc.IH [OF c(2-6)] obtain es pool' S' where
    r: "\<forall>s\<in>set es. snd s = []" "length es = m"
      "\<forall>vfs. only_lock f vfs \<longrightarrow> segment_walk m e False i None 0 (last_segment (ss @ [(b, [])])) (pinned f fb1) (vfs\<lparr>vpool := pool1\<rparr>) =
         Some (SegFail, vfs\<lparr>vpool := pool'\<rparr>)"
      "heap_rep pool' S' P" "file_wf n S' P f zs ((ss @ [(b, [])]) @ es)"
      "store_room (pool_sb pool') k" "page_size (pool_sb pool') = page_size (pool_sb pool1)"
      "heap_grow S1 (set (file_slots f zs (ss @ [(b, [])]))) S' (set (file_slots f zs ((ss @ [(b, [])]) @ es)))"
    by blast
  from heap_grow_trans [OF c(8) r(8)] r c(1,7) show ?case
    by (intro exI [where x = "(b, []) # es"] exI [where x = pool'] exI [where x = S']) (simp del: segment_walk.simps)
qed

text \<open>Segments that exist are passed.\<close>

lemma segment_walk_step:
  assumes rep: "heap_rep pool S P" and ab: "S a = Some ab"
  obtains pool' where
    "\<forall>vfs. segment_walk (Suc m) e w i cs a prev fs (vfs\<lparr>vpool := pool\<rparr>) = segment_walk m e w i cs (rd8i ab 16) a fs (vfs\<lparr>vpool := pool'\<rparr>)"
    "heap_rep pool' S P" "same_store pool pool'"
proof -
  obtain pool1 where q: "\<forall>vfs. vfs_acquire (vfs\<lparr>vpool := pool\<rparr>) a True = (pinned a ab, vfs\<lparr>vpool := pool1\<rparr>)"
      "heap_rep pool1 S P" "same_store pool pool1" "a \<noteq> 0" "length ab = 32" by (rule at_acquire [OF rep ab])
  have d: "a \<in> dom S" using ab by auto
  obtain pool2 where r: "\<forall>vfs. vfs_release (vfs\<lparr>vpool := pool1\<rparr>) (pinned a ab) = vfs\<lparr>vpool := pool2\<rparr>"
      "heap_rep pool2 (S(a \<mapsto> ab)) P" "same_store pool1 pool2" by (rule at_release [OF q(2) d q(5)])
  have "S(a \<mapsto> ab) = S" using ab by auto
  with q r same_store_trans [OF q(3) r(3)] show thesis by (intro that [of pool2]) simp_all
qed

lemma segment_walk_found:
  assumes "heap_rep pool S P" "segments_seg S fc suf 0" "m < length suf"
  shows "\<exists>ab pool'. S (fst (suf ! m)) = Some ab \<and> heap_rep pool' S P \<and> same_store pool pool'
    \<and> (\<forall>vfs. segment_walk m e w i cs fc prev fs (vfs\<lparr>vpool := pool\<rparr>) = Some (SegFound (pinned (fst (suf ! m)) ab) fs, vfs\<lparr>vpool := pool'\<rparr>))"
  using assms
proof (induction m arbitrary: pool fc prev suf)
  case 0
  then obtain s suf' where suf: "suf = s # suf'" by (cases suf) auto
  with 0 obtain ab where ab: "fc = fst s" "S fc = Some ab" by auto
  obtain pool1 where "\<forall>vfs. vfs_acquire (vfs\<lparr>vpool := pool\<rparr>) fc True = (pinned fc ab, vfs\<lparr>vpool := pool1\<rparr>)"
      "heap_rep pool1 S P" "same_store pool pool1" "fc \<noteq> 0" "length ab = 32" by (rule at_acquire [OF 0(1) ab(2)])
  with suf ab show ?case by (intro exI [where x = ab] exI [where x = pool1]) simp
next
  case (Suc m)
  then obtain s suf' where suf: "suf = s # suf'" by (cases suf) auto
  with Suc obtain ab where ab: "fc = fst s" "S fc = Some ab" "segments_seg S (rd8i ab 16) suf' 0" by auto
  obtain pool1 where
    st: "\<forall>vfs. segment_walk (Suc m) e w i cs fc prev fs (vfs\<lparr>vpool := pool\<rparr>) = segment_walk m e w i cs (rd8i ab 16) fc fs (vfs\<lparr>vpool := pool1\<rparr>)"
      "heap_rep pool1 S P" "same_store pool pool1" by (rule segment_walk_step [OF Suc.prems(1) ab(2)])
  from Suc.IH [OF st(2) ab(3), of fc] Suc.prems(3) suf obtain cb pool' where
    "S (fst (suf' ! m)) = Some cb" "heap_rep pool' S P" "same_store pool1 pool'"
    "\<forall>vfs. segment_walk m e w i cs (rd8i ab 16) fc fs (vfs\<lparr>vpool := pool1\<rparr>) = Some (SegFound (pinned (fst (suf' ! m)) cb) fs, vfs\<lparr>vpool := pool'\<rparr>)"
    by auto
  with st same_store_trans [OF st(3)] suf show ?case
    by (intro exI [where x = cb] exI [where x = pool']) (simp del: segment_walk.simps)
qed

lemma segment_walk_end:
  assumes "heap_rep pool S P" "segments_seg S fc suf 0" "length suf \<le> m"
  shows "\<exists>pool'. heap_rep pool' S P \<and> same_store pool pool' \<and> (\<forall>vfs. segment_walk m e w i cs fc prev fs (vfs\<lparr>vpool := pool\<rparr>) =
    segment_walk (m - length suf) e w i cs 0 (if suf = [] then prev else fst (last suf)) fs (vfs\<lparr>vpool := pool'\<rparr>))"
  using assms
proof (induction suf arbitrary: m pool fc prev)
  case Nil
  then show ?case by (intro exI [where x = pool]) (simp del: segment_walk.simps)
next
  case (Cons s suf)
  then obtain m' where m: "m = Suc m'" "length suf \<le> m'" by (cases m) auto
  from Cons.prems obtain ab where ab: "fc = fst s" "S fc = Some ab" "segments_seg S (rd8i ab 16) suf 0" by auto
  obtain pool1 where
    st: "\<forall>vfs. segment_walk (Suc m') e w i cs fc prev fs (vfs\<lparr>vpool := pool\<rparr>) = segment_walk m' e w i cs (rd8i ab 16) fc fs (vfs\<lparr>vpool := pool1\<rparr>)"
      "heap_rep pool1 S P" "same_store pool pool1" by (rule segment_walk_step [OF Cons.prems(1) ab(2)])
  from Cons.IH [OF st(2) ab(3) m(2), of fc] obtain pool' where
    "heap_rep pool' S P" "same_store pool1 pool'" "\<forall>vfs. segment_walk m' e w i cs (rd8i ab 16) fc fs (vfs\<lparr>vpool := pool1\<rparr>) =
      segment_walk (m' - length suf) e w i cs 0 (if suf = [] then fc else fst (last suf)) fs (vfs\<lparr>vpool := pool'\<rparr>)" by blast
  with st same_store_trans [OF st(3)] m ab(1) show ?case
    by (intro exI [where x = pool']) (simp del: segment_walk.simps)
qed

section \<open>The page node in a segment\<close>

abbreviation unit_index :: "file_unit \<Rightarrow> u32" where
  "unit_index x \<equiv> fst (snd x)"

abbreviation last_unit :: "file_unit list \<Rightarrow> int \<Rightarrow> int" where
  "last_unit us p \<equiv> if us = [] then p else fst (last us)"

definition page_search :: "u32 \<Rightarrow> file_unit list \<Rightarrow> int \<Rightarrow> find_pageno_state" where
  "page_search i us p =
     (let lo = takeWhile (\<lambda>x. unit_index x < i) us in
      case dropWhile (\<lambda>x. unit_index x < i) us of
        [] \<Rightarrow> \<lparr>found_pn_vp = 0, prev_pn_vp = last_unit lo p, found_higher = False, found = False\<rparr>
      | u # _ \<Rightarrow> if unit_index u = i then \<lparr>found_pn_vp = fst u, prev_pn_vp = last_unit lo p, found_higher = False, found = True\<rparr>
                 else \<lparr>found_pn_vp = 0, prev_pn_vp = last_unit lo p, found_higher = True, found = False\<rparr>)"

lemma page_search_Cons:
  "page_search i (u # us) p = (if unit_index u < i then page_search i us (fst u)
     else if unit_index u = i then \<lparr>found_pn_vp = fst u, prev_pn_vp = p, found_higher = False, found = True\<rparr>
     else \<lparr>found_pn_vp = 0, prev_pn_vp = p, found_higher = True, found = False\<rparr>)"
  by (cases "dropWhile (\<lambda>x. unit_index x < i) us") (simp_all add: page_search_def Let_def del: dropWhile_eq_Nil_conv)

lemma page_search_law:
  assumes rep: "heap_rep pool S P" and us: "units_seg S h us 0"
  obtains n pool' where "walk_content_unit_chain pool h (find_pageno_cb i)
      \<lparr>found_pn_vp = 0, prev_pn_vp = 0, found_higher = False, found = False\<rparr> = Some (n, page_search i us 0, pool')"
    "heap_rep pool' S P" "same_store pool pool'"
proof -
  define cb :: "int \<Rightarrow> bytes \<Rightarrow> find_pageno_state \<Rightarrow> bool \<times> find_pageno_state" where
    "cb = (\<lambda>vp b st. if rd4 b 4 = i then (True, st\<lparr>found_pn_vp := vp, found := True\<rparr>)
       else if rd4 b 4 > i \<and> \<not> found_higher st then (True, st\<lparr>found_higher := True\<rparr>) else (False, st\<lparr>prev_pn_vp := vp\<rparr>))"
  from list_seg_chain [OF us] obtain bs where bs: "chain_at S ANCHOR_OFF_SIBPTR h (zip (map fst us) bs)" "list_all2 (unit_node S) bs us"
    by blast
  have walk: "walk_list cb (zip (map fst us) bs) \<lparr>found_pn_vp = 0, prev_pn_vp = p, found_higher = False, found = False\<rparr> = page_search i us p" for p
    using bs(2)
  proof (induction bs us arbitrary: p rule: list_all2_induct)
    case Nil
    then show ?case by (simp add: page_search_def)
  next
    case (Cons b bs u us)
    then have b: "rd4 b 4 = unit_index u" by (simp add: unit_node_def)
    show ?case
    proof (cases "unit_index u < i")
      case True
      with Cons.IH [of "fst u"] b show ?thesis by (simp add: page_search_Cons cb_def Let_def)
    next
      case False
      with b show ?thesis by (cases "unit_index u = i") (auto simp: page_search_Cons cb_def Let_def)
    qed
  qed
  have cb: "find_pageno_cb i vp b u pool = Some (fst (cb vp b u), snd (cb vp b u), pool)" for vp b u pool
    by (simp add: find_pageno_cb_def cb_def Let_def)
  from walk_anchor_law [OF rep bs(1), of "find_pageno_cb i" cb, OF cb, of 0 "\<lparr>found_pn_vp = 0, prev_pn_vp = 0, found_higher = False, found = False\<rparr>"]
  obtain n pool' where "walk_anchor_from (find_pageno_cb i) h 0 \<lparr>found_pn_vp = 0, prev_pn_vp = 0, found_higher = False, found = False\<rparr> pool =
      Some (n, page_search i us 0, pool')" "heap_rep pool' S P" "same_store pool pool'"
    unfolding walk by blast
  then show thesis by (intro that [of n pool']) (simp_all add: walk_content_unit_chain_def walk_anchor_chain_def)
qed

lemma find_higher_law:
  assumes "heap_rep pool S P" "units_seg S h us 0"
  shows "\<exists>pool'. find_higher_from i h pool = Some (case find (\<lambda>u. i < unit_index u) us of None \<Rightarrow> 0 | Some u \<Rightarrow> fst u, pool')
    \<and> heap_rep pool' S P \<and> same_store pool pool'"
  using assms
proof (induction us arbitrary: h pool)
  case Nil
  then show ?case by (subst find_higher_from.simps) simp
next
  case (Cons u us)
  then obtain b where b: "h = fst u" "S h = Some b" "rd4 b 4 = unit_index u" "units_seg S (rd8i b ANCHOR_OFF_SIBPTR) us 0"
    unfolding list_seg.simps unit_node_def [of S _ u] by blast
  obtain pool1 where p: "pool_acquire pool h False = (unpinned h b, pool1)"
    "\<And>slot. pinnedPage slot = False \<Longrightarrow> pool_release pool1 slot = (slot, pool1)" "heap_rep pool1 S P" "same_store pool pool1" "h \<noteq> 0"
    using heap_peek [OF Cons.prems(1) b(2)] by metis
  show ?case
  proof (cases "i < unit_index u")
    case True
    then show ?thesis using p b(1,3) by (subst find_higher_from.simps) simp
  next
    case False
    from Cons.IH [OF p(3) b(4)] obtain pool' where
      w: "find_higher_from i (rd8i b ANCHOR_OFF_SIBPTR) pool1 = Some (case find (\<lambda>u. i < unit_index u) us of None \<Rightarrow> 0 | Some u \<Rightarrow> fst u, pool')"
        "heap_rep pool' S P" "same_store pool1 pool'" by blast
    have "find_higher_from i h pool = find_higher_from i (rd8i b ANCHOR_OFF_SIBPTR) pool1"
      using p b(3) False by (subst find_higher_from.simps) simp
    with w False same_store_trans [OF p(4) w(3)] show ?thesis by simp
  qed
qed

end
