(* ===== verification/FileResolve.thy ===== *)
theory FileResolve
  imports FileWalk
begin

text \<open>
  \<^verbatim>\<open>tree_resolve_page\<close> as an operation on the representation of a file: it finds or adds the unit of the page and
  changes no version of any page.
\<close>

section \<open>Insertion of a page node\<close>

lemma file_wf_unit:
  assumes wf: "file_wf n V P f zs (ss1 @ (a, us1 @ us2) # ss2)" and at: "file_at V' f zs (ss1 @ (a, us1 @ (u, i, []) # us2) # ss2)"
    and u: "u \<notin> set (file_slots f zs (ss1 @ (a, us1 @ us2) # ss2))"
    and i: "\<forall>x\<in>set us1. unit_index x < i" "\<forall>x\<in>set us2. i < unit_index x" "unat i < n"
  shows "file_wf n V' P f zs (ss1 @ (a, us1 @ (u, i, []) # us2) # ss2)"
proof -
  have "distinct (file_slots f zs (ss1 @ (a, us1 @ (u, i, []) # us2) # ss2)) \<longleftrightarrow>
      distinct (u # file_slots f zs (ss1 @ (a, us1 @ us2) # ss2))"
    by (auto simp: file_slots_def segment_slots_def unit_slots_def)
  moreover have "file_pages (ss1 @ (a, us1 @ (u, i, []) # us2) # ss2) = file_pages (ss1 @ (a, us1 @ us2) # ss2)"
    by (simp add: file_pages_def unit_pages_def)
  moreover have "sorted_wrt (<) (map (\<lambda>x. unat (unit_index x)) (us1 @ (u, i, []) # us2))
      \<and> (\<forall>x\<in>set (us1 @ (u, i, []) # us2). unat (unit_index x) < n)"
    if "sorted_wrt (<) (map (\<lambda>x. unat (unit_index x)) (us1 @ us2))" "\<forall>x\<in>set (us1 @ us2). unat (unit_index x) < n"
    using that i by (auto simp: sorted_wrt_append word_less_nat_alt)
  ultimately show ?thesis using wf at u unfolding file_wf_def by auto
qed

lemma insert_pagenode_steps:
  assumes "vfs_alloc vfs = Some (u, vfs1)" "u \<noteq> 0" "vfs_acquire vfs1 u True = (pinned u jb, vfs2)"
    "(if found_higher st then find_higher_from (of_nat i) (rd8i ab 8) (vpool vfs2) else Some (0, vpool vfs2)) = Some (next_pn, pool3)"
    "vfs_release (vfs2\<lparr>vpool := pool3\<rparr>) (pinned u (nodes_write_pagenode jb
       \<lparr>pn_versionRootPtr = 0, pn_nextPtr = next_pn, pn_page_index = of_nat i\<rparr>)) = vfs4"
    "link_fc_into_chain vfs4 e (pinned a ab) (prev_pn_vp st) u = Some (True, pinned a ac, vfs5)"
  shows "insert_pagenode vfs e i st (pinned a ab) = Some (Some u, pinned a (wr4 ac 24 (rd4 ac 24 + 1)), vfs5)"
proof -
  have find: "(if found_higher st then find_higher_from (of_nat i) (rd8i (ps_bytes (pinned a ab)) 8) (vpool vfs2) else Some (0, vpool vfs2)) =
      Some (next_pn, pool3)" using assms(4) by (simp split: if_splits)
  show ?thesis unfolding insert_pagenode_def link_pn_eq assms(1) using assms(2)
    by (simp only: bind.bind_lunit prod.case if_False assms(3) Let_def find) (simp add: assms(5,6))
qed

lemma insert_pagenode_law:
  assumes rep: "heap_rep pool S P" and wf: "file_wf n S P f zs (ss1 @ (a, us1 @ us2) # ss2)" and ab: "S a = Some ab"
    and i: "\<forall>x\<in>set us1. unit_index x < of_nat i" "\<forall>x\<in>set us2. of_nat i < unit_index x" "i < n" "n \<le> 2 ^ 32"
    and room: "store_room (pool_sb pool) (Suc k)"
  obtains u ub ab' pool' S' where
    "\<forall>vfs. only_lock f vfs \<longrightarrow> insert_pagenode (vfs\<lparr>vpool := pool\<rparr>) e i
        \<lparr>found_pn_vp = 0, prev_pn_vp = last_unit us1 0, found_higher = (us2 \<noteq> []), found = False\<rparr> (pinned a ab) =
      Some (Some u, pinned a ab', vfs\<lparr>vpool := pool'\<rparr>)"
    "heap_rep pool' S' P" "file_wf n (S'(a \<mapsto> ab')) P f zs (ss1 @ (a, us1 @ (u, of_nat i, []) # us2) # ss2)"
    "S' u = Some ub" "u \<noteq> a" "u \<noteq> 0" "length ab' = 32" "a \<in> dom S'" "S' f = S f" "rd4 ab' 24 = of_nat (Suc (length (us1 @ us2)))"
    "store_room (pool_sb pool') k" "page_size (pool_sb pool') = page_size (pool_sb pool)"
    "heap_grow S (set (file_slots f zs (ss1 @ (a, us1 @ us2) # ss2))) S' (set (file_slots f zs (ss1 @ (a, us1 @ (u, of_nat i, []) # us2) # ss2)))"
proof -
  let ?ss = "ss1 @ (a, us1 @ us2) # ss2" and ?prev = "last_unit us1 0"
  let ?A = "set (file_slots f zs ?ss)" and ?i = "of_nat i :: u32"
  have at: "file_at S f zs ?ss" and dist: "distinct (file_slots f zs ?ss)" using wf by (auto simp: file_wf_def)
  have A: "?A \<subseteq> dom S" by (rule file_at_slots [OF at])
  have aA: "a \<in> ?A" "f \<in> ?A" "a \<noteq> f" using dist by (auto simp: file_slots_def segment_slots_def)
  have U: "set (concat (map unit_slots (us1 @ us2))) \<subseteq> ?A" by (auto simp: file_slots_def segment_slots_def)
  from at obtain fb where "segments_seg S (rd8i fb 8) ?ss 0" by (auto simp: file_at_def)
  from list_seg_mem [OF this, of "(a, us1 @ us2)"] ab have units: "units_seg S (rd8i ab 8) (us1 @ us2) 0" "rd4 ab 24 = of_nat (length (us1 @ us2))"
    by (auto simp: segment_node_def)
  obtain u jb pool1 pool2 where
    u: "\<forall>vfs. vfs_alloc (vfs\<lparr>vpool := pool\<rparr>) = Some (u, vfs\<lparr>vpool := pool1\<rparr>)"
      "\<forall>vfs. vfs_acquire (vfs\<lparr>vpool := pool1\<rparr>) u True = (pinned u jb, vfs\<lparr>vpool := pool2\<rparr>)"
      "u \<notin> dom S" "u \<noteq> 0" "i64 u" "length jb = 32" "heap_rep pool2 (S(u \<mapsto> jb)) P" "store_room (pool_sb pool2) k"
      "page_size (pool_sb pool2) = page_size (pool_sb pool)"
    by (rule at_new [OF rep room])
  have uA: "u \<notin> ?A" using u(3) A by auto
  let ?next = "if us2 = [] then 0 else fst (hd us2)"
  have fh: "find (\<lambda>x. ?i < unit_index x) (us1 @ us2) = (if us2 = [] then None else Some (hd us2))"
    using i(1)
  proof (induction us1)
    case Nil
    then show ?case using i(2) by (cases us2) auto
  next
    case (Cons x us1)
    then have "\<not> ?i < unit_index x" by (simp add: order_less_imp_not_less)
    with Cons show ?case by simp
  qed
  have units2: "units_seg (S(u \<mapsto> jb)) (rd8i ab 8) (us1 @ us2) 0"
    by (rule units_seg_cong [OF units(1)]) (use U uA in auto)
  obtain pool3 where h: "(if us2 \<noteq> [] then find_higher_from ?i (rd8i ab 8) pool2 else Some (0, pool2)) = Some (?next, pool3)"
      "heap_rep pool3 (S(u \<mapsto> jb)) P" "same_store pool2 pool3"
  proof (cases "us2 = []")
    case True
    with u(7) show thesis by (intro that [of pool2]) simp_all
  next
    case False
    with find_higher_law [OF u(7) units2, of ?i] fh that show thesis by auto
  qed
  let ?ub = "nodes_write_pagenode jb \<lparr>pn_versionRootPtr = 0, pn_nextPtr = ?next, pn_page_index = ?i\<rparr>"
  have nx: "i64 ?next"
  proof (cases "us2 = []")
    case False
    then have "fst (hd us2) \<in> dom S" using U unit_slots_mem(1) [of "hd us2" "us1 @ us2"] A by auto
    then show ?thesis using nh.slot_shape [OF rep] False by (fastforce simp: i64_def)
  qed (simp add: i64_def)
  have ub: "length ?ub = 32" "rd4 ?ub 4 = ?i" "rd8i ?ub 8 = 0" "rd8i ?ub 16 = ?next"
    using u(6) nx by (simp_all add: node_simps buf_simps)
  have d: "u \<in> dom (S(u \<mapsto> jb))" by simp
  obtain pool4 where r: "\<forall>vfs. vfs_release (vfs\<lparr>vpool := pool3\<rparr>) (pinned u ?ub) = vfs\<lparr>vpool := pool4\<rparr>"
      "heap_rep pool4 ((S(u \<mapsto> jb))(u \<mapsto> ?ub)) P" "same_store pool3 pool4" by (rule at_release [OF h(2) d ub(1)])
  have rep4: "heap_rep pool4 (S(u \<mapsto> ?ub)) P" using r(2) by simp
  have last: "us1 \<noteq> [] \<Longrightarrow> fst (last us1) \<in> ?A \<and> fst (last us1) \<noteq> a \<and> fst (last us1) \<noteq> f"
  proof -
    assume "us1 \<noteq> []"
    then have "fst (last us1) \<in> set (concat (map unit_slots (us1 @ us2)))" by (intro unit_slots_mem(1)) simp
    then show ?thesis using dist U by (auto simp: file_slots_def segment_slots_def)
  qed
  have pnz: "?prev = 0 \<longleftrightarrow> us1 = []" using last A nh.slot_nonzero [OF rep] by (auto split: if_splits)
  define b where "b = the (S (fst (last us1)))"
  have b: "us1 \<noteq> [] \<Longrightarrow> S (fst (last us1)) = Some b \<and> length b = 32 \<and> fst (last us1) \<noteq> u"
    using last A u(3) nh.slot_shape [OF rep, of "fst (last us1)" b] by (auto simp: b_def)
  have pb: "?prev \<noteq> 0 \<Longrightarrow> (S(u \<mapsto> ?ub)) ?prev = Some b" using b pnz by auto
  obtain pool5 where
    l: "\<forall>vfs. (?prev \<noteq> 0 \<longrightarrow> filelock_lookup (lock_table vfs) ?prev = None) \<longrightarrow>
        link_fc_into_chain (vfs\<lparr>vpool := pool4\<rparr>) e (pinned a ab) ?prev u =
        Some (True, pinned a (if ?prev = 0 then wr8i ab 8 u else ab), vfs\<lparr>vpool := pool5\<rparr>)"
      "heap_rep pool5 (if ?prev = 0 then S(u \<mapsto> ?ub) else (S(u \<mapsto> ?ub))(?prev \<mapsto> wr8i b 16 u)) P" "same_store pool4 pool5"
    by (rule link_fc_law [OF rep4 pb])
  define ac where "ac = (if ?prev = 0 then wr8i ab 8 u else ab)"
  define ab' where "ab' = wr4 ac 24 (rd4 ac 24 + 1)"
  define S' where "S' = (if ?prev = 0 then S(u \<mapsto> ?ub) else (S(u \<mapsto> ?ub))(?prev \<mapsto> wr8i b 16 u))"
  have la: "length ab = 32" using nh.slot_shape [OF rep ab] by simp
  have lac: "length ac = 32" using la by (simp add: ac_def node_fields)
  have ab': "length ab' = 32" "rd8i ab' 16 = rd8i ab 16" "rd8i ab' 8 = (if us1 = [] then u else rd8i ab 8)"
      "rd4 ab' 24 = of_nat (length (us1 @ us2)) + 1"
    using pnz node_fields [OF la] node_fields [OF lac] u(5) units(2) by (simp_all add: ab'_def ac_def split: if_splits)
  have keep: "S' v = S v" if "v \<noteq> u" "us1 \<noteq> [] \<longrightarrow> v \<noteq> fst (last us1)" for v
    using that pnz by (auto simp: S'_def)
  have Su: "S' u = Some ?ub" using b pnz by (auto simp: S'_def)
  have ua: "u \<noteq> a" "u \<noteq> f" using uA aA by auto
  have at': "file_at (S'(a \<mapsto> ab')) f zs (ss1 @ (a, us1 @ (u, ?i, []) # us2) # ss2)"
  proof (rule file_at_unit [where V = S and ab = ab and ab' = ab' and ub = ?ub and b = b, OF at dist ab])
    show "S (fst (last us1)) = Some b \<and> (S'(a \<mapsto> ab')) (fst (last us1)) = Some (wr8i b 16 u) \<and> length b = 32" if "us1 \<noteq> []"
      using that b last pnz by (auto simp: S'_def)
    show "(S'(a \<mapsto> ab')) w = S w" if "w \<in> ?A" "w \<noteq> a" "us1 \<noteq> [] \<longrightarrow> w \<noteq> fst (last us1)" for w
    proof -
      have "w \<noteq> u" using that(1) uA by blast
      then show ?thesis using that keep [of w] by simp
    qed
  qed (use ab' ub u(5) Su ua in simp_all)
  have wf': "file_wf n (S'(a \<mapsto> ab')) P f zs (ss1 @ (a, us1 @ (u, ?i, []) # us2) # ss2)"
    by (rule file_wf_unit [OF wf at' uA i(1,2)]) (use i(3,4) in \<open>simp add: unat_of_nat take_bit_nat_eq_self\<close>)
  have dom': "insert u (dom S) \<subseteq> dom S'" by (auto simp: S'_def)
  have slots: "set (file_slots f zs (ss1 @ (a, us1 @ (u, ?i, []) # us2) # ss2)) = insert u ?A"
    by (auto simp: file_slots_def segment_slots_def unit_slots_def)
  have g: "heap_grow S ?A S' (set (file_slots f zs (ss1 @ (a, us1 @ (u, ?i, []) # us2) # ss2)))"
    unfolding heap_grow_def slots
  proof (intro conjI ballI)
    show "S' v = S v" if "v \<in> dom S - ?A" for v using that u(3) last by (intro keep) auto
  qed (use dom' u(3) in auto)
  have eq: "\<forall>vfs. only_lock f vfs \<longrightarrow> insert_pagenode (vfs\<lparr>vpool := pool\<rparr>) e i
        \<lparr>found_pn_vp = 0, prev_pn_vp = ?prev, found_higher = (us2 \<noteq> []), found = False\<rparr> (pinned a ab) =
      Some (Some u, pinned a ab', vfs\<lparr>vpool := pool5\<rparr>)"
  proof (intro allI impI)
    fix vfs :: vfs_t assume free: "only_lock f vfs"
    have "?prev \<noteq> 0 \<longrightarrow> ?prev \<noteq> f" using last pnz by auto
    then have "?prev \<noteq> 0 \<longrightarrow> filelock_lookup (lock_table vfs) ?prev = None" using free by blast
    from l(1) [THEN spec, THEN mp, OF this] show "insert_pagenode (vfs\<lparr>vpool := pool\<rparr>) e i
        \<lparr>found_pn_vp = 0, prev_pn_vp = ?prev, found_higher = (us2 \<noteq> []), found = False\<rparr> (pinned a ab) =
      Some (Some u, pinned a ab', vfs\<lparr>vpool := pool5\<rparr>)"
      unfolding ab'_def ac_def
      by (intro insert_pagenode_steps [where ?vfs1.0 = "vfs\<lparr>vpool := pool1\<rparr>" and ?vfs2.0 = "vfs\<lparr>vpool := pool2\<rparr>" and next_pn = ?next and ?pool3.0 = pool3
            and ?vfs4.0 = "vfs\<lparr>vpool := pool4\<rparr>" and jb = jb])
        (use u(1,2,4) h(1) r(1) in \<open>simp_all split: if_splits\<close>)
  qed
  have st: "store_room (pool_sb pool5) k" "page_size (pool_sb pool5) = page_size (pool_sb pool)"
    using u(8,9) h(3) r(3) l(3) by (simp_all add: same_store_def)
  have Sf: "S' f = S f" using keep [of f] ua last by auto
  show thesis
    by (rule that [OF eq _ wf' Su ua(1) u(4) ab'(1) _ Sf _ st g]) (use l(2) ab'(4) dom' ab in \<open>auto simp: S'_def\<close>)
qed

section \<open>The versions of a page\<close>

definition page_unit :: "nat \<Rightarrow> file_segment list \<Rightarrow> nat \<Rightarrow> file_unit option" where
  "page_unit n ss q =
     (if q div n < length ss then find (\<lambda>x. unat (unit_index x) = q mod n) (snd (ss ! (q div n))) else None)"

definition page_versions :: "nat \<Rightarrow> file_segment list \<Rightarrow> nat \<Rightarrow> file_version list" where
  "page_versions n ss q = (case page_unit n ss q of None \<Rightarrow> [] | Some x \<Rightarrow> snd (snd x))"

lemma page_versions_append:
  assumes "\<forall>s\<in>set es. \<forall>x\<in>set (snd s). snd (snd x) = []"
  shows "page_versions n (ss @ es) = page_versions n ss"
proof
  fix q
  have "snd (snd x) = []" if "find (\<lambda>x. unat (unit_index x) = q mod n) (snd (es ! j)) = Some x" "j < length es" for x j
  proof -
    from that(1) have "x \<in> set (snd (es ! j))" by (auto simp: find_Some_iff)
    with assms nth_mem [OF that(2)] show ?thesis by blast
  qed
  then show "page_versions n (ss @ es) q = page_versions n ss q"
    by (auto simp: page_versions_def page_unit_def nth_append split: option.splits)
qed

lemma file_pages_append:
  assumes "\<forall>s\<in>set es. \<forall>x\<in>set (snd s). snd (snd x) = []"
  shows "file_pages (ss @ es) = file_pages ss"
  using assms by (auto simp: file_pages_def unit_pages_def)

lemma find_insert:
  assumes "\<forall>x\<in>set (us1 @ us2). \<not> Q x"
  shows "find Q (us1 @ y # us2) = (if Q y then Some y else None)" "find Q (us1 @ us2) = None"
  using assms by (induction us1) (auto simp: find_None_iff)

lemma find_insert_other: "\<not> Q y \<Longrightarrow> find Q (us1 @ y # us2) = find Q (us1 @ us2)"
  by (induction us1) auto

lemma page_versions_insert:
  assumes "\<forall>x\<in>set (us1 @ us2). unit_index x \<noteq> i"
  shows "page_versions n (ss1 @ (a, us1 @ (u, i, []) # us2) # ss2) = page_versions n (ss1 @ (a, us1 @ us2) # ss2)"
proof
  fix q
  have "(case find (\<lambda>x. unat (unit_index x) = m) (us1 @ (u, i, []) # us2) of None \<Rightarrow> [] | Some x \<Rightarrow> snd (snd x)) =
      (case find (\<lambda>x. unat (unit_index x) = m) (us1 @ us2) of None \<Rightarrow> [] | Some x \<Rightarrow> snd (snd x))" for m
  proof (cases "unat i = m")
    case True
    then have "\<forall>x\<in>set (us1 @ us2). unat (unit_index x) \<noteq> m" using assms by (metis unsigned_word_eqI)
    from find_insert [OF this] True show ?thesis by simp
  next
    case False
    then show ?thesis by (subst find_insert_other) simp_all
  qed
  then show "page_versions n (ss1 @ (a, us1 @ (u, i, []) # us2) # ss2) q = page_versions n (ss1 @ (a, us1 @ us2) # ss2) q"
    by (auto simp: page_versions_def page_unit_def nth_append nth_Cons')
qed

lemma page_versions_unit:
  assumes "\<forall>x\<in>set (us1 @ us2). unit_index x \<noteq> i" "unat i < n"
  shows "page_versions n (ss1 @ (a, us1 @ (u, i, vs) # us2) # ss2) q =
    (if q = length ss1 * n + unat i then vs else page_versions n (ss1 @ (a, us1 @ us2) # ss2) q)"
proof (cases "q div n = length ss1")
  case True
  then have q: "q = length ss1 * n + q mod n" by (metis div_mult_mod_eq)
  show ?thesis
  proof (cases "unat i = q mod n")
    case True
    then have "\<forall>x\<in>set (us1 @ us2). unat (unit_index x) \<noteq> q mod n" using assms(1) by (metis unsigned_word_eqI)
    from find_insert(1) [OF this] True q \<open>q div n = length ss1\<close> show ?thesis
      by (simp add: page_versions_def page_unit_def)
  next
    case False
    then have "q \<noteq> length ss1 * n + unat i" using q by simp
    with False True show ?thesis by (simp add: page_versions_def page_unit_def find_insert_other)
  qed
next
  case False
  moreover then have "q \<noteq> length ss1 * n + unat i" using assms(2) by auto
  ultimately show ?thesis by (auto simp: page_versions_def page_unit_def nth_append nth_Cons')
qed

lemma sorted_index_unique:
  assumes "sorted_wrt (<) (map (\<lambda>x. unat (unit_index x)) (us1 @ (u, i, vs) # us2))"
  shows "\<forall>x\<in>set (us1 @ us2). unit_index x \<noteq> i" "\<forall>x\<in>set us1. unit_index x < i" "\<forall>x\<in>set us2. i < unit_index x"
  using assms by (auto simp: sorted_wrt_append word_less_nat_alt)

section \<open>The resolution of a page\<close>

abbreviation units_le :: "nat \<Rightarrow> file_segment list \<Rightarrow> bool" where
  "units_le B ss \<equiv> \<forall>s\<in>set ss. length (snd s) \<le> B"

text \<open>The array cache holds no entry for the file.\<close>

definition cold :: "vfs_t \<Rightarrow> int \<Rightarrow> bool" where
  "cold vfs f \<longleftrightarrow> (\<forall>j. tcache_slot vfs (tcache_key f j) = None)"

lemma cold_upd [simp]: "cold (vfs\<lparr>vpool := pool\<rparr>) f = cold vfs f" "cold (vfs\<lparr>lock_table := t\<rparr>) f = cold vfs f"
  "cold (vfs\<lparr>last_error := er\<rparr>) f = cold vfs f"
  by (simp_all add: cold_def tcache_slot_def)

lemma tcache_lookup_cold: "cold vfs f \<Longrightarrow> tcache_lookup vfs (tcache_key f j) i = Some (None, None, vfs)"
  by (simp add: cold_def tcache_lookup_def)

lemma tcache_patch_None [simp]: "tcache_patch vfs None i v = Some vfs"
  by (simp add: tcache_patch_def)

lemma tcache_populate_small:
  assumes "rd4 ab 24 = of_nat c" "c < 64"
  shows "tcache_populate vfs (pinned a ab) key = Some vfs"
proof -
  have "sint (of_nat c :: u32) = int c" using assms(2) by (simp add: signed_of_nat signed_take_bit_int_eq_self)
  then show ?thesis using assms by (simp add: tcache_populate_def)
qed

lemma resolve_start:
  assumes n: "unat (vfs_segment_size vfs) = n" "0 < n" and cold: "cold vfs f"
    and acq: "vfs_acquire vfs f True = (pinned f fb, vfs\<lparr>vpool := pool1\<rparr>)" "f \<noteq> 0"
    and walk: "segment_walk (q div n) e w (q mod n) None (rd8i fb 8) 0 (pinned f fb) (vfs\<lparr>vpool := pool1\<rparr>) = Some (sw, vfs2)"
  shows "tree_resolve_page vfs f (int q) e w =
    (case sw of SegFail \<Rightarrow> Some (False, zero_slot, vfs2) | SegDone out \<Rightarrow> Some (True, out, vfs2)
     | SegFound fc_slot file_slot \<Rightarrow>
         resolve_in_segment vfs2 (tcache_key f (int (q div n))) e w (q mod n) None fc_slot file_slot)"
proof -
  have u: "uint (vfs_segment_size vfs) = int n" using n(1) unfolding n(1) [symmetric] by simp
  have d: "int q div int n = int (q div n)" "nat (int q mod int n) = q mod n" by (simp_all add: zdiv_int nat_mod_distrib)
  have c: "tcache_lookup (vfs\<lparr>vpool := pool1\<rparr>) (tcache_key f j) i = Some (None, None, vfs\<lparr>vpool := pool1\<rparr>)" for i j
    using cold by (intro tcache_lookup_cold) simp
  have h: "fn_headPtr (nodes_read_filenode fb) = rd8i fb 8" by (simp add: nodes_read_filenode_def)
  show ?thesis using n(2) acq(2) unfolding tree_resolve_page_def u Let_def acq(1)
    by (cases sw) (simp_all add: d c h walk)
qed

lemma page_search_hit:
  assumes "\<forall>x\<in>set us1. unit_index x < i"
  shows "page_search i (us1 @ (u, i, vs) # us2) p = \<lparr>found_pn_vp = u, prev_pn_vp = last_unit us1 p, found_higher = False, found = True\<rparr>"
  using assms by (induction us1 arbitrary: p) (auto simp: page_search_Cons)

lemma page_search_miss:
  assumes "\<forall>x\<in>set us1. unit_index x < i" "\<forall>x\<in>set us2. i < unit_index x"
  shows "page_search i (us1 @ us2) p = \<lparr>found_pn_vp = 0, prev_pn_vp = last_unit us1 p, found_higher = (us2 \<noteq> []), found = False\<rparr>"
  using assms(1)
proof (induction us1 arbitrary: p)
  case Nil
  then show ?case
  proof (cases us2)
    case (Cons x xs)
    then have "i < unit_index x" using assms(2) by simp
    then have "\<not> unit_index x < i" "unit_index x \<noteq> i" by auto
    with Cons show ?thesis by (simp add: page_search_Cons)
  qed (simp add: page_search_def)
qed (auto simp: page_search_Cons)

lemma sorted_units_cases:
  assumes sorted: "sorted_wrt (<) (map (\<lambda>x. unat (unit_index x)) us)"
  obtains (hit) us1 u vs us2 where "us = us1 @ (u, i, vs) # us2" "\<forall>x\<in>set us1. unit_index x < i" "\<forall>x\<in>set us2. i < unit_index x"
  | (miss) us1 us2 where "us = us1 @ us2" "\<forall>x\<in>set us1. unit_index x < i" "\<forall>x\<in>set us2. i < unit_index x"
proof -
  let ?lo = "takeWhile (\<lambda>x. unit_index x < i) us" and ?hi = "dropWhile (\<lambda>x. unit_index x < i) us"
  have lo: "\<forall>x\<in>set ?lo. unit_index x < i" by (auto dest: set_takeWhileD)
  have hi: "sorted_wrt (<) (map (\<lambda>x. unat (unit_index x)) ?hi)"
  proof -
    have "sorted_wrt (<) (map (\<lambda>x. unat (unit_index x)) (?lo @ ?hi))" using sorted by simp
    then show ?thesis by (simp only: map_append sorted_wrt_append)
  qed
  show thesis
  proof (cases ?hi)
    case Nil
    with lo takeWhile_dropWhile_id [of "\<lambda>x. unit_index x < i" us] show thesis by (intro miss [of us "[]"]) (simp_all add: dropWhile_eq_Nil_conv)
  next
    case (Cons y ys)
    have us: "us = ?lo @ y # ys" using takeWhile_dropWhile_id [of "\<lambda>x. unit_index x < i" us] Cons by simp
    have "\<not> unit_index y < i" using hd_dropWhile [of "\<lambda>x. unit_index x < i" us] Cons by simp
    then consider "unit_index y = i" | "i < unit_index y" using not_less_iff_gr_or_eq [of "unit_index y" i] by metis
    moreover have ys: "\<forall>x\<in>set ys. unit_index y < unit_index x" using hi Cons by (auto simp: word_less_nat_alt)
    ultimately show thesis
    proof cases
      case 1
      with us lo ys show thesis by (intro hit [of ?lo "fst y" "snd (snd y)" ys]) auto
    next
      case 2
      with us lo ys show thesis by (intro miss [of ?lo "y # ys"]) auto
    qed
  qed
qed

text \<open>The end of the second step: both slots are stored back and the page node is read.\<close>

lemma resolve_finish:
  assumes rep: "heap_rep pool S P" and a: "a \<in> dom S" "length ab = 32" "a \<noteq> f" and f: "S f = Some fb" and u: "S u = Some ub" "u \<noteq> a"
    and c: "rd4 ab 24 = of_nat c" "c < 64"
  obtains pool' where "\<forall>vfs. do {
       vfs \<leftarrow> tcache_populate (vfs\<lparr>vpool := pool\<rparr>) (pinned a ab) key;
       let vfs = vfs_release (vfs_release vfs (pinned a ab)) (pinned f fb);
       let (out, vfs) = vfs_acquire vfs u w;
       Some (ps_vptr out \<noteq> 0, out, vfs) } = Some (True, \<lparr>ps_vptr = u, pinnedPage = w, ps_bytes = ub\<rparr>, vfs\<lparr>vpool := pool'\<rparr>)"
    "heap_rep pool' (S(a \<mapsto> ab)) P" "same_store pool pool'"
proof -
  obtain pool1 where r: "\<forall>vfs. vfs_release (vfs\<lparr>vpool := pool\<rparr>) (pinned a ab) = vfs\<lparr>vpool := pool1\<rparr>"
      "heap_rep pool1 (S(a \<mapsto> ab)) P" "same_store pool pool1" by (rule at_release [OF rep a(1,2)])
  have f': "f \<in> dom (S(a \<mapsto> ab))" "length fb = 32" "(S(a \<mapsto> ab))(f \<mapsto> fb) = S(a \<mapsto> ab)"
    using f a(3) nh.slot_shape [OF rep f] by auto
  obtain pool2 where s: "\<forall>vfs. vfs_release (vfs\<lparr>vpool := pool1\<rparr>) (pinned f fb) = vfs\<lparr>vpool := pool2\<rparr>"
      "heap_rep pool2 ((S(a \<mapsto> ab))(f \<mapsto> fb)) P" "same_store pool1 pool2" by (rule at_release [OF r(2) f'(1,2)])
  have rep2: "heap_rep pool2 (S(a \<mapsto> ab)) P" "(S(a \<mapsto> ab)) u = Some ub" using s(2) u unfolding f'(3) by simp_all
  obtain pool3 where q: "\<forall>vfs. vfs_acquire (vfs\<lparr>vpool := pool2\<rparr>) u w = (\<lparr>ps_vptr = u, pinnedPage = w, ps_bytes = ub\<rparr>, vfs\<lparr>vpool := pool3\<rparr>)"
      "heap_rep pool3 (S(a \<mapsto> ab)) P" "same_store pool2 pool3" "u \<noteq> 0" "length ub = 32" by (rule at_acquire [OF rep2])
  show thesis
    by (rule that [of pool3]) (use q(2,4) same_store_trans [OF same_store_trans [OF r(3) s(3)] q(3)] in
        \<open>simp_all add: tcache_populate_small [OF c] r(1) s(1) q(1)\<close>)
qed

lemma resolve_hit:
  assumes rep: "heap_rep pool S P" and us: "units_seg S (rd8i ab 8) (us1 @ (u, of_nat j, vs) # us2) 0" "\<forall>x\<in>set us1. unit_index x < of_nat j"
    and a: "S a = Some ab" "a \<noteq> f" "u \<noteq> a" and f: "S f = Some fb" and c: "rd4 ab 24 = of_nat c" "c < 64"
  obtains ub pool' where "\<forall>vfs. resolve_in_segment (vfs\<lparr>vpool := pool\<rparr>) key e w j None (pinned a ab) (pinned f fb) =
      Some (True, \<lparr>ps_vptr = u, pinnedPage = w, ps_bytes = ub\<rparr>, vfs\<lparr>vpool := pool'\<rparr>)"
    "S u = Some ub" "heap_rep pool' S P" "same_store pool pool'"
proof -
  obtain m pool1 where s: "walk_content_unit_chain pool (rd8i ab 8) (find_pageno_cb (of_nat j))
      \<lparr>found_pn_vp = 0, prev_pn_vp = 0, found_higher = False, found = False\<rparr> = Some (m, page_search (of_nat j) (us1 @ (u, of_nat j, vs) # us2) 0, pool1)"
    "heap_rep pool1 S P" "same_store pool pool1" by (rule page_search_law [OF rep us(1)])
  from list_seg_mem [OF us(1), of "(u, of_nat j, vs)"] obtain ub where ub: "S u = Some ub" by auto
  have l: "a \<in> dom S" "length ab = 32" "S(a \<mapsto> ab) = S" using a(1) nh.slot_shape [OF rep a(1)] by auto
  obtain pool2 where r: "\<forall>vfs. do {
       vfs \<leftarrow> tcache_populate (vfs\<lparr>vpool := pool1\<rparr>) (pinned a ab) key;
       let vfs = vfs_release (vfs_release vfs (pinned a ab)) (pinned f fb);
       let (out, vfs) = vfs_acquire vfs u w;
       Some (ps_vptr out \<noteq> 0, out, vfs) } = Some (True, \<lparr>ps_vptr = u, pinnedPage = w, ps_bytes = ub\<rparr>, vfs\<lparr>vpool := pool2\<rparr>)"
    "heap_rep pool2 (S(a \<mapsto> ab)) P" "same_store pool1 pool2" by (rule resolve_finish [OF s(2) l(1,2) a(2) f ub a(3) c])
  show thesis
    by (rule that [of ub pool2])
      (use r l(3) ub same_store_trans [OF s(3) r(3)] in \<open>simp_all add: resolve_in_segment_def s(1) page_search_hit [OF us(2)] Let_def\<close>)
qed

lemma resolve_miss_read:
  assumes rep: "heap_rep pool S P" and us: "units_seg S (rd8i ab 8) (us1 @ us2) 0" "\<forall>x\<in>set us1. unit_index x < of_nat j" "\<forall>x\<in>set us2. of_nat j < unit_index x"
    and a: "S a = Some ab" and f: "S f = Some fb"
  obtains pool' where "\<forall>vfs. resolve_in_segment (vfs\<lparr>vpool := pool\<rparr>) key e False j None (pinned a ab) (pinned f fb) =
      Some (False, zero_slot, vfs\<lparr>vpool := pool'\<rparr>)" "heap_rep pool' S P" "same_store pool pool'"
proof -
  obtain m pool1 where s: "walk_content_unit_chain pool (rd8i ab 8) (find_pageno_cb (of_nat j))
      \<lparr>found_pn_vp = 0, prev_pn_vp = 0, found_higher = False, found = False\<rparr> = Some (m, page_search (of_nat j) (us1 @ us2) 0, pool1)"
    "heap_rep pool1 S P" "same_store pool pool1" by (rule page_search_law [OF rep us(1)])
  have l: "a \<in> dom S" "length ab = 32" "S(a \<mapsto> ab) = S" "f \<in> dom S" "length fb = 32" "S(f \<mapsto> fb) = S"
    using a f nh.slot_shape [OF rep a] nh.slot_shape [OF rep f] by auto
  obtain pool2 where r: "\<forall>vfs. vfs_release (vfs\<lparr>vpool := pool1\<rparr>) (pinned a ab) = vfs\<lparr>vpool := pool2\<rparr>"
      "heap_rep pool2 (S(a \<mapsto> ab)) P" "same_store pool1 pool2" by (rule at_release [OF s(2) l(1,2)])
  have rep2: "heap_rep pool2 S P" using r(2) l(3) by simp
  obtain pool3 where t: "\<forall>vfs. vfs_release (vfs\<lparr>vpool := pool2\<rparr>) (pinned f fb) = vfs\<lparr>vpool := pool3\<rparr>"
      "heap_rep pool3 (S(f \<mapsto> fb)) P" "same_store pool2 pool3" by (rule at_release [OF rep2 l(4,5)])
  show thesis
    by (rule that [of pool3]) (use t(2) l(6) same_store_trans [OF same_store_trans [OF s(3) r(3)] t(3)] in
        \<open>simp_all add: resolve_in_segment_def s(1) page_search_miss [OF us(2,3)] r(1) t(1)\<close>)
qed

lemma file_segment_at:
  assumes wf: "file_wf n S P f zs (ss1 @ (a, us) # ss2)"
  obtains ab where "S a = Some ab" "units_seg S (rd8i ab 8) us 0" "rd4 ab 24 = of_nat (length us)"
    "sorted_wrt (<) (map (\<lambda>x. unat (unit_index x)) us)" "\<forall>x\<in>set us. unat (unit_index x) < n" "a \<noteq> f" "a \<notin> fst ` set us"
proof -
  have at: "file_at S f zs (ss1 @ (a, us) # ss2)" and dist: "distinct (file_slots f zs (ss1 @ (a, us) # ss2))"
    and srt: "\<forall>s\<in>set (ss1 @ (a, us) # ss2). sorted_wrt (<) (map (\<lambda>x. unat (unit_index x)) (snd s)) \<and> (\<forall>x\<in>set (snd s). unat (unit_index x) < n)"
    using wf by (simp_all add: file_wf_def)
  from at obtain fb where "segments_seg S (rd8i fb 8) (ss1 @ (a, us) # ss2) 0" by (auto simp: file_at_def)
  from list_seg_mem [OF this, of "(a, us)"] obtain ab where ab: "S a = Some ab" "units_seg S (rd8i ab 8) us 0" "rd4 ab 24 = of_nat (length us)"
    unfolding segment_node_def by fastforce
  have "a \<noteq> f" "a \<notin> set (concat (map unit_slots us))" using dist by (auto simp: file_slots_def segment_slots_def)
  moreover have "fst ` set us \<subseteq> set (concat (map unit_slots us))" using unit_slots_mem(1) [of _ us] by blast
  ultimately have "a \<noteq> f" "a \<notin> fst ` set us" by blast+
  with ab srt show thesis by (intro that [of ab]) simp_all
qed

lemma file_head:
  assumes "file_wf n S P f zs ss"
  obtains fb where "S f = Some fb" "rd2 fb 0 = NODE_TYPE_FILE" "sizes_at S (rd8i fb 16) zs" "segments_seg S (rd8i fb 8) ss 0"
  using assms by (auto simp: file_wf_def file_at_def)

lemma resolve_miss_write:
  assumes rep: "heap_rep pool S P" and wf: "file_wf n S P f zs (ss1 @ (a, us1 @ us2) # ss2)" and ab: "S a = Some ab" and f: "S f = Some fb"
    and i: "\<forall>x\<in>set us1. unit_index x < of_nat i" "\<forall>x\<in>set us2. of_nat i < unit_index x" "i < n" "n \<le> 2 ^ 32"
    and room: "store_room (pool_sb pool) (Suc k)" and len: "length (us1 @ us2) < 63"
  obtains u ub pool' S' where
    "\<forall>vfs. only_lock f vfs \<longrightarrow> resolve_in_segment (vfs\<lparr>vpool := pool\<rparr>) key e True i None (pinned a ab) (pinned f fb) =
       Some (True, pinned u ub, vfs\<lparr>vpool := pool'\<rparr>)"
    "heap_rep pool' S' P" "file_wf n S' P f zs (ss1 @ (a, us1 @ (u, of_nat i, []) # us2) # ss2)" "S' u = Some ub"
    "store_room (pool_sb pool') k" "page_size (pool_sb pool') = page_size (pool_sb pool)"
    "heap_grow S (set (file_slots f zs (ss1 @ (a, us1 @ us2) # ss2))) S' (set (file_slots f zs (ss1 @ (a, us1 @ (u, of_nat i, []) # us2) # ss2)))"
proof -
  obtain ac where ac: "S a = Some ac" "units_seg S (rd8i ac 8) (us1 @ us2) 0" "rd4 ac 24 = of_nat (length (us1 @ us2))"
      "sorted_wrt (<) (map (\<lambda>x. unat (unit_index x)) (us1 @ us2))" "\<forall>x\<in>set (us1 @ us2). unat (unit_index x) < n" "a \<noteq> f" "a \<notin> fst ` set (us1 @ us2)"
    by (rule file_segment_at [OF wf])
  have units: "units_seg S (rd8i ab 8) (us1 @ us2) 0" using ac ab by simp
  obtain m pool1 where s: "walk_content_unit_chain pool (rd8i ab 8) (find_pageno_cb (of_nat i))
      \<lparr>found_pn_vp = 0, prev_pn_vp = 0, found_higher = False, found = False\<rparr> = Some (m, page_search (of_nat i) (us1 @ us2) 0, pool1)"
    "heap_rep pool1 S P" "same_store pool pool1" by (rule page_search_law [OF rep units])
  have room1: "store_room (pool_sb pool1) (Suc k)" using room s(3) by (simp add: same_store_def)
  obtain u ub ab' pool3 S3 where
    m: "\<forall>vfs. only_lock f vfs \<longrightarrow> insert_pagenode (vfs\<lparr>vpool := pool1\<rparr>) e i
        \<lparr>found_pn_vp = 0, prev_pn_vp = last_unit us1 0, found_higher = (us2 \<noteq> []), found = False\<rparr> (pinned a ab) =
      Some (Some u, pinned a ab', vfs\<lparr>vpool := pool3\<rparr>)"
    "heap_rep pool3 S3 P" "file_wf n (S3(a \<mapsto> ab')) P f zs (ss1 @ (a, us1 @ (u, of_nat i, []) # us2) # ss2)"
    "S3 u = Some ub" "u \<noteq> a" "u \<noteq> 0" "length ab' = 32" "a \<in> dom S3" "S3 f = S f" "rd4 ab' 24 = of_nat (Suc (length (us1 @ us2)))"
    "store_room (pool_sb pool3) k" "page_size (pool_sb pool3) = page_size (pool_sb pool1)"
    "heap_grow S (set (file_slots f zs (ss1 @ (a, us1 @ us2) # ss2))) S3 (set (file_slots f zs (ss1 @ (a, us1 @ (u, of_nat i, []) # us2) # ss2)))"
    by (rule insert_pagenode_law [OF s(2) wf ab i room1])
  have c: "Suc (length (us1 @ us2)) < 64" and f3: "S3 f = Some fb" using len m(9) f by simp_all
  obtain pool4 where r: "\<forall>vfs. do {
       vfs \<leftarrow> tcache_populate (vfs\<lparr>vpool := pool3\<rparr>) (pinned a ab') key;
       let vfs = vfs_release (vfs_release vfs (pinned a ab')) (pinned f fb);
       let (out, vfs) = vfs_acquire vfs u True;
       Some (ps_vptr out \<noteq> 0, out, vfs) } = Some (True, pinned u ub, vfs\<lparr>vpool := pool4\<rparr>)"
    "heap_rep pool4 (S3(a \<mapsto> ab')) P" "same_store pool3 pool4" by (rule resolve_finish [OF m(2,8,7) ac(6) f3 m(4,5,10) c])
  have eq: "\<forall>vfs. only_lock f vfs \<longrightarrow> resolve_in_segment (vfs\<lparr>vpool := pool\<rparr>) key e True i None (pinned a ab) (pinned f fb) =
       Some (True, pinned u ub, vfs\<lparr>vpool := pool4\<rparr>)"
    using m(1) r(1) by (simp add: resolve_in_segment_def s(1) page_search_miss [OF i(1,2)])
  have st: "store_room (pool_sb pool4) k" "page_size (pool_sb pool4) = page_size (pool_sb pool)"
    using m(11,12) r(3) s(3) by (simp_all add: same_store_def)
  show thesis
    by (rule that [OF eq r(2) m(3) _ st heap_grow_upd [OF m(13)]]) (use m(4,5) in \<open>auto simp: file_slots_def segment_slots_def\<close>)
qed

lemma resolve_write:
  assumes rep: "heap_rep pool S P" and wf: "file_wf n S P f zs ss" and n: "0 < n" "n \<le> 2 ^ 32" and small: "units_le B ss" "B < 63"
    and room: "store_room (pool_sb pool) (q div n + Suc (Suc k))"
  obtains ss1 a us1 u ub us2 ss2 pool' S' where
    "\<forall>vfs. only_lock f vfs \<and> cold vfs f \<and> unat (vfs_segment_size vfs) = n \<longrightarrow>
       tree_resolve_page (vfs\<lparr>vpool := pool\<rparr>) f (int q) e True = Some (True, pinned u ub, vfs\<lparr>vpool := pool'\<rparr>)"
    "heap_rep pool' S' P" "file_wf n S' P f zs (ss1 @ (a, us1 @ (u, of_nat (q mod n), page_versions n ss q) # us2) # ss2)" "length ss1 = q div n"
    "S' u = Some ub" "store_room (pool_sb pool') k" "page_size (pool_sb pool') = page_size (pool_sb pool)"
    "heap_grow S (set (file_slots f zs ss)) S' (set (file_slots f zs (ss1 @ (a, us1 @ (u, of_nat (q mod n), page_versions n ss q) # us2) # ss2)))"
    "page_versions n (ss1 @ (a, us1 @ (u, of_nat (q mod n), page_versions n ss q) # us2) # ss2) = page_versions n ss"
    "units_le (Suc B) (ss1 @ (a, us1 @ (u, of_nat (q mod n), page_versions n ss q) # us2) # ss2)"
    "file_pages (ss1 @ (a, us1 @ (u, of_nat (q mod n), page_versions n ss q) # us2) # ss2) = file_pages ss"
proof -
  let ?j = "q div n" and ?i = "q mod n"
  let ?w = "of_nat ?i :: u32"
  obtain fb where fb: "S f = Some fb" "rd2 fb 0 = NODE_TYPE_FILE" "sizes_at S (rd8i fb 16) zs" "segments_seg S (rd8i fb 8) ss 0" by (rule file_head [OF wf])
  obtain pool1 where q: "\<forall>vfs. vfs_acquire (vfs\<lparr>vpool := pool\<rparr>) f True = (pinned f fb, vfs\<lparr>vpool := pool1\<rparr>)"
      "heap_rep pool1 S P" "same_store pool pool1" "f \<noteq> 0" "length fb = 32" by (rule at_acquire [OF rep fb(1)])
  have room1: "store_room (pool_sb pool1) (?j + Suc (Suc k))" "page_size (pool_sb pool1) = page_size (pool_sb pool)"
    using room q(3) by (simp_all add: same_store_def)
  have ps: "page_versions n ss q = (if ?j < length ss then case find (\<lambda>x. unat (unit_index x) = ?i) (snd (ss ! ?j)) of None \<Rightarrow> [] | Some x \<Rightarrow> snd (snd x) else [])"
    by (simp add: page_versions_def page_unit_def)
  have "?i < n" using n(1) by simp
  moreover then have "?i < 2 ^ 32" using n(2) by linarith
  ultimately have iw: "unat ?w = ?i" "?i < n" by (simp_all add: unat_of_nat take_bit_nat_eq_self)
  have start: "tree_resolve_page (vfs\<lparr>vpool := pool\<rparr>) f (int q) e True = (case sw of SegFail \<Rightarrow> Some (False, zero_slot, vfs2) | SegDone out \<Rightarrow> Some (True, out, vfs2)
       | SegFound fc_slot file_slot \<Rightarrow> resolve_in_segment vfs2 (tcache_key f (int ?j)) e True ?i None fc_slot file_slot)"
    if "cold vfs f" "unat (vfs_segment_size vfs) = n"
      "segment_walk ?j e True ?i None (rd8i fb 8) 0 (pinned f fb) (vfs\<lparr>vpool := pool1\<rparr>) = Some (sw, vfs2)" for vfs sw vfs2
    by (rule resolve_start [where ?pool1.0 = pool1 and fb = fb]) (use that n q(1,4) in simp_all)
  show thesis
  proof (cases "?j < length ss")
    case False
    from segment_walk_end [OF q(2) fb(4), of ?j e True ?i None 0 "pinned f fb"] False obtain pool2 where
      w: "heap_rep pool2 S P" "same_store pool1 pool2" "\<forall>vfs. segment_walk ?j e True ?i None (rd8i fb 8) 0 (pinned f fb) (vfs\<lparr>vpool := pool1\<rparr>) =
        segment_walk (?j - length ss) e True ?i None 0 (last_segment ss) (pinned f fb) (vfs\<lparr>vpool := pool2\<rparr>)" by auto
    have Sf: "S(f \<mapsto> fb) = S" "f \<in> dom S" using fb(1) by auto
    have room2: "store_room (pool_sb pool2) ((?j - length ss) + Suc (Suc k))" "page_size (pool_sb pool2) = page_size (pool_sb pool)"
      using nh.room_mono [of pool1 _ "(?j - length ss) + Suc (Suc k)"] room1 w(2) by (auto simp: same_store_def)
    have wf': "file_wf n (S(f \<mapsto> fb)) P f zs ss" using wf Sf by simp
    from segment_create_write [OF w(1) Sf(2) q(5) wf' room2(1) iw(2) n(2), of e] obtain es a u ub pool' S' where
      c: "\<forall>s\<in>set es. snd s = []" "length es = ?j - length ss"
        "\<forall>vfs. only_lock f vfs \<longrightarrow> segment_walk (?j - length ss) e True ?i None 0 (last_segment ss) (pinned f fb) (vfs\<lparr>vpool := pool2\<rparr>) =
           Some (SegDone (pinned u ub), vfs\<lparr>vpool := pool'\<rparr>)"
        "heap_rep pool' S' P" "file_wf n S' P f zs (ss @ es @ [(a, [(u, ?w, [])])])" "S' u = Some ub"
        "store_room (pool_sb pool') k" "page_size (pool_sb pool') = page_size (pool_sb pool2)"
        "heap_grow S (set (file_slots f zs ss)) S' (set (file_slots f zs (ss @ es @ [(a, [(u, ?w, [])])])))" by blast
    have eq: "\<forall>vfs. only_lock f vfs \<and> cold vfs f \<and> unat (vfs_segment_size vfs) = n \<longrightarrow>
       tree_resolve_page (vfs\<lparr>vpool := pool\<rparr>) f (int q) e True = Some (True, pinned u ub, vfs\<lparr>vpool := pool'\<rparr>)"
      using w(3) c(3) by (intro allI impI) (subst start, auto)
    have pv: "page_versions n (ss @ es @ [(a, [(u, ?w, [])])]) = page_versions n ss" by (rule page_versions_append) (use c(1) in auto)
    have vs: "page_versions n ss q = []" using ps False by simp
    have fp: "file_pages (ss @ es @ [(a, [(u, ?w, [])])]) = file_pages ss" by (rule file_pages_append) (use c(1) in auto)
    show thesis
      by (rule that [of u ub pool' S' "ss @ es" a "[]" "[]" "[]"])
        (use eq c(2,4-9) vs pv False room2(2) small(1) c(1) fp in \<open>auto simp: le_SucI\<close>)
  next
    case True
    then obtain ss1 a us ss2 where ss: "ss = ss1 @ (a, us) # ss2" "length ss1 = ?j" by (metis id_take_nth_drop length_take min.absorb4 surj_pair)
    obtain ab where ab: "S a = Some ab" "units_seg S (rd8i ab 8) us 0" "rd4 ab 24 = of_nat (length us)"
      "sorted_wrt (<) (map (\<lambda>x. unat (unit_index x)) us)" "\<forall>x\<in>set us. unat (unit_index x) < n" "a \<noteq> f" "a \<notin> fst ` set us"
      using file_segment_at [OF wf [unfolded ss]] by metis
    have len: "length us < 63" "length us \<le> B" using small ss(1) by auto
    from segment_walk_found [OF q(2) fb(4) True, of e True ?i None 0 "pinned f fb"] ss ab(1) obtain pool2 where
      w: "heap_rep pool2 S P" "same_store pool1 pool2" "\<forall>vfs. segment_walk ?j e True ?i None (rd8i fb 8) 0 (pinned f fb) (vfs\<lparr>vpool := pool1\<rparr>) =
        Some (SegFound (pinned a ab) (pinned f fb), vfs\<lparr>vpool := pool2\<rparr>)" by (auto simp: nth_append)
    have st2: "store_room (pool_sb pool2) (Suc k)" "store_room (pool_sb pool2) k" "page_size (pool_sb pool2) = page_size (pool_sb pool)"
      using nh.room_mono [of pool1 _ "Suc k"] nh.room_mono [of pool1 _ k] room1 w(2) by (auto simp: same_store_def)
    from ab(4) show thesis
    proof (cases rule: sorted_units_cases [where i = ?w])
      case (hit us1 u vs us2)
      obtain ub pool3 where h: "\<forall>vfs. resolve_in_segment (vfs\<lparr>vpool := pool2\<rparr>) (tcache_key f (int ?j)) e True ?i None (pinned a ab) (pinned f fb) =
          Some (True, pinned u ub, vfs\<lparr>vpool := pool3\<rparr>)" "S u = Some ub" "heap_rep pool3 S P" "same_store pool2 pool3"
        by (rule resolve_hit [OF w(1) ab(2) [unfolded hit(1)] hit(2) ab(1,6) _ fb(1) ab(3)]) (use ab(7) hit(1) len in auto)
      have "\<forall>x\<in>set (us1 @ us2). unit_index x \<noteq> ?w" using hit by auto
      then have f: "\<forall>x\<in>set (us1 @ us2). unat (unit_index x) \<noteq> ?i" using iw(1) by (metis unsigned_word_eqI)
      have vs: "page_versions n ss q = vs" using ps True ss hit(1) find_insert(1) [OF f, of "(u, ?w, vs)"] iw by (simp add: nth_append)
      have eq: "\<forall>vfs. only_lock f vfs \<and> cold vfs f \<and> unat (vfs_segment_size vfs) = n \<longrightarrow>
         tree_resolve_page (vfs\<lparr>vpool := pool\<rparr>) f (int q) e True = Some (True, pinned u ub, vfs\<lparr>vpool := pool3\<rparr>)"
        using w(3) h(1) by (intro allI impI) (subst start, auto)
      show thesis
        by (rule that [of u ub pool3 S ss1 a us1 us2 ss2])
          (use eq h(2-4) vs ss hit(1) wf st2 small(1) in \<open>auto simp: same_store_def le_SucI\<close>)
    next
      case (miss us1 us2)
      obtain u ub pool3 S3 where
        m: "\<forall>vfs. only_lock f vfs \<longrightarrow> resolve_in_segment (vfs\<lparr>vpool := pool2\<rparr>) (tcache_key f (int ?j)) e True ?i None (pinned a ab) (pinned f fb) =
             Some (True, pinned u ub, vfs\<lparr>vpool := pool3\<rparr>)"
          "heap_rep pool3 S3 P" "file_wf n S3 P f zs (ss1 @ (a, us1 @ (u, ?w, []) # us2) # ss2)" "S3 u = Some ub"
          "store_room (pool_sb pool3) k" "page_size (pool_sb pool3) = page_size (pool_sb pool2)"
          "heap_grow S (set (file_slots f zs (ss1 @ (a, us1 @ us2) # ss2))) S3 (set (file_slots f zs (ss1 @ (a, us1 @ (u, ?w, []) # us2) # ss2)))"
        by (rule resolve_miss_write [OF w(1) wf [unfolded ss(1) miss(1)] ab(1) fb(1) miss(2,3) iw(2) n(2) st2(1) len(1) [unfolded miss(1)]])
      have new: "\<forall>x\<in>set (us1 @ us2). unit_index x \<noteq> ?w" using miss by auto
      then have g: "\<forall>x\<in>set (us1 @ us2). unat (unit_index x) \<noteq> ?i" using iw(1) by (metis unsigned_word_eqI)
      have vs: "page_versions n ss q = []" using ps True ss miss(1) find_insert(2) [OF g] by (simp add: nth_append)
      have eq: "\<forall>vfs. only_lock f vfs \<and> cold vfs f \<and> unat (vfs_segment_size vfs) = n \<longrightarrow>
         tree_resolve_page (vfs\<lparr>vpool := pool\<rparr>) f (int q) e True = Some (True, pinned u ub, vfs\<lparr>vpool := pool3\<rparr>)"
        using w(3) m(1) by (intro allI impI) (subst start, auto)
      have pv: "page_versions n (ss1 @ (a, us1 @ (u, ?w, []) # us2) # ss2) = page_versions n ss"
        using page_versions_insert [OF new] ss(1) miss(1) by simp
      show thesis
        by (rule that [of u ub pool3 S3 ss1 a us1 us2 ss2])
          (use eq m(2-7) vs pv ss miss(1) st2(3) small(1) in \<open>auto simp: le_SucI file_pages_def unit_pages_def\<close>)
    qed
  qed
qed

lemma resolve_read:
  assumes rep: "heap_rep pool S P" and wf: "file_wf n S P f zs ss" and n: "0 < n" "n \<le> 2 ^ 32" and small: "units_le B ss" "B < 64"
    and room: "store_room (pool_sb pool) (q div n + k)"
  obtains ok slot pool' S' ss' where
    "\<forall>vfs. only_lock f vfs \<and> cold vfs f \<and> unat (vfs_segment_size vfs) = n \<longrightarrow>
       tree_resolve_page (vfs\<lparr>vpool := pool\<rparr>) f (int q) e False = Some (ok, slot, vfs\<lparr>vpool := pool'\<rparr>)"
    "heap_rep pool' S' P" "file_wf n S' P f zs ss'" "store_room (pool_sb pool') k" "page_size (pool_sb pool') = page_size (pool_sb pool)"
    "heap_grow S (set (file_slots f zs ss)) S' (set (file_slots f zs ss'))" "page_versions n ss' = page_versions n ss" "units_le B ss'"
    "file_pages ss' = file_pages ss" "\<not> ok \<longrightarrow> page_versions n ss q = []" "ok \<longrightarrow> versions_at S' (rd8i (ps_bytes slot) 8) (page_versions n ss q)"
proof -
  let ?j = "q div n" and ?i = "q mod n"
  let ?w = "of_nat ?i :: u32"
  obtain fb where fb: "S f = Some fb" "rd2 fb 0 = NODE_TYPE_FILE" "sizes_at S (rd8i fb 16) zs" "segments_seg S (rd8i fb 8) ss 0" by (rule file_head [OF wf])
  obtain pool1 where q: "\<forall>vfs. vfs_acquire (vfs\<lparr>vpool := pool\<rparr>) f True = (pinned f fb, vfs\<lparr>vpool := pool1\<rparr>)"
      "heap_rep pool1 S P" "same_store pool pool1" "f \<noteq> 0" "length fb = 32" by (rule at_acquire [OF rep fb(1)])
  have room1: "store_room (pool_sb pool1) (?j + k)" "page_size (pool_sb pool1) = page_size (pool_sb pool)"
    using room q(3) by (simp_all add: same_store_def)
  have ps: "page_versions n ss q = (if ?j < length ss then case find (\<lambda>x. unat (unit_index x) = ?i) (snd (ss ! ?j)) of None \<Rightarrow> [] | Some x \<Rightarrow> snd (snd x) else [])"
    by (simp add: page_versions_def page_unit_def)
  have "?i < n" using n(1) by simp
  moreover then have "?i < 2 ^ 32" using n(2) by linarith
  ultimately have iw: "unat ?w = ?i" "?i < n" by (simp_all add: unat_of_nat take_bit_nat_eq_self)
  have start: "tree_resolve_page (vfs\<lparr>vpool := pool\<rparr>) f (int q) e False = (case sw of SegFail \<Rightarrow> Some (False, zero_slot, vfs2) | SegDone out \<Rightarrow> Some (True, out, vfs2)
       | SegFound fc_slot file_slot \<Rightarrow> resolve_in_segment vfs2 (tcache_key f (int ?j)) e False ?i None fc_slot file_slot)"
    if "cold vfs f" "unat (vfs_segment_size vfs) = n"
      "segment_walk ?j e False ?i None (rd8i fb 8) 0 (pinned f fb) (vfs\<lparr>vpool := pool1\<rparr>) = Some (sw, vfs2)" for vfs sw vfs2
    by (rule resolve_start [where ?pool1.0 = pool1 and fb = fb]) (use that n q(1,4) in simp_all)
  show thesis
  proof (cases "?j < length ss")
    case False
    from segment_walk_end [OF q(2) fb(4), of ?j e False ?i None 0 "pinned f fb"] False obtain pool2 where
      w: "heap_rep pool2 S P" "same_store pool1 pool2" "\<forall>vfs. segment_walk ?j e False ?i None (rd8i fb 8) 0 (pinned f fb) (vfs\<lparr>vpool := pool1\<rparr>) =
        segment_walk (?j - length ss) e False ?i None 0 (last_segment ss) (pinned f fb) (vfs\<lparr>vpool := pool2\<rparr>)" by auto
    have Sf: "S(f \<mapsto> fb) = S" "f \<in> dom S" using fb(1) by auto
    have room2: "store_room (pool_sb pool2) ((?j - length ss) + k)" "page_size (pool_sb pool2) = page_size (pool_sb pool)"
      using nh.room_mono [of pool1 _ "(?j - length ss) + k"] room1 w(2) by (auto simp: same_store_def)
    have wf': "file_wf n (S(f \<mapsto> fb)) P f zs ss" using wf Sf by simp
    from segment_create_read [OF w(1) Sf(2) q(5) wf' room2(1), of e ?i] obtain es pool' S' where
      c: "\<forall>s\<in>set es. snd s = []" "length es = ?j - length ss"
        "\<forall>vfs. only_lock f vfs \<longrightarrow> segment_walk (?j - length ss) e False ?i None 0 (last_segment ss) (pinned f fb) (vfs\<lparr>vpool := pool2\<rparr>) =
           Some (SegFail, vfs\<lparr>vpool := pool'\<rparr>)"
        "heap_rep pool' S' P" "file_wf n S' P f zs (ss @ es)" "store_room (pool_sb pool') k" "page_size (pool_sb pool') = page_size (pool_sb pool2)"
        "heap_grow S (set (file_slots f zs ss)) S' (set (file_slots f zs (ss @ es)))" by blast
    have eq: "\<forall>vfs. only_lock f vfs \<and> cold vfs f \<and> unat (vfs_segment_size vfs) = n \<longrightarrow>
       tree_resolve_page (vfs\<lparr>vpool := pool\<rparr>) f (int q) e False = Some (False, zero_slot, vfs\<lparr>vpool := pool'\<rparr>)"
      using w(3) c(3) by (intro allI impI) (subst start, auto)
    have pv: "page_versions n (ss @ es) = page_versions n ss" by (rule page_versions_append) (use c(1) in auto)
    show thesis
      by (rule that [OF eq c(4,5,6) _ c(8) pv]) (use c(1,7) room2(2) small(1) ps False file_pages_append [of es ss] in auto)
  next
    case True
    then obtain ss1 a us ss2 where ss: "ss = ss1 @ (a, us) # ss2" "length ss1 = ?j" by (metis id_take_nth_drop length_take min.absorb4 surj_pair)
    obtain ab where ab: "S a = Some ab" "units_seg S (rd8i ab 8) us 0" "rd4 ab 24 = of_nat (length us)"
      "sorted_wrt (<) (map (\<lambda>x. unat (unit_index x)) us)" "\<forall>x\<in>set us. unat (unit_index x) < n" "a \<noteq> f" "a \<notin> fst ` set us"
      using file_segment_at [OF wf [unfolded ss]] by metis
    have len: "length us < 64" using small ss(1) by auto
    from segment_walk_found [OF q(2) fb(4) True, of e False ?i None 0 "pinned f fb"] ss ab(1) obtain pool2 where
      w: "heap_rep pool2 S P" "same_store pool1 pool2" "\<forall>vfs. segment_walk ?j e False ?i None (rd8i fb 8) 0 (pinned f fb) (vfs\<lparr>vpool := pool1\<rparr>) =
        Some (SegFound (pinned a ab) (pinned f fb), vfs\<lparr>vpool := pool2\<rparr>)" by (auto simp: nth_append)
    have st2: "store_room (pool_sb pool2) k" "page_size (pool_sb pool2) = page_size (pool_sb pool)"
      using nh.room_mono [of pool1 _ k] room1 w(2) by (auto simp: same_store_def)
    from ab(4) show thesis
    proof (cases rule: sorted_units_cases [where i = ?w])
      case (hit us1 u vs us2)
      obtain ub pool3 where h: "\<forall>vfs. resolve_in_segment (vfs\<lparr>vpool := pool2\<rparr>) (tcache_key f (int ?j)) e False ?i None (pinned a ab) (pinned f fb) =
          Some (True, unpinned u ub, vfs\<lparr>vpool := pool3\<rparr>)" "S u = Some ub" "heap_rep pool3 S P" "same_store pool2 pool3"
        by (rule resolve_hit [OF w(1) ab(2) [unfolded hit(1)] hit(2) ab(1,6) _ fb(1) ab(3)]) (use ab(7) hit(1) len in auto)
      from list_seg_mem [OF ab(2), of "(u, ?w, vs)"] hit(1) h(2) have vsu: "versions_at S (rd8i ub 8) vs" by (auto simp: unit_node_def)
      have "\<forall>x\<in>set (us1 @ us2). unit_index x \<noteq> ?w" using hit by auto
      then have f: "\<forall>x\<in>set (us1 @ us2). unat (unit_index x) \<noteq> ?i" using iw(1) by (metis unsigned_word_eqI)
      have vs: "page_versions n ss q = vs" using ps True ss hit(1) find_insert(1) [OF f, of "(u, ?w, vs)"] iw by (simp add: nth_append)
      have eq: "\<forall>vfs. only_lock f vfs \<and> cold vfs f \<and> unat (vfs_segment_size vfs) = n \<longrightarrow>
         tree_resolve_page (vfs\<lparr>vpool := pool\<rparr>) f (int q) e False = Some (True, unpinned u ub, vfs\<lparr>vpool := pool3\<rparr>)"
        using w(3) h(1) by (intro allI impI) (subst start, auto)
      show thesis
        by (rule that [OF eq h(3) wf]) (use h(4) vs vsu st2 small(1) in \<open>auto simp: same_store_def\<close>)
    next
      case (miss us1 us2)
      obtain pool3 where m: "\<forall>vfs. resolve_in_segment (vfs\<lparr>vpool := pool2\<rparr>) (tcache_key f (int ?j)) e False ?i None (pinned a ab) (pinned f fb) =
          Some (False, zero_slot, vfs\<lparr>vpool := pool3\<rparr>)" "heap_rep pool3 S P" "same_store pool2 pool3"
        by (rule resolve_miss_read [OF w(1) ab(2) [unfolded miss(1)] miss(2,3) ab(1) fb(1)])
      have "\<forall>x\<in>set (us1 @ us2). unit_index x \<noteq> ?w" using miss by auto
      then have g: "\<forall>x\<in>set (us1 @ us2). unat (unit_index x) \<noteq> ?i" using iw(1) by (metis unsigned_word_eqI)
      have vs: "page_versions n ss q = []" using ps True ss miss(1) find_insert(2) [OF g] by (simp add: nth_append)
      have eq: "\<forall>vfs. only_lock f vfs \<and> cold vfs f \<and> unat (vfs_segment_size vfs) = n \<longrightarrow>
         tree_resolve_page (vfs\<lparr>vpool := pool\<rparr>) f (int q) e False = Some (False, zero_slot, vfs\<lparr>vpool := pool3\<rparr>)"
        using w(3) m(1) by (intro allI impI) (subst start, auto)
      show thesis
        by (rule that [OF eq m(2) wf]) (use m(3) vs st2 small(1) in \<open>auto simp: same_store_def\<close>)
    qed
  qed
qed

end
