(* ===== verification/FileSpec.thy ===== *)
theory FileSpec
  imports Tree
begin

text \<open>
  The specification of a versioned file, without any store: every page has a history, the list of the contents
  the epochs gave it, newest first. Reading at an epoch takes the first visible entry of the history; writing at
  an epoch changes the entry of that epoch or puts a new one in front, copied from the newest older even epoch.

  The lemmas show what this means for the bytes of the file: under the order the histories have in use, a write
  at an epoch changes exactly the bytes written, at exactly that epoch.
\<close>

type_synonym history = "(u32 \<times> bytes) list"

definition history_read :: "nat \<Rightarrow> MapperTable \<Rightarrow> int \<Rightarrow> history \<Rightarrow> bytes" where
  "history_read ps tbl R h = (case find (\<lambda>x. visible_at tbl R (fst x)) h of None \<Rightarrow> zero_bytes ps | Some x \<Rightarrow> snd x)"

primrec history_put :: "u32 \<Rightarrow> (bytes \<Rightarrow> bytes) \<Rightarrow> history \<Rightarrow> history" where
  "history_put e g [] = []"
| "history_put e g (x # h) = (if fst x = e then (e, g (snd x)) # h else x # history_put e g h)"

definition history_base :: "nat \<Rightarrow> u32 \<Rightarrow> history \<Rightarrow> bytes" where
  "history_base ps e h = (case find (\<lambda>x. fst x < e \<and> even (uint (fst x))) h of None \<Rightarrow> zero_bytes ps | Some x \<Rightarrow> snd x)"

definition history_write :: "nat \<Rightarrow> u32 \<Rightarrow> nat \<Rightarrow> bytes \<Rightarrow> history \<Rightarrow> history" where
  "history_write ps e off src h =
     (if \<exists>x\<in>set h. fst x = e then history_put e (\<lambda>b. blit b off src) h else (e, blit (history_base ps e h) off src) # h)"

text \<open>
  The histories in use: no epoch of an entry is mapped to another, no entry of an even epoch stands before one of a
  later epoch, and no entry is newer than the current epoch.
\<close>

definition epochs_ok :: "MapperTable \<Rightarrow> int \<Rightarrow> u32 list \<Rightarrow> bool" where
  "epochs_ok tbl cur es \<longleftrightarrow> (\<forall>e\<in>set es. effective_epoch tbl e = uint e \<and> uint e \<le> cur)
     \<and> sorted_wrt (\<lambda>x y. even (uint x) \<longrightarrow> uint y \<le> uint x) es"

definition history_ok :: "nat \<Rightarrow> MapperTable \<Rightarrow> int \<Rightarrow> history \<Rightarrow> bool" where
  "history_ok ps tbl cur h \<longleftrightarrow> epochs_ok tbl cur (map fst h) \<and> (\<forall>x\<in>set h. length (snd x) = ps)"

text \<open>An epoch that may be written: the current one, or an odd one that is not mapped.\<close>

definition write_epoch :: "MapperTable \<Rightarrow> int \<Rightarrow> u32 \<Rightarrow> bool" where
  "write_epoch tbl cur e \<longleftrightarrow> effective_epoch tbl e = uint e \<and> uint e \<le> cur \<and> (even (uint e) \<longrightarrow> uint e = cur)"

section \<open>Laws of a history\<close>

lemma visible_unmapped:
  "effective_epoch tbl e = uint e \<Longrightarrow> visible_at tbl R e \<longleftrightarrow> uint e = R \<or> uint e < R \<and> even (uint e)"
  by (simp add: visible_at_def Let_def)

lemma write_epoch_visible:
  assumes "write_epoch tbl cur e" "R \<le> cur"
  shows "visible_at tbl R e \<longleftrightarrow> R = uint e"
  using assms by (auto simp: write_epoch_def visible_unmapped)

lemma epochs_ok_Cons: "epochs_ok tbl cur es \<Longrightarrow> write_epoch tbl cur e \<Longrightarrow> epochs_ok tbl cur (e # es)"
  by (auto simp: epochs_ok_def write_epoch_def)

lemma history_put_fst: "map fst (history_put e g h) = map fst h"
  by (induction h) auto

lemma history_put_length:
  "\<forall>x\<in>set h. length (snd x) = ps \<Longrightarrow> (\<And>b. length b = ps \<Longrightarrow> length (g b) = ps) \<Longrightarrow> \<forall>x\<in>set (history_put e g h). length (snd x) = ps"
  by (induction h) auto

lemma find_mem: "find Q xs = Some x \<Longrightarrow> x \<in> set xs \<and> Q x"
  by (auto simp: find_Some_iff)

lemma history_base_length: "\<forall>x\<in>set h. length (snd x) = ps \<Longrightarrow> length (history_base ps e h) = ps"
  unfolding history_base_def by (auto dest!: find_mem split: option.splits)

lemma history_read_length: "history_ok ps tbl cur h \<Longrightarrow> length (history_read ps tbl R h) = ps"
  unfolding history_read_def history_ok_def by (auto dest!: find_mem split: option.splits)

lemma history_write_ok:
  assumes "history_ok ps tbl cur h" "write_epoch tbl cur e" "off + length src \<le> ps"
  shows "history_ok ps tbl cur (history_write ps e off src h)"
proof (cases "\<exists>x\<in>set h. fst x = e")
  case True
  have "\<forall>x\<in>set (history_put e (\<lambda>b. blit b off src) h). length (snd x) = ps"
    by (rule history_put_length) (use assms in \<open>auto simp: history_ok_def\<close>)
  with True assms show ?thesis by (simp add: history_write_def history_ok_def history_put_fst)
next
  case False
  have "length (blit (history_base ps e h) off src) = ps"
    using history_base_length [of h ps e] assms by (simp add: history_ok_def)
  with False assms epochs_ok_Cons show ?thesis by (auto simp: history_write_def history_ok_def)
qed

text \<open>Isolation: what is not visible at an epoch does not change what is read there.\<close>

lemma find_put_other: "\<not> Q e \<Longrightarrow> find (\<lambda>x. Q (fst x)) (history_put e g h) = find (\<lambda>x. Q (fst x)) h"
  by (induction h) auto

lemma history_write_other:
  "\<not> visible_at tbl R e \<Longrightarrow> history_read ps tbl R (history_write ps e off src h) = history_read ps tbl R h"
  by (simp add: history_read_def history_write_def find_put_other)

text \<open>Read after write.\<close>

lemma history_in_place:
  assumes "epochs_ok tbl cur (map fst h)" "\<exists>x\<in>set h. fst x = e" "effective_epoch tbl e = uint e"
  shows "history_read ps tbl (uint e) (history_put e g h) = g (history_read ps tbl (uint e) h)"
  using assms(1,2)
proof (induction h)
  case (Cons x h)
  show ?case
  proof (cases "fst x = e")
    case True
    then show ?thesis using assms(3) by (simp add: history_read_def visible_unmapped)
  next
    case False
    then have ex: "\<exists>y\<in>set h. fst y = e" using Cons.prems by auto
    then have "even (uint (fst x)) \<longrightarrow> uint e \<le> uint (fst x)" using Cons.prems(1) by (auto simp: epochs_ok_def)
    moreover have "effective_epoch tbl (fst x) = uint (fst x)" using Cons.prems(1) by (simp add: epochs_ok_def)
    moreover have "uint (fst x) \<noteq> uint e" using False by (metis unsigned_word_eqI)
    ultimately have nv: "\<not> visible_at tbl (uint e) (fst x)" by (auto simp: visible_unmapped)
    have "epochs_ok tbl cur (map fst h)" using Cons.prems(1) by (simp add: epochs_ok_def)
    from Cons.IH [OF this ex] nv False show ?thesis by (simp add: history_read_def)
  qed
qed simp

lemma history_write_same:
  assumes ok: "history_ok ps tbl cur h" and e: "effective_epoch tbl e = uint e"
  shows "history_read ps tbl (uint e) (history_write ps e off src h) = blit (history_read ps tbl (uint e) h) off src"
proof (cases "\<exists>x\<in>set h. fst x = e")
  case True
  with history_in_place [OF _ True e, of cur ps "\<lambda>b. blit b off src"] ok show ?thesis by (simp add: history_write_def history_ok_def)
next
  case False
  have "find (\<lambda>x. fst x < e \<and> even (uint (fst x))) h = find (\<lambda>x. visible_at tbl (uint e) (fst x)) h"
  proof (rule find_cong [OF refl])
    fix x assume x: "x \<in> set h"
    then have "effective_epoch tbl (fst x) = uint (fst x)" using ok by (auto simp: history_ok_def epochs_ok_def)
    moreover have "uint (fst x) \<noteq> uint e" using False x by (metis unsigned_word_eqI)
    ultimately show "(fst x < e \<and> even (uint (fst x))) = visible_at tbl (uint e) (fst x)"
      by (simp add: visible_unmapped word_less_def)
  qed
  then have "history_base ps e h = history_read ps tbl (uint e) h" by (simp add: history_base_def history_read_def)
  with False e show ?thesis by (simp add: history_write_def history_read_def visible_unmapped)
qed

section \<open>Laws of a file\<close>

text \<open>The pages of a write, one after the other; only the first starts inside of its page.\<close>

primrec put_pages :: "nat \<Rightarrow> nat \<Rightarrow> u32 \<Rightarrow> nat \<Rightarrow> nat \<Rightarrow> bytes \<Rightarrow> (nat \<Rightarrow> history) \<Rightarrow> nat \<Rightarrow> history" where
  "put_pages 0 ps e p off src F = F"
| "put_pages (Suc m) ps e p off src F =
     (let c = min (ps - off) (length src)
      in put_pages m ps e (Suc p) 0 (drop c src) (F(p := history_write ps e off (take c src) (F p))))"

definition file_byte :: "nat \<Rightarrow> MapperTable \<Rightarrow> int \<Rightarrow> (nat \<Rightarrow> history) \<Rightarrow> nat \<Rightarrow> u8" where
  "file_byte ps tbl R F j = history_read ps tbl R (F (j div ps)) ! (j mod ps)"

lemma put_pages_ok:
  assumes "\<forall>q. history_ok ps tbl cur (F q)" "write_epoch tbl cur e" "off \<le> ps"
  shows "\<forall>q. history_ok ps tbl cur (put_pages m ps e p off src F q)"
  using assms
proof (induction m arbitrary: p off src F)
  case (Suc m)
  let ?c = "min (ps - off) (length src)"
  have "history_ok ps tbl cur (history_write ps e off (take ?c src) (F p))"
    by (rule history_write_ok) (use Suc.prems in auto)
  with Suc.prems show ?case by (simp add: Let_def Suc.IH)
qed simp

lemma put_pages_other:
  assumes "\<not> visible_at tbl R e"
  shows "history_read ps tbl R (put_pages m ps e p off src F q) = history_read ps tbl R (F q)"
proof (induction m arbitrary: p off src F)
  case (Suc m)
  then show ?case by (simp add: Let_def history_write_other [OF assms])
qed simp

lemma put_pages_before: "q < p \<Longrightarrow> put_pages m ps e p off src F q = F q"
  by (induction m arbitrary: p off src F) (simp_all add: Let_def)

lemma div_mod_unique: "j div ps = p \<Longrightarrow> j = p * ps + j mod ps" for j ps p :: nat
  by (metis div_mult_mod_eq)

lemma put_pages_same:
  assumes ps: "0 < ps" and ok: "\<forall>q. history_ok ps tbl cur (F q)" and e: "write_epoch tbl cur e"
    and off: "off < ps" and enough: "off + length src \<le> m * ps"
  shows "file_byte ps tbl (uint e) (put_pages m ps e p off src F) j =
    (if p * ps + off \<le> j \<and> j < p * ps + off + length src then src ! (j - (p * ps + off)) else file_byte ps tbl (uint e) F j)"
  using ok off enough
proof (induction m arbitrary: p off src F)
  case 0
  then have "\<not> (p * ps + off \<le> j \<and> j < p * ps + off + length src)" by auto
  then show ?case by (simp only: put_pages.simps if_False)
next
  case (Suc m)
  let ?c = "min (ps - off) (length src)"
  let ?F = "F(p := history_write ps e off (take ?c src) (F p))"
  have un: "effective_epoch tbl e = uint e" using e by (simp add: write_epoch_def)
  have ok': "\<forall>q. history_ok ps tbl cur (?F q)" using Suc.prems history_write_ok [OF _ e, of ps "F p" off "take ?c src"] by auto
  have enough': "0 + length (drop ?c src) \<le> m * ps" using Suc.prems by (auto simp: min_def)
  have IH: "file_byte ps tbl (uint e) (put_pages (Suc m) ps e p off src F) j =
    (if Suc p * ps \<le> j \<and> j < Suc p * ps + (length src - ?c) then drop ?c src ! (j - Suc p * ps) else file_byte ps tbl (uint e) ?F j)"
    unfolding put_pages.simps Let_def using Suc.IH [OF ok' ps enough', of "Suc p"] by (simp only: add_0_right length_drop)
  have len: "length (history_read ps tbl (uint e) (F p)) = ps" using history_read_length Suc.prems(1) by blast
  have page: "file_byte ps tbl (uint e) ?F j = (if p * ps + off \<le> j \<and> j < p * ps + off + ?c then src ! (j - (p * ps + off)) else file_byte ps tbl (uint e) F j)"
  proof (cases "j div ps = p")
    case True
    note j = div_mod_unique [OF True]
    have jm: "j mod ps < ps" using ps by simp
    have t: "take ?c src ! (j mod ps - off) = src ! (j mod ps - off)" if "off \<le> j mod ps" "j mod ps < off + ?c"
      using that by (intro nth_take) linarith
    have "file_byte ps tbl (uint e) ?F j = blit (history_read ps tbl (uint e) (F p)) off (take ?c src) ! (j mod ps)"
      using True history_write_same [OF Suc.prems(1) [THEN spec] un, of off "take ?c src" p] by (simp add: file_byte_def)
    also have "\<dots> = (if off \<le> j mod ps \<and> j mod ps < off + ?c then src ! (j mod ps - off) else history_read ps tbl (uint e) (F p) ! (j mod ps))"
      using len jm Suc.prems(2) t by (subst nth_blit) auto
    also have "\<dots> = (if p * ps + off \<le> j \<and> j < p * ps + off + ?c then src ! (j - (p * ps + off)) else file_byte ps tbl (uint e) F j)"
    proof -
      have "(off \<le> j mod ps \<and> j mod ps < off + ?c) = (p * ps + off \<le> j \<and> j < p * ps + off + ?c)" "j mod ps - off = j - (p * ps + off)"
        using j by linarith+
      then show ?thesis using True by (simp only: file_byte_def)
    qed
    finally show ?thesis .
  next
    case False
    have "\<not> (p * ps + off \<le> j \<and> j < p * ps + off + ?c)"
    proof
      assume a: "p * ps + off \<le> j \<and> j < p * ps + off + ?c"
      then have "p * ps \<le> j" "j < Suc p * ps" using Suc.prems(2) by auto
      then show False using False by (simp add: div_nat_eqI mult.commute)
    qed
    moreover have "file_byte ps tbl (uint e) ?F j = file_byte ps tbl (uint e) F j" using False by (simp add: file_byte_def)
    ultimately show ?thesis by (simp only: if_False)
  qed
  show ?case
  proof (cases "Suc p * ps \<le> j \<and> j < Suc p * ps + (length src - ?c)")
    case True
    then have c: "?c = ps - off" using Suc.prems(2) by (auto simp: min_def split: if_splits)
    have "drop ?c src ! (j - Suc p * ps) = src ! (j - (p * ps + off))"
      using True c Suc.prems(2) by (subst nth_drop) (auto intro: arg_cong [where f = "(!) src"])
    moreover have "p * ps + off \<le> j \<and> j < p * ps + off + length src" using True c Suc.prems(2) by auto
    ultimately show ?thesis using True by (simp only: IH if_True simp_thms)
  next
    case False
    have "(p * ps + off \<le> j \<and> j < p * ps + off + ?c) \<longleftrightarrow> (p * ps + off \<le> j \<and> j < p * ps + off + length src)"
    proof (cases "length src \<le> ps - off")
      case nc: False
      then have "?c = ps - off" by simp
      with False nc Suc.prems(2) show ?thesis by auto
    qed simp
    with False show ?thesis by (simp only: IH page if_False)
  qed
qed

end
