(* ===== verification/FileIO.thy ===== *)
theory FileIO
  imports FileResolve FileSpec
begin

text \<open>
  Reading and writing files: the operations of \<^verbatim>\<open>vfs_read\<close> and \<^verbatim>\<open>vfs_write\<close> on the representation of a file refine
  those of the specification on the histories of its pages.
\<close>

section \<open>Searches in the chains\<close>

lemma version_search_law:
  assumes "heap_rep pool S P" "versions_at S h vs"
  shows "\<exists>pool'. version_search cond h pool = Some (map_option (\<lambda>v. snd (snd v)) (find (\<lambda>v. cond (fst (snd v))) vs), pool')
    \<and> heap_rep pool' S P \<and> same_store pool pool'"
  using assms
proof (induction vs arbitrary: h pool)
  case Nil
  then show ?case by (subst version_search.simps) simp
next
  case (Cons v vs)
  then obtain b where b: "h = fst v" "S h = Some b" "version_node b v" "versions_at S (rd8i b 24) vs"
    unfolding list_seg.simps by blast
  obtain pool1 where p: "pool_acquire pool h False = (unpinned h b, pool1)"
    "\<And>slot. pinnedPage slot = False \<Longrightarrow> pool_release pool1 slot = (slot, pool1)" "heap_rep pool1 S P" "same_store pool pool1" "h \<noteq> 0"
    using heap_peek [OF Cons.prems(1) b(2)] by metis
  have nv: "nodes_read_versionpage b = \<lparr>vp_epoch = fst (snd v), vp_dataPage = snd (snd v), vp_nextPtr = rd8i b 24\<rparr>"
    using b(3) by (simp add: nodes_read_versionpage_def version_node_def)
  show ?case
  proof (cases "cond (fst (snd v))")
    case True
    then show ?thesis using p by (subst version_search.simps) (simp add: nv)
  next
    case False
    from Cons.IH [OF p(3) b(4)] obtain pool' where
      w: "version_search cond (rd8i b 24) pool1 = Some (map_option (\<lambda>v. snd (snd v)) (find (\<lambda>v. cond (fst (snd v))) vs), pool')"
        "heap_rep pool' S P" "same_store pool1 pool'" by blast
    have "version_search cond h pool = version_search cond (rd8i b 24) pool1"
      using p False by (subst version_search.simps) (simp add: nv)
    with w False same_store_trans [OF p(4) w(3)] show ?thesis by simp
  qed
qed

lemma find_zip_chain:
  assumes "list_all2 R bs xs" "\<And>b x. R b x \<Longrightarrow> rd4 b 0 = fst (snd x)"
  shows "(find (\<lambda>y. Q (rd4 (snd y) 0)) (zip (map fst xs) bs) = None \<longleftrightarrow> find (\<lambda>x. Q (fst (snd x))) xs = None)
    \<and> (\<forall>x. find (\<lambda>x. Q (fst (snd x))) xs = Some x \<longrightarrow> (\<exists>b. find (\<lambda>y. Q (rd4 (snd y) 0)) (zip (map fst xs) bs) = Some (fst x, b) \<and> R b x))"
  using assms(1)
proof (induction bs xs rule: list_all2_induct)
  case (Cons b bs x xs)
  then have "rd4 b 0 = fst (snd x)" using assms(2) by blast
  with Cons show ?case by (cases "Q (fst (snd x))") (auto simp del: split_paired_All)
qed simp

lemma chain_walk_seg:
  assumes rep: "heap_rep pool S P" and seg: "list_seg R LEAF_OFF_NEXTPTR S h xs 0" and R: "\<And>b x. R b x \<Longrightarrow> rd4 b 0 = fst (snd x)"
  obtains r leaf pool' where
    "\<forall>vfs. mapper_table vfs = tbl \<longrightarrow> h \<noteq> 0 \<longrightarrow> vfs_chain_walk (vfs\<lparr>vpool := pool\<rparr>) h E = Some (r, leaf, vfs\<lparr>vpool := pool'\<rparr>)"
    "h = 0 \<longleftrightarrow> xs = []" "heap_rep pool' S P" "same_store pool pool'"
    "find (\<lambda>x. visible_at tbl E (fst (snd x))) xs = None \<longrightarrow> r = WALK_NOT_FOUND"
    "\<forall>x. find (\<lambda>x. visible_at tbl E (fst (snd x))) xs = Some x \<longrightarrow> r = WALK_FOUND \<and> R (ps_bytes leaf) x"
proof -
  from list_seg_chain [OF seg] obtain bs where bs: "chain_at S LEAF_OFF_NEXTPTR h (zip (map fst xs) bs)" "length bs = length xs" "list_all2 R bs xs" by blast
  have nil: "h = 0 \<longleftrightarrow> xs = []" using chain_at_zero [OF rep bs(1)] bs(2) by (cases xs; cases bs) simp_all
  let ?z = "zip (map fst xs) bs" and ?Q = "\<lambda>e. visible_at tbl E e"
  from chain_walk_law [OF rep bs(1), of tbl E] obtain leaf pool' where
    w: "chain_walk_from tbl E h pool = Some (case find (\<lambda>x. ?Q (rd4 (snd x) 0)) ?z of None \<Rightarrow> WALK_NOT_FOUND | Some _ \<Rightarrow> WALK_FOUND, leaf, pool')"
      "heap_rep pool' S P" "same_store pool pool'"
      "\<forall>x. find (\<lambda>x. ?Q (rd4 (snd x) 0)) ?z = Some x \<longrightarrow> ps_bytes leaf = snd x \<and> ps_vptr leaf = fst x" by blast
  note z = find_zip_chain [OF bs(3) R, of ?Q]
  show thesis
  proof (rule that [OF _ nil w(2,3)])
    show "\<forall>vfs. mapper_table vfs = tbl \<longrightarrow> h \<noteq> 0 \<longrightarrow> vfs_chain_walk (vfs\<lparr>vpool := pool\<rparr>) h E =
      Some (case find (\<lambda>x. ?Q (rd4 (snd x) 0)) ?z of None \<Rightarrow> WALK_NOT_FOUND | Some _ \<Rightarrow> WALK_FOUND, leaf, vfs\<lparr>vpool := pool'\<rparr>)"
      using w(1) by (simp add: vfs_chain_walk_def)
  qed (use z w(4) in \<open>auto simp del: split_paired_All\<close>)
qed

lemma version_epoch: "version_node b x \<Longrightarrow> rd4 b 0 = fst (snd x)"
  by (simp add: version_node_def)

lemma size_epoch: "size_node b z \<Longrightarrow> rd4 b 0 = fst (snd z)"
  by (simp add: size_node_def)

lemma verchain_law:
  assumes rep: "heap_rep pool S P" and vs: "versions_at S h vs"
  obtains pool' where "\<forall>vfs. mapper_table vfs = tbl \<longrightarrow> verchain_get (vfs\<lparr>vpool := pool\<rparr>) h E =
      Some (case find (\<lambda>v. visible_at tbl E (fst (snd v))) vs of None \<Rightarrow> -1 | Some v \<Rightarrow> snd (snd v), vfs\<lparr>vpool := pool'\<rparr>)"
    "heap_rep pool' S P" "same_store pool pool'"
proof -
  obtain r leaf pool' where
    w: "\<forall>vfs. mapper_table vfs = tbl \<longrightarrow> h \<noteq> 0 \<longrightarrow> vfs_chain_walk (vfs\<lparr>vpool := pool\<rparr>) h E = Some (r, leaf, vfs\<lparr>vpool := pool'\<rparr>)"
      "h = 0 \<longleftrightarrow> vs = []" "heap_rep pool' S P" "same_store pool pool'"
      "find (\<lambda>x. visible_at tbl E (fst (snd x))) vs = None \<longrightarrow> r = WALK_NOT_FOUND"
      "\<forall>x. find (\<lambda>x. visible_at tbl E (fst (snd x))) vs = Some x \<longrightarrow> r = WALK_FOUND \<and> version_node (ps_bytes leaf) x"
    by (rule chain_walk_seg [OF rep vs version_epoch])
  show thesis
  proof (cases "h = 0")
    case True
    with w(2) rep show thesis by (intro that [of pool]) (simp_all add: verchain_get_def)
  next
    case False
    with w show thesis
      by (intro that [of pool']) (auto simp: verchain_get_def version_node_def simp del: split_paired_All split: option.splits)
  qed
qed

definition size_entry :: "MapperTable \<Rightarrow> int \<Rightarrow> file_size list \<Rightarrow> int \<times> int" where
  "size_entry tbl R zs = (case find (\<lambda>z. visible_at tbl R (fst (snd z))) zs of None \<Rightarrow> (0, 0) | Some z \<Rightarrow> (snd (snd (snd z)), fst (snd (snd z))))"

lemma sizechain_law:
  assumes rep: "heap_rep pool S P" and zs: "sizes_at S h zs"
  obtains pool' where "\<forall>vfs. mapper_table vfs = tbl \<longrightarrow> sizechain_get (vfs\<lparr>vpool := pool\<rparr>) h E =
      Some (fst (size_entry tbl E zs), snd (size_entry tbl E zs), vfs\<lparr>vpool := pool'\<rparr>)"
    "heap_rep pool' S P" "same_store pool pool'"
proof -
  obtain r leaf pool' where
    w: "\<forall>vfs. mapper_table vfs = tbl \<longrightarrow> h \<noteq> 0 \<longrightarrow> vfs_chain_walk (vfs\<lparr>vpool := pool\<rparr>) h E = Some (r, leaf, vfs\<lparr>vpool := pool'\<rparr>)"
      "h = 0 \<longleftrightarrow> zs = []" "heap_rep pool' S P" "same_store pool pool'"
      "find (\<lambda>x. visible_at tbl E (fst (snd x))) zs = None \<longrightarrow> r = WALK_NOT_FOUND"
      "\<forall>x. find (\<lambda>x. visible_at tbl E (fst (snd x))) zs = Some x \<longrightarrow> r = WALK_FOUND \<and> size_node (ps_bytes leaf) x"
    by (rule chain_walk_seg [OF rep zs size_epoch])
  show thesis
  proof (cases "h = 0")
    case True
    with w(2) rep show thesis by (intro that [of pool]) (simp_all add: sizechain_get_def size_entry_def)
  next
    case False
    with w show thesis
      by (intro that [of pool']) (auto simp: sizechain_get_def size_entry_def size_node_def simp del: split_paired_All split: option.splits)
  qed
qed

text \<open>The size of a file.\<close>

lemma file_size_law:
  assumes rep: "heap_rep pool S P" and wf: "file_wf n S P f zs ss"
  obtains pool' where "\<forall>vfs. mapper_table vfs = tbl \<longrightarrow> vfs_file_size (vfs\<lparr>vpool := pool\<rparr>) f E =
      Some (fst (size_entry tbl (mapper_table_resolve tbl E) zs), vfs\<lparr>vpool := pool'\<rparr>)"
    "heap_rep pool' S P" "same_store pool pool'"
proof -
  obtain fb where fb: "S f = Some fb" "rd2 fb 0 = NODE_TYPE_FILE" "sizes_at S (rd8i fb 16) zs" "segments_seg S (rd8i fb 8) ss 0" by (rule file_head [OF wf])
  obtain pool1 where q: "\<forall>vfs. vfs_acquire (vfs\<lparr>vpool := pool\<rparr>) f False = (unpinned f fb, vfs\<lparr>vpool := pool1\<rparr>)"
      "heap_rep pool1 S P" "same_store pool pool1" "f \<noteq> 0" "length fb = 32" by (rule at_acquire [OF rep fb(1)])
  obtain pool2 where c: "\<forall>vfs. mapper_table vfs = tbl \<longrightarrow> sizechain_get (vfs\<lparr>vpool := pool1\<rparr>) (rd8i fb 16) (mapper_table_resolve tbl E) =
      Some (fst (size_entry tbl (mapper_table_resolve tbl E) zs), snd (size_entry tbl (mapper_table_resolve tbl E) zs), vfs\<lparr>vpool := pool2\<rparr>)"
    "heap_rep pool2 S P" "same_store pool1 pool2" by (rule sizechain_law [OF q(2) fb(3)])
  show thesis
    by (rule that [of pool2]) (use q(1,4) c(1,2) fb(2) same_store_trans [OF q(3) c(3)] in \<open>simp_all add: vfs_file_size_def file_size_entry_def case_prod_beta\<close>)
qed

section \<open>The histories of a file\<close>

definition contents :: "(int \<rightharpoonup> bytes) \<Rightarrow> file_version list \<Rightarrow> history" where
  "contents P vs = map (\<lambda>v. (fst (snd v), the (P (snd (snd v))))) vs"

definition page_history :: "nat \<Rightarrow> (int \<rightharpoonup> bytes) \<Rightarrow> file_segment list \<Rightarrow> nat \<Rightarrow> history" where
  "page_history n P ss q = contents P (page_versions n ss q)"

lemma find_contents:
  "find (\<lambda>x. Q (fst x)) (contents P vs) = map_option (\<lambda>v. (fst (snd v), the (P (snd (snd v))))) (find (\<lambda>v. Q (fst (snd v))) vs)"
  by (induction vs) (auto simp: contents_def)

lemma contents_cong: "(\<And>v. v \<in> set vs \<Longrightarrow> P' (snd (snd v)) = P (snd (snd v))) \<Longrightarrow> contents P' vs = contents P vs"
  by (simp add: contents_def)

text \<open>A change of the data page of the version of an epoch.\<close>

lemma contents_put:
  assumes "find (\<lambda>v. fst (snd v) = e) vs = Some v" "distinct (map (\<lambda>v. snd (snd v)) vs)"
  shows "contents (P(snd (snd v) \<mapsto> b)) vs = history_put e (\<lambda>_. b) (contents P vs)"
  using assms
proof (induction vs)
  case (Cons y vs)
  have out: "snd (snd y) \<notin> (\<lambda>v. snd (snd v)) ` set vs" "distinct (map (\<lambda>v. snd (snd v)) vs)" using Cons.prems(2) by simp_all
  have ne: "snd (snd x) \<noteq> snd (snd y)" if "x \<in> set vs" for x using out(1) imageI [OF that, of "\<lambda>v. snd (snd v)"] by metis
  show ?case
  proof (cases "fst (snd y) = e")
    case True
    then have "v = y" using Cons.prems(1) by simp
    moreover have "contents (P(snd (snd y) \<mapsto> b)) vs = contents P vs" by (rule contents_cong) (simp add: ne)
    ultimately show ?thesis using True by (simp add: contents_def)
  next
    case False
    then have v: "find (\<lambda>v. fst (snd v) = e) vs = Some v" using Cons.prems(1) by simp
    then have "snd (snd v) \<noteq> snd (snd y)" by (intro ne) (blast dest: find_mem)
    with Cons.IH [OF v out(2)] False show ?thesis by (simp add: contents_def)
  qed
qed simp

lemma history_put_find: "find (\<lambda>x. fst x = e) h = Some x \<Longrightarrow> history_put e g h = history_put e (\<lambda>_. g (snd x)) h"
  by (induction h) auto

section \<open>Writing a version\<close>

lemma at_malloc: "heap_rep pool S P \<Longrightarrow> vfs_malloc (vfs\<lparr>vpool := pool\<rparr>) = (True, vfs\<lparr>vpool := pool\<rparr>)"
  by (rule vfs_malloc_law) simp

lemma write_in_place:
  assumes rep: "heap_rep pool S P" and u: "S u = Some ub" and vs: "versions_at S (rd8i ub 8) vs"
    and hit: "find (\<lambda>v. fst (snd v) = word_of_int e) vs = Some v" and b: "P (snd (snd v)) = Some b"
    and len: "off + length src \<le> page_size (pool_sb pool)"
  obtains pool' where "\<forall>vfs. write_version (vfs\<lparr>vpool := pool\<rparr>) (pinned u ub) e off src = Some (None, vfs\<lparr>vpool := pool'\<rparr>)"
    "heap_rep pool' S (P(snd (snd v) \<mapsto> blit b off src))" "same_store pool pool'"
proof -
  let ?d = "snd (snd v)"
  from version_search_law [OF rep vs, of "\<lambda>e'. e' = word_of_int e"] hit obtain pool1 where
    s: "version_search (\<lambda>e'. e' = word_of_int e) (rd8i ub 8) pool = Some (Some ?d, pool1)" "heap_rep pool1 S P" "same_store pool pool1" by auto
  from nh.dread_law [OF s(2) b] obtain st pool2 where
    r: "data_read pool1 ?d = (Some b, st, pool2)" "heap_rep pool2 S P" "same_store pool1 pool2" by (auto simp: same_store_def)
  have ps: "page_size (pool_sb pool2) = page_size (pool_sb pool)" using s(3) r(3) by (simp add: same_store_def)
  have lb: "length (blit b off src) = page_size (pool_sb pool2)" using nh.page_shape [OF rep b] ps len by simp
  from nh.dwrite_law [OF r(2) _ lb, of ?d] b have
    w: "heap_rep (data_write pool2 ?d (blit b off src)) S (P(?d \<mapsto> blit b off src))" "same_store pool2 (data_write pool2 ?d (blit b off src))"
    by (auto simp: same_store_def)
  have lu: "u \<in> dom S" "length ub = 32" "S(u \<mapsto> ub) = S" using u nh.slot_shape [OF rep u] by auto
  obtain pool3 where t: "\<forall>vfs. vfs_release (vfs\<lparr>vpool := data_write pool2 ?d (blit b off src)\<rparr>) (pinned u ub) = vfs\<lparr>vpool := pool3\<rparr>"
      "heap_rep pool3 (S(u \<mapsto> ub)) (P(?d \<mapsto> blit b off src))" "same_store (data_write pool2 ?d (blit b off src)) pool3"
    by (rule at_release [OF w(1) lu(1,2)])
  show thesis
    by (rule that [of pool3]) (use t(2) lu(3) same_store_trans [OF same_store_trans [OF same_store_trans [OF s(3) r(3)] w(2)] t(3)] in
        \<open>simp_all add: write_version_def s(1) r(1) t(1)\<close>)
qed

lemma cow_base_law:
  assumes rep: "heap_rep pool S P" and base: "\<forall>d. dp = Some d \<longrightarrow> d \<in> dom P"
  obtains pool' where "\<forall>vfs. cow_base (vfs\<lparr>vpool := pool\<rparr>) dp =
      (Some (case dp of None \<Rightarrow> zero_bytes (page_size (pool_sb pool)) | Some d \<Rightarrow> the (P d)), vfs\<lparr>vpool := pool'\<rparr>)"
    "heap_rep pool' S P" "same_store pool pool'" "fresh_page pool' S P = fresh_page pool S P"
    "length (case dp of None \<Rightarrow> zero_bytes (page_size (pool_sb pool)) | Some d \<Rightarrow> the (P d)) = page_size (pool_sb pool)"
proof (cases dp)
  case None
  then show thesis using rep by (intro that [of pool]) (simp_all add: cow_base_def)
next
  case (Some d)
  then obtain b where b: "P d = Some b" using base by auto
  from nh.dread_law [OF rep b] obtain st pool2 where
    r: "data_read pool d = (Some b, st, pool2)" "heap_rep pool2 S P" "same_store pool pool2" "fresh_page pool2 S P = fresh_page pool S P"
    by (auto simp: same_store_def)
  from nh.page_shape [OF rep b] r b Some show thesis by (intro that [of pool2]) (simp_all add: cow_base_def)
qed

lemma write_cow:
  assumes rep: "heap_rep pool S P" and u: "S u = Some ub" and vs: "versions_at S (rd8i ub 8) vs"
    and miss: "find (\<lambda>v. fst (snd v) = word_of_int e) vs = None" and pages: "\<forall>v\<in>set vs. snd (snd v) \<in> dom P"
    and len: "off + length src \<le> page_size (pool_sb pool)" and room: "store_room (pool_sb pool) (Suc (Suc k))"
  obtains w d vb pool' where
    "\<forall>vfs. filelock_lookup (lock_table vfs) u = None \<longrightarrow>
       write_version (vfs\<lparr>vpool := pool\<rparr>) (pinned u ub) e off src = Some (None, vfs\<lparr>vpool := pool'\<rparr>)"
    "heap_rep pool' (S(w \<mapsto> vb, u \<mapsto> wr8i ub 8 w))
       (P(d \<mapsto> blit (history_base (page_size (pool_sb pool)) (word_of_int e) (contents P vs)) off src))"
    "w \<notin> dom S" "d \<notin> dom P" "i64 w" "version_node vb (w, word_of_int e, d)" "rd8i vb 24 = rd8i ub 8"
    "store_room (pool_sb pool') k" "page_size (pool_sb pool') = page_size (pool_sb pool)"
proof -
  let ?e = "word_of_int e :: u32" and ?ps = "page_size (pool_sb pool)"
  let ?old = "\<lambda>e'. e' < ?e \<and> even (uint e')"
  define dp where "dp = map_option (\<lambda>v. snd (snd v)) (find (\<lambda>v. ?old (fst (snd v))) vs)"
  define base where "base = history_base ?ps ?e (contents P vs)"
  have base: "base = (case dp of None \<Rightarrow> zero_bytes ?ps | Some d \<Rightarrow> the (P d))"
    using find_contents [of ?old P vs] by (simp add: base_def history_base_def dp_def split: option.splits)
  have dp: "\<forall>d. dp = Some d \<longrightarrow> d \<in> dom P" using pages by (auto simp: dp_def dest!: find_mem)
  from version_search_law [OF rep vs, of "\<lambda>e'. e' = ?e"] miss obtain pool1 where
    s: "version_search (\<lambda>e'. e' = ?e) (rd8i ub 8) pool = Some (None, pool1)" "heap_rep pool1 S P" "same_store pool pool1" by auto
  from version_search_law [OF s(2) vs, of ?old] obtain pool2 where
    t: "version_search ?old (rd8i ub 8) pool1 = Some (dp, pool2)" "heap_rep pool2 S P" "same_store pool1 pool2" by (auto simp: dp_def)
  have st2: "store_room (pool_sb pool2) (Suc (Suc k))" "page_size (pool_sb pool2) = ?ps" using s(3) t(3) room by (simp_all add: same_store_def)
  from nh.dalloc_law [OF t(2) st2(1)] obtain d pool3 where
    d: "data_alloc pool2 = Some (d, pool3)" "d \<notin> dom P" "0 \<le> d" "heap_rep pool3 S P" "fresh_page pool3 S P d" "store_room (pool_sb pool3) (Suc k)"
      "page_size (pool_sb pool3) = ?ps" using st2(2) by auto
  obtain pool4 where c: "\<forall>vfs. cow_base (vfs\<lparr>vpool := pool3\<rparr>) dp =
      (Some (case dp of None \<Rightarrow> zero_bytes (page_size (pool_sb pool3)) | Some d \<Rightarrow> the (P d)), vfs\<lparr>vpool := pool4\<rparr>)"
    "heap_rep pool4 S P" "same_store pool3 pool4" "fresh_page pool4 S P = fresh_page pool3 S P"
    "length (case dp of None \<Rightarrow> zero_bytes (page_size (pool_sb pool3)) | Some d \<Rightarrow> the (P d)) = page_size (pool_sb pool3)"
    by (rule cow_base_law [OF d(4) dp])
  have cb: "\<forall>vfs. cow_base (vfs\<lparr>vpool := pool3\<rparr>) dp = (Some base, vfs\<lparr>vpool := pool4\<rparr>)" "length base = ?ps"
    using c(1,5) unfolding base d(7) by blast+
  let ?P = "P(d \<mapsto> blit base off src)" and ?pool5 = "data_write pool4 d (blit base off src)"
  have ps4: "page_size (pool_sb pool4) = ?ps" using c(3) d(7) by (simp add: same_store_def)
  have lb: "length (blit base off src) = page_size (pool_sb pool4)" using cb(2) ps4 len by simp
  have fr: "d \<in> dom P \<or> fresh_page pool4 S P d" using c(4) d(5) by simp
  from nh.dwrite_law [OF c(2) fr lb] have w5: "heap_rep ?pool5 S ?P" "store_room (pool_sb ?pool5) = store_room (pool_sb pool4)"
    "page_size (pool_sb ?pool5) = page_size (pool_sb pool4)" by blast+
  have room5: "store_room (pool_sb ?pool5) (Suc k)" "page_size (pool_sb ?pool5) = ?ps" using w5(2,3) c(3) d(6) ps4 by (simp_all add: same_store_def)
  obtain w jb pool6 pool7 where
    a: "\<forall>vfs. vfs_alloc (vfs\<lparr>vpool := ?pool5\<rparr>) = Some (w, vfs\<lparr>vpool := pool6\<rparr>)"
      "\<forall>vfs. vfs_acquire (vfs\<lparr>vpool := pool6\<rparr>) w True = (pinned w jb, vfs\<lparr>vpool := pool7\<rparr>)"
      "w \<notin> dom S" "w \<noteq> 0" "i64 w" "length jb = 32" "heap_rep pool7 (S(w \<mapsto> jb)) ?P" "store_room (pool_sb pool7) k"
      "page_size (pool_sb pool7) = page_size (pool_sb ?pool5)"
    by (rule at_new [OF w5(1) room5(1)])
  let ?vb = "nodes_write_versionpage jb \<lparr>vp_epoch = ?e, vp_dataPage = d, vp_nextPtr = rd8i ub 8\<rparr>"
  have "d < 2 ^ 31" using nh.page_shape [OF w5(1), of d] by simp
  then have vb: "length ?vb = 32" "version_node ?vb (w, ?e, d)" "rd8i ?vb 24 = rd8i ub 8"
    using a(6) d(3) by (simp_all add: node_simps buf_simps version_node_def i64_def)
  have dw: "w \<in> dom (S(w \<mapsto> jb))" by simp
  obtain pool8 where r: "\<forall>vfs. vfs_release (vfs\<lparr>vpool := pool7\<rparr>) (pinned w ?vb) = vfs\<lparr>vpool := pool8\<rparr>"
      "heap_rep pool8 ((S(w \<mapsto> jb))(w \<mapsto> ?vb)) ?P" "same_store pool7 pool8" by (rule at_release [OF a(7) dw vb(1)])
  have rep8: "heap_rep pool8 (S(w \<mapsto> ?vb)) ?P" using r(2) by simp
  have lu: "u \<in> dom (S(w \<mapsto> ?vb))" "length (wr8i ub 8 w) = 32" using u nh.slot_shape [OF rep u] by (auto simp: buf_simps)
  obtain pool9 where q: "\<forall>vfs. vfs_release (vfs\<lparr>vpool := pool8\<rparr>) (pinned u (wr8i ub 8 w)) = vfs\<lparr>vpool := pool9\<rparr>"
      "heap_rep pool9 ((S(w \<mapsto> ?vb))(u \<mapsto> wr8i ub 8 w)) ?P" "same_store pool8 pool9" by (rule at_release [OF rep8 lu])
  have eq: "\<forall>vfs. filelock_lookup (lock_table vfs) u = None \<longrightarrow>
       write_version (vfs\<lparr>vpool := pool\<rparr>) (pinned u ub) e off src = Some (None, vfs\<lparr>vpool := pool9\<rparr>)"
  proof (intro allI impI)
    fix vfs :: vfs_t assume free: "filelock_lookup (lock_table vfs) u = None"
    let ?v = "vfs\<lparr>lock_table := lock_taken (lock_table vfs) u e\<rparr>"
    have l: "vfs_lock (vfs\<lparr>vpool := pool8\<rparr>) u e = Some (VFS_OK, ?v\<lparr>vpool := pool8\<rparr>)"
      using vfs_lock_law [of "vfs\<lparr>vpool := pool8\<rparr>" "S(w \<mapsto> ?vb)" ?P u e] rep8 free by simp
    have ul: "vfs_unlock (?v\<lparr>vpool := pool8\<rparr>) u e = (VFS_OK, vfs\<lparr>vpool := pool8\<rparr>)"
      using vfs_unlock_law [OF free, of "?v\<lparr>vpool := pool8\<rparr>" e] by simp
    show "write_version (vfs\<lparr>vpool := pool\<rparr>) (pinned u ub) e off src = Some (None, vfs\<lparr>vpool := pool9\<rparr>)"
      unfolding write_version_def using d(3) a(4)
      by (simp add: s(1) t(1) d(1) at_malloc [OF d(4)] cb(1) a(1,2) r(1) l ul q(1) Let_def)
  qed
  have st: "store_room (pool_sb pool9) k" "page_size (pool_sb pool9) = ?ps"
    using a(8,9) r(3) q(3) room5(2) by (simp_all add: same_store_def)
  show thesis by (rule that [OF eq _ a(3) d(2) a(5) vb(2,3) st]) (use q(2) in \<open>simp add: base_def\<close>)
qed

lemma page_versions_pages:
  assumes "x \<in> set (page_versions n ss q)"
  shows "snd (snd x) \<in> set (file_pages ss)"
proof -
  from assms obtain y where y: "page_unit n ss q = Some y" "x \<in> set (snd (snd y))"
    unfolding page_versions_def by (cases "page_unit n ss q") simp_all
  then have m: "q div n < length ss" "y \<in> set (snd (ss ! (q div n)))" by (auto simp: page_unit_def dest!: find_mem split: if_splits)
  then have "y \<in> set (concat (map snd ss))" using nth_mem [OF m(1)] unfolding set_concat set_map by blast
  moreover have "snd (snd x) \<in> set (unit_pages y)" using y(2) unfolding unit_pages_def set_map by blast
  ultimately show ?thesis unfolding file_pages_def set_concat set_map by blast
qed

lemma file_pages_mid:
  obtains A B where "\<And>vs. file_pages (ss1 @ (a, us1 @ (u, i, vs) # us2) # ss2) = A @ map (\<lambda>v. snd (snd v)) vs @ B"
    "file_pages (ss1 @ (a, us1 @ us2) # ss2) = A @ B"
  by (rule that [of "concat (map unit_pages (concat (map snd ss1))) @ concat (map unit_pages us1)"
        "concat (map unit_pages us2) @ concat (map unit_pages (concat (map snd ss2)))"])
    (simp_all add: file_pages_def unit_pages_def)

lemma file_pages_split:
  "set (file_pages (ss1 @ (a, us1 @ (u, i, vs) # us2) # ss2)) =
     (\<lambda>v. snd (snd v)) ` set vs \<union> set (file_pages (ss1 @ (a, us1 @ us2) # ss2))"
proof -
  obtain A B where "\<And>vs. file_pages (ss1 @ (a, us1 @ (u, i, vs) # us2) # ss2) = A @ map (\<lambda>v. snd (snd v)) vs @ B"
    "file_pages (ss1 @ (a, us1 @ us2) # ss2) = A @ B" using file_pages_mid by blast
  then show ?thesis by (simp only: set_append set_map) blast
qed

lemma file_pages_distinct:
  "distinct (file_pages (ss1 @ (a, us1 @ (u, i, vs) # us2) # ss2)) \<longleftrightarrow>
     distinct (map (\<lambda>v. snd (snd v)) vs) \<and> (\<lambda>v. snd (snd v)) ` set vs \<inter> set (file_pages (ss1 @ (a, us1 @ us2) # ss2)) = {}
     \<and> distinct (file_pages (ss1 @ (a, us1 @ us2) # ss2))"
proof -
  obtain A B where "\<And>vs. file_pages (ss1 @ (a, us1 @ (u, i, vs) # us2) # ss2) = A @ map (\<lambda>v. snd (snd v)) vs @ B"
    "file_pages (ss1 @ (a, us1 @ us2) # ss2) = A @ B" using file_pages_mid by blast
  then show ?thesis by (simp only: distinct_append set_append set_map) blast
qed

lemma file_wf_version:
  assumes wf: "file_wf n V P f zs (ss1 @ (a, us1 @ (u, i, vs) # us2) # ss2)"
    and at: "file_at V' f zs (ss1 @ (a, us1 @ (u, i, (w, e, d) # vs) # us2) # ss2)"
    and new: "w \<notin> set (file_slots f zs (ss1 @ (a, us1 @ (u, i, vs) # us2) # ss2))" "d \<notin> dom P" "dom P' = insert d (dom P)"
  shows "file_wf n V' P' f zs (ss1 @ (a, us1 @ (u, i, (w, e, d) # vs) # us2) # ss2)"
proof -
  let ?ss = "ss1 @ (a, us1 @ (u, i, vs) # us2) # ss2" and ?ss' = "ss1 @ (a, us1 @ (u, i, (w, e, d) # vs) # us2) # ss2"
  have "distinct (file_slots f zs ?ss') \<longleftrightarrow> distinct (w # file_slots f zs ?ss)"
    by (auto simp: file_slots_def segment_slots_def unit_slots_def)
  moreover have "distinct (file_pages ?ss') \<longleftrightarrow> distinct (d # file_pages ?ss)" "set (file_pages ?ss') = insert d (set (file_pages ?ss))"
    by (simp_all only: distinct.simps file_pages_distinct file_pages_split list.map list.set set_map image_insert snd_conv) blast+
  moreover have "map (\<lambda>x. unat (unit_index x)) (us1 @ (u, i, (w, e, d) # vs) # us2) = map (\<lambda>x. unat (unit_index x)) (us1 @ (u, i, vs) # us2)" by simp
  moreover have "(\<forall>x\<in>set (us1 @ (u, i, (w, e, d) # vs) # us2). unat (unit_index x) < n) \<longleftrightarrow> (\<forall>x\<in>set (us1 @ (u, i, vs) # us2). unat (unit_index x) < n)" by auto
  ultimately show ?thesis using wf at new unfolding file_wf_def by (simp add: ball_Un) blast
qed

text \<open>One page of a write, on a file whose unit of the page has been resolved.\<close>

lemma write_version_law:
  assumes rep: "heap_rep pool S P" and wf: "file_wf n S P f zs (ss1 @ (a, us1 @ (u, i, vs) # us2) # ss2)" and u: "S u = Some ub"
    and len: "off + length src \<le> page_size (pool_sb pool)" and room: "store_room (pool_sb pool) (Suc (Suc k))"
    and q: "q = length ss1 * n + unat i"
  obtains pool' S' P' vs' where
    "\<forall>vfs. only_lock f vfs \<longrightarrow> write_version (vfs\<lparr>vpool := pool\<rparr>) (pinned u ub) e off src = Some (None, vfs\<lparr>vpool := pool'\<rparr>)"
    "heap_rep pool' S' P'" "file_wf n S' P' f zs (ss1 @ (a, us1 @ (u, i, vs') # us2) # ss2)"
    "heap_grow S (set (file_slots f zs (ss1 @ (a, us1 @ (u, i, vs) # us2) # ss2))) S' (set (file_slots f zs (ss1 @ (a, us1 @ (u, i, vs') # us2) # ss2)))"
    "heap_grow P (set (file_pages (ss1 @ (a, us1 @ (u, i, vs) # us2) # ss2))) P' (set (file_pages (ss1 @ (a, us1 @ (u, i, vs') # us2) # ss2)))"
    "store_room (pool_sb pool') k" "page_size (pool_sb pool') = page_size (pool_sb pool)"
    "page_history n P' (ss1 @ (a, us1 @ (u, i, vs') # us2) # ss2) = (page_history n P (ss1 @ (a, us1 @ (u, i, vs) # us2) # ss2))
       (q := history_write (page_size (pool_sb pool)) (word_of_int e) off src (contents P vs))"
proof -
  let ?ss = "\<lambda>vs. ss1 @ (a, us1 @ (u, i, vs) # us2) # ss2" and ?e = "word_of_int e :: u32" and ?ps = "page_size (pool_sb pool)"
  let ?A = "set (file_slots f zs (?ss vs))"
  obtain ab where ab: "S a = Some ab" "units_seg S (rd8i ab 8) (us1 @ (u, i, vs) # us2) 0" "rd4 ab 24 = of_nat (length (us1 @ (u, i, vs) # us2))"
    "sorted_wrt (<) (map (\<lambda>x. unat (unit_index x)) (us1 @ (u, i, vs) # us2))" "\<forall>x\<in>set (us1 @ (u, i, vs) # us2). unat (unit_index x) < n"
    "a \<noteq> f" "a \<notin> fst ` set (us1 @ (u, i, vs) # us2)" by (rule file_segment_at [OF wf])
  from list_seg_mem [OF ab(2), of "(u, i, vs)"] u have vsu: "versions_at S (rd8i ub 8) vs" by (auto simp: unit_node_def)
  have idx: "\<forall>x\<in>set (us1 @ us2). unit_index x \<noteq> i" "unat i < n" using sorted_index_unique(1) [OF ab(4)] ab(5) by auto
  have at: "file_at S f zs (?ss vs)" and dist: "distinct (file_slots f zs (?ss vs))" and dp: "distinct (file_pages (?ss vs))"
    and pd: "set (file_pages (?ss vs)) \<subseteq> dom P" using wf by (auto simp: file_wf_def)
  have A: "?A \<subseteq> dom S" by (rule file_at_slots [OF at])
  have uf: "u \<noteq> f" "u \<in> ?A" using dist by (auto simp: file_slots_def segment_slots_def unit_slots_def)
  have pages: "\<forall>v\<in>set vs. snd (snd v) \<in> dom P" using pd unfolding file_pages_split by blast
  have pv: "page_versions n (?ss ws) q' = (if q' = q then ws else page_versions n (ss1 @ (a, us1 @ us2) # ss2) q')" for ws q'
    using page_versions_unit [OF idx, of ss1 a u ws ss2 q'] q by simp
  have other: "contents P' (page_versions n (ss1 @ (a, us1 @ us2) # ss2) q') = contents P (page_versions n (ss1 @ (a, us1 @ us2) # ss2) q')"
    if "\<And>d. d \<in> set (file_pages (ss1 @ (a, us1 @ us2) # ss2)) \<Longrightarrow> P' d = P d" for P' q'
    by (rule contents_cong) (use that page_versions_pages in blast)
  have hist: "page_history n P' (?ss ws) = (page_history n P (?ss vs))(q := contents P' ws)"
    if "\<And>d. d \<in> set (file_pages (ss1 @ (a, us1 @ us2) # ss2)) \<Longrightarrow> P' d = P d" for P' ws
    using other [OF that] by (auto simp: page_history_def pv)
  show thesis
  proof (cases "find (\<lambda>v. fst (snd v) = ?e) vs")
    case (Some v)
    have v: "v \<in> set vs" using Some by (blast dest: find_mem)
    then obtain b where b: "P (snd (snd v)) = Some b" using pages by blast
    let ?P = "P(snd (snd v) \<mapsto> blit b off src)"
    obtain pool' where w: "\<forall>vfs. write_version (vfs\<lparr>vpool := pool\<rparr>) (pinned u ub) e off src = Some (None, vfs\<lparr>vpool := pool'\<rparr>)"
      "heap_rep pool' S ?P" "same_store pool pool'" by (rule write_in_place [OF rep u vsu Some b len])
    have out: "P d = ?P d" if "d \<in> set (file_pages (ss1 @ (a, us1 @ us2) # ss2))" for d
    proof -
      have "snd (snd v) \<in> (\<lambda>v. snd (snd v)) ` set vs" using v by (rule imageI)
      then have "d \<noteq> snd (snd v)" using dp that unfolding file_pages_distinct by blast
      then show ?thesis by simp
    qed
    have fc: "find (\<lambda>x. fst x = ?e) (contents P vs) = Some (fst (snd v), b)" using find_contents [of "\<lambda>e'. e' = ?e" P vs] Some b by simp
    have hw: "history_write ?ps ?e off src (contents P vs) = history_put ?e (\<lambda>b. blit b off src) (contents P vs)"
      using find_mem [OF fc] by (auto simp: history_write_def)
    also have "\<dots> = contents ?P vs"
      using contents_put [OF Some, of P "blit b off src"] dp history_put_find [OF fc, of "\<lambda>b. blit b off src"] unfolding file_pages_distinct by simp
    finally have hw': "contents ?P vs = history_write ?ps ?e off src (contents P vs)" by simp
    have wf': "file_wf n S ?P f zs (?ss vs)" by (rule file_wf_cong [OF wf]) (use pd in auto)
    have g: "heap_grow P (set (file_pages (?ss vs))) ?P (set (file_pages (?ss vs)))"
      by (rule heap_grow_upd) (use v in \<open>auto simp: file_pages_split\<close>)
    have st: "store_room (pool_sb pool') k" "page_size (pool_sb pool') = ?ps"
      using w(3) room nh.room_mono [of pool _ k] by (auto simp: same_store_def)
    show thesis
      by (rule that [OF _ w(2) wf' heap_grow_refl g st]) (use w(1) hist [of ?P vs] out hw' in auto)
  next
    case None
    obtain w d vb pool' where
      c: "\<forall>vfs. filelock_lookup (lock_table vfs) u = None \<longrightarrow>
           write_version (vfs\<lparr>vpool := pool\<rparr>) (pinned u ub) e off src = Some (None, vfs\<lparr>vpool := pool'\<rparr>)"
        "heap_rep pool' (S(w \<mapsto> vb, u \<mapsto> wr8i ub 8 w)) (P(d \<mapsto> blit (history_base ?ps ?e (contents P vs)) off src))"
        "w \<notin> dom S" "d \<notin> dom P" "i64 w" "version_node vb (w, ?e, d)" "rd8i vb 24 = rd8i ub 8"
        "store_room (pool_sb pool') k" "page_size (pool_sb pool') = ?ps"
      by (rule write_cow [OF rep u vsu None pages len room])
    let ?vs = "(w, ?e, d) # vs" and ?S = "S(w \<mapsto> vb, u \<mapsto> wr8i ub 8 w)" and ?P = "P(d \<mapsto> blit (history_base ?ps ?e (contents P vs)) off src)"
    have wA: "w \<notin> ?A" using c(3) A by auto
    have lu: "length ub = 32" using nh.slot_shape [OF rep u] by simp
    have at': "file_at ?S f zs (?ss ?vs)" by (rule file_at_version [OF at dist wA c(5) u lu c(6,7)])
    have wf': "file_wf n ?S ?P f zs (?ss ?vs)" by (rule file_wf_version [OF wf at' wA c(4)]) simp
    have slots: "set (file_slots f zs (?ss ?vs)) = insert w ?A"
      by (simp add: file_slots_def segment_slots_def unit_slots_def) blast
    have "heap_grow S ?A (S(w \<mapsto> vb)) (insert w ?A)" using c(3) by (auto simp: heap_grow_def)
    then have g: "heap_grow S ?A ?S (set (file_slots f zs (?ss ?vs)))" unfolding slots by (rule heap_grow_upd) (use uf(2) in simp)
    have gp: "heap_grow P (set (file_pages (?ss vs))) ?P (set (file_pages (?ss ?vs)))"
    proof -
      have pages': "set (file_pages (?ss ?vs)) = insert d (set (file_pages (?ss vs)))" unfolding file_pages_split by simp
      show ?thesis unfolding pages' using c(4) by (auto simp: heap_grow_def)
    qed
    have out: "?P x = P x" if "x \<in> set (file_pages (ss1 @ (a, us1 @ us2) # ss2))" for x
      using that pd c(4) unfolding file_pages_split by auto
    have "contents ?P vs = contents P vs" by (rule contents_cong) (use pages c(4) in auto)
    moreover have "\<not> (\<exists>x\<in>set (contents P vs). fst x = ?e)" using None by (auto simp: contents_def find_None_iff)
    ultimately have hw: "contents ?P ?vs = history_write ?ps ?e off src (contents P vs)" by (simp add: history_write_def contents_def)
    have eq: "\<forall>vfs. only_lock f vfs \<longrightarrow> write_version (vfs\<lparr>vpool := pool\<rparr>) (pinned u ub) e off src = Some (None, vfs\<lparr>vpool := pool'\<rparr>)"
      using c(1) uf(1) by blast
    show thesis by (rule that [OF eq c(2) wf' g gp c(8,9)]) (use hist [of ?P ?vs] out hw in auto)
  qed
qed

section \<open>Writing a file\<close>

lemma write_page_law:
  assumes rep: "heap_rep pool S P" and wf: "file_wf n S P f zs ss" and n: "0 < n" "n \<le> 2 ^ 32" and small: "units_le B ss" "B < 63"
    and len: "off + length src \<le> page_size (pool_sb pool)" and room: "store_room (pool_sb pool) (q div n + 4 + k)"
  obtains u ub pool1 pool' S' P' ss' where
    "\<forall>vfs. only_lock f vfs \<and> cold vfs f \<and> unat (vfs_segment_size vfs) = n \<longrightarrow>
       tree_resolve_page (vfs\<lparr>vpool := pool\<rparr>) f (int q) e True = Some (True, pinned u ub, vfs\<lparr>vpool := pool1\<rparr>)"
    "page_size (pool_sb pool1) = page_size (pool_sb pool)"
    "\<forall>vfs. only_lock f vfs \<longrightarrow> write_version (vfs\<lparr>vpool := pool1\<rparr>) (pinned u ub) e off src = Some (None, vfs\<lparr>vpool := pool'\<rparr>)"
    "heap_rep pool' S' P'" "file_wf n S' P' f zs ss'" "heap_grow S (set (file_slots f zs ss)) S' (set (file_slots f zs ss'))"
    "heap_grow P (set (file_pages ss)) P' (set (file_pages ss'))" "units_le (Suc B) ss'"
    "store_room (pool_sb pool') k" "page_size (pool_sb pool') = page_size (pool_sb pool)"
    "page_history n P' ss' = (page_history n P ss)
       (q := history_write (page_size (pool_sb pool)) (word_of_int e) off src (page_history n P ss q))"
proof -
  have r4: "store_room (pool_sb pool) (q div n + Suc (Suc (Suc (Suc k))))" using room by (simp add: numeral_eq_Suc)
  let ?i = "of_nat (q mod n) :: u32" and ?vs = "page_versions n ss q"
  obtain ss1 a us1 u ub us2 ss2 pool1 S1 where
    r: "\<forall>vfs. only_lock f vfs \<and> cold vfs f \<and> unat (vfs_segment_size vfs) = n \<longrightarrow>
         tree_resolve_page (vfs\<lparr>vpool := pool\<rparr>) f (int q) e True = Some (True, pinned u ub, vfs\<lparr>vpool := pool1\<rparr>)"
      "heap_rep pool1 S1 P" "file_wf n S1 P f zs (ss1 @ (a, us1 @ (u, ?i, ?vs) # us2) # ss2)" "length ss1 = q div n"
      "S1 u = Some ub" "store_room (pool_sb pool1) (Suc (Suc k))" "page_size (pool_sb pool1) = page_size (pool_sb pool)"
      "heap_grow S (set (file_slots f zs ss)) S1 (set (file_slots f zs (ss1 @ (a, us1 @ (u, ?i, ?vs) # us2) # ss2)))"
      "page_versions n (ss1 @ (a, us1 @ (u, ?i, ?vs) # us2) # ss2) = page_versions n ss"
      "units_le (Suc B) (ss1 @ (a, us1 @ (u, ?i, ?vs) # us2) # ss2)" "file_pages (ss1 @ (a, us1 @ (u, ?i, ?vs) # us2) # ss2) = file_pages ss"
    by (rule resolve_write [OF rep wf n small r4])
  have "q mod n < n" using n(1) by simp
  moreover then have "q mod n < 2 ^ 32" using n(2) by linarith
  ultimately have q: "q = length ss1 * n + unat ?i" using r(4) by (simp add: unat_of_nat take_bit_nat_eq_self div_mult_mod_eq)
  have len1: "off + length src \<le> page_size (pool_sb pool1)" using len r(7) by simp
  obtain pool' S' P' vs' where
    w: "\<forall>vfs. only_lock f vfs \<longrightarrow> write_version (vfs\<lparr>vpool := pool1\<rparr>) (pinned u ub) e off src = Some (None, vfs\<lparr>vpool := pool'\<rparr>)"
      "heap_rep pool' S' P'" "file_wf n S' P' f zs (ss1 @ (a, us1 @ (u, ?i, vs') # us2) # ss2)"
      "heap_grow S1 (set (file_slots f zs (ss1 @ (a, us1 @ (u, ?i, ?vs) # us2) # ss2))) S' (set (file_slots f zs (ss1 @ (a, us1 @ (u, ?i, vs') # us2) # ss2)))"
      "heap_grow P (set (file_pages (ss1 @ (a, us1 @ (u, ?i, ?vs) # us2) # ss2))) P' (set (file_pages (ss1 @ (a, us1 @ (u, ?i, vs') # us2) # ss2)))"
      "store_room (pool_sb pool') k" "page_size (pool_sb pool') = page_size (pool_sb pool1)"
      "page_history n P' (ss1 @ (a, us1 @ (u, ?i, vs') # us2) # ss2) = (page_history n P (ss1 @ (a, us1 @ (u, ?i, ?vs) # us2) # ss2))
         (q := history_write (page_size (pool_sb pool1)) (word_of_int e) off src (contents P ?vs))"
    by (rule write_version_law [OF r(2,3,5) len1 r(6) q])
  have ph: "page_history n P (ss1 @ (a, us1 @ (u, ?i, ?vs) # us2) # ss2) = page_history n P ss"
    by (rule ext) (simp add: page_history_def r(9))
  have le: "units_le (Suc B) (ss1 @ (a, us1 @ (u, ?i, vs') # us2) # ss2)" using r(10) by simp
  show thesis
    by (rule that [OF r(1,7) w(1,2,3) heap_grow_trans [OF r(8) w(4)] _ le w(6)])
      (use w(5,7,8) r(7,11) ph in \<open>simp_all add: page_history_def [of n P ss q]\<close>)
qed

lemma write_pages_law:
  assumes "heap_rep pool S P" and "file_wf n S P f zs ss" and n: "0 < n" "n \<le> 2 ^ 32" and "units_le B ss" "B + m \<le> 63"
    and "off \<le> page_size (pool_sb pool)" and "store_room (pool_sb pool) (m * K + k)" and "\<forall>j<m. (p + j) div n + 4 \<le> K"
  obtains pool' S' P' ss' where
    "\<forall>vfs. only_lock f vfs \<and> cold vfs f \<and> unat (vfs_segment_size vfs) = n \<longrightarrow>
       write_pages m f e (int p) off src (vfs\<lparr>vpool := pool\<rparr>) = Some (None, vfs\<lparr>vpool := pool'\<rparr>)"
    "heap_rep pool' S' P'" "file_wf n S' P' f zs ss'" "heap_grow S (set (file_slots f zs ss)) S' (set (file_slots f zs ss'))"
    "heap_grow P (set (file_pages ss)) P' (set (file_pages ss'))" "units_le (B + m) ss'"
    "store_room (pool_sb pool') k" "page_size (pool_sb pool') = page_size (pool_sb pool)"
    "page_history n P' ss' = put_pages m (page_size (pool_sb pool)) (word_of_int e) p off src (page_history n P ss)"
  using assms(1,2,5-)
proof (induction m arbitrary: p off src pool S P ss B thesis)
  case 0
  show thesis by (rule 0(1) [OF _ 0(2,3)]) (use 0 in auto)
next
  case (Suc m)
  let ?ps = "page_size (pool_sb pool)"
  let ?c = "min (?ps - off) (length src)"
  have len: "off + length (take ?c src) \<le> ?ps" using Suc.prems(6) by auto
  have room: "store_room (pool_sb pool) (p div n + 4 + (m * K + k))"
    by (rule nh.room_mono [OF Suc.prems(7)]) (use Suc.prems(8) [rule_format, of 0] in simp)
  have B: "B < 63" "Suc B + m \<le> 63" using Suc.prems(5) by auto
  obtain u ub pool1 pool2 S2 P2 ss2 where
    w: "\<forall>vfs. only_lock f vfs \<and> cold vfs f \<and> unat (vfs_segment_size vfs) = n \<longrightarrow>
       tree_resolve_page (vfs\<lparr>vpool := pool\<rparr>) f (int p) e True = Some (True, pinned u ub, vfs\<lparr>vpool := pool1\<rparr>)"
    "page_size (pool_sb pool1) = ?ps"
    "\<forall>vfs. only_lock f vfs \<longrightarrow> write_version (vfs\<lparr>vpool := pool1\<rparr>) (pinned u ub) e off (take ?c src) = Some (None, vfs\<lparr>vpool := pool2\<rparr>)"
    "heap_rep pool2 S2 P2" "file_wf n S2 P2 f zs ss2" "heap_grow S (set (file_slots f zs ss)) S2 (set (file_slots f zs ss2))"
    "heap_grow P (set (file_pages ss)) P2 (set (file_pages ss2))" "units_le (Suc B) ss2"
    "store_room (pool_sb pool2) (m * K + k)" "page_size (pool_sb pool2) = ?ps"
    "page_history n P2 ss2 = (page_history n P ss)
       (p := history_write ?ps (word_of_int e) off (take ?c src) (page_history n P ss p))"
    by (rule write_page_law [OF Suc.prems(2,3) n Suc.prems(4) B(1) len room])
  have K: "\<forall>j<m. (Suc p + j) div n + 4 \<le> K" using Suc.prems(8) by (metis Suc_less_eq add_Suc_shift)
  obtain pool' S' P' ss' where
    h: "\<forall>vfs. only_lock f vfs \<and> cold vfs f \<and> unat (vfs_segment_size vfs) = n \<longrightarrow>
       write_pages m f e (int (Suc p)) 0 (drop ?c src) (vfs\<lparr>vpool := pool2\<rparr>) = Some (None, vfs\<lparr>vpool := pool'\<rparr>)"
    "heap_rep pool' S' P'" "file_wf n S' P' f zs ss'" "heap_grow S2 (set (file_slots f zs ss2)) S' (set (file_slots f zs ss'))"
    "heap_grow P2 (set (file_pages ss2)) P' (set (file_pages ss'))" "units_le (Suc B + m) ss'"
    "store_room (pool_sb pool') k" "page_size (pool_sb pool') = page_size (pool_sb pool2)"
    "page_history n P' ss' = put_pages m (page_size (pool_sb pool2)) (word_of_int e) (Suc p) 0 (drop ?c src) (page_history n P2 ss2)"
    by (rule Suc.IH [OF _ w(4,5,8) B(2) le0 w(9) K])
  have eq: "write_pages (Suc m) f e (int p) off src (vfs\<lparr>vpool := pool\<rparr>) = Some (None, vfs\<lparr>vpool := pool'\<rparr>)"
    if "only_lock f vfs" "cold vfs f" "unat (vfs_segment_size vfs) = n" for vfs :: vfs_t
    using that w(1,3) h(1) by (simp add: w(2) add.commute)
  show thesis
    by (rule Suc.prems(1) [OF _ h(2,3) heap_grow_trans [OF w(6) h(4)] heap_grow_trans [OF w(7) h(5)] _ h(7)])
      (use eq h(6,8,9) w(10,11) in \<open>simp_all add: Let_def\<close>)
qed

text \<open>The new size of a file: a node in front of the chain of sizes, and the release of the file node.\<close>

lemma push_size_law:
  assumes rep: "heap_rep pool S P" and wf: "file_wf n S P f zs ss" and fb: "S f = Some fb" and room: "store_room (pool_sb pool) (Suc k)"
    and i64: "i64 sz" "i64 t"
  obtains z pool1 pool' S' where
    "\<forall>vfs. vfs_now vfs = t \<longrightarrow> push_filesize (vfs\<lparr>vpool := pool\<rparr>) (pinned f fb) e sz = Some (Some (pinned f (wr8i fb 16 z)), vfs\<lparr>vpool := pool1\<rparr>)"
    "\<forall>vfs. vfs_release (vfs\<lparr>vpool := pool1\<rparr>) (pinned f (wr8i fb 16 z)) = vfs\<lparr>vpool := pool'\<rparr>"
    "heap_rep pool' S' P" "file_wf n S' P f ((z, word_of_int e, t, sz) # zs) ss"
    "heap_grow S (set (file_slots f zs ss)) S' (set (file_slots f ((z, word_of_int e, t, sz) # zs) ss))"
    "store_room (pool_sb pool') k" "page_size (pool_sb pool') = page_size (pool_sb pool)"
proof -
  let ?e = "word_of_int e :: u32" and ?A = "set (file_slots f zs ss)"
  obtain z jb pool1 pool2 where
    a: "\<forall>vfs. vfs_alloc (vfs\<lparr>vpool := pool\<rparr>) = Some (z, vfs\<lparr>vpool := pool1\<rparr>)"
      "\<forall>vfs. vfs_acquire (vfs\<lparr>vpool := pool1\<rparr>) z True = (pinned z jb, vfs\<lparr>vpool := pool2\<rparr>)"
      "z \<notin> dom S" "z \<noteq> 0" "i64 z" "length jb = 32" "heap_rep pool2 (S(z \<mapsto> jb)) P" "store_room (pool_sb pool2) k"
      "page_size (pool_sb pool2) = page_size (pool_sb pool)"
    by (rule at_new [OF rep room])
  let ?zb = "nodes_write_filesize jb \<lparr>fs_epoch = ?e, fs_modifiedAt = t, fs_fileSize = sz, fs_nextPtr = rd8i fb 16\<rparr>"
  have zb: "length ?zb = 32" "size_node ?zb (z, ?e, t, sz)" "rd8i ?zb 24 = rd8i fb 16"
    using a(6) i64 by (simp_all add: node_simps buf_simps size_node_def)
  have dz: "z \<in> dom (S(z \<mapsto> jb))" by simp
  obtain pool3 where r: "\<forall>vfs. vfs_release (vfs\<lparr>vpool := pool2\<rparr>) (pinned z ?zb) = vfs\<lparr>vpool := pool3\<rparr>"
      "heap_rep pool3 ((S(z \<mapsto> jb))(z \<mapsto> ?zb)) P" "same_store pool2 pool3" by (rule at_release [OF a(7) dz zb(1)])
  have rep3: "heap_rep pool3 (S(z \<mapsto> ?zb)) P" using r(2) by simp
  have lf: "length fb = 32" "f \<in> dom (S(z \<mapsto> ?zb))" "length (wr8i fb 16 z) = 32" using fb nh.slot_shape [OF rep fb] by (auto simp: buf_simps)
  obtain pool4 where q: "\<forall>vfs. vfs_release (vfs\<lparr>vpool := pool3\<rparr>) (pinned f (wr8i fb 16 z)) = vfs\<lparr>vpool := pool4\<rparr>"
      "heap_rep pool4 ((S(z \<mapsto> ?zb))(f \<mapsto> wr8i fb 16 z)) P" "same_store pool3 pool4" by (rule at_release [OF rep3 lf(2,3)])
  have at: "file_at S f zs ss" and dist: "distinct (file_slots f zs ss)" using wf by (auto simp: file_wf_def)
  have zA: "z \<notin> ?A" using a(3) file_at_slots [OF at] by auto
  have at': "file_at (S(z \<mapsto> ?zb, f \<mapsto> wr8i fb 16 z)) f ((z, ?e, t, sz) # zs) ss"
    by (rule file_at_size [OF at dist zA a(5) fb lf(1) zb(2,3)])
  have slots: "set (file_slots f ((z, ?e, t, sz) # zs) ss) = insert z ?A" "distinct (file_slots f ((z, ?e, t, sz) # zs) ss)" "f \<in> ?A"
    using dist zA by (auto simp: file_slots_def)
  have wf': "file_wf n (S(z \<mapsto> ?zb, f \<mapsto> wr8i fb 16 z)) P f ((z, ?e, t, sz) # zs) ss"
    using wf at' slots(2) by (auto simp: file_wf_def)
  have "heap_grow S ?A (S(z \<mapsto> ?zb)) (insert z ?A)" using a(3) by (auto simp: heap_grow_def)
  then have g: "heap_grow S ?A (S(z \<mapsto> ?zb, f \<mapsto> wr8i fb 16 z)) (set (file_slots f ((z, ?e, t, sz) # zs) ss))"
    unfolding slots(1) by (rule heap_grow_upd) (use slots(3) in simp)
  have p: "\<forall>vfs. vfs_now vfs = t \<longrightarrow> push_filesize (vfs\<lparr>vpool := pool\<rparr>) (pinned f fb) e sz = Some (Some (pinned f (wr8i fb 16 z)), vfs\<lparr>vpool := pool3\<rparr>)"
    using a(1,2,4) r(1) by (simp add: push_filesize_def)
  have st: "store_room (pool_sb pool4) k" "page_size (pool_sb pool4) = page_size (pool_sb pool)"
    using a(8,9) r(3) q(3) by (simp_all add: same_store_def)
  show thesis by (rule that [OF p q(1,2) wf' g st])
qed

abbreviation write_count :: "nat \<Rightarrow> nat \<Rightarrow> nat \<Rightarrow> nat" where
  "write_count ps off cnt \<equiv> Suc ((off + cnt - 1) div ps - off div ps)"

abbreviation write_room :: "nat \<Rightarrow> nat \<Rightarrow> nat \<Rightarrow> nat \<Rightarrow> nat" where
  "write_room n ps off cnt \<equiv> Suc (write_count ps off cnt * ((off + cnt - 1) div ps div n + 4))"

lemma page_range:
  assumes "0 < cnt"
  shows "int off div int ps = int (off div ps)" "(int off + int cnt - 1) div int ps = int ((off + cnt - 1) div ps)"
    "nat (int off mod int ps) = off mod ps" "off div ps \<le> (off + cnt - 1) div ps"
proof -
  have "int off + int cnt - 1 = int (off + cnt - 1)" using assms by simp
  then show "(int off + int cnt - 1) div int ps = int ((off + cnt - 1) div ps)" by (simp only: of_nat_div)
  show "nat (int off mod int ps) = off mod ps" by (metis nat_int of_nat_mod)
qed (use assms in \<open>auto simp: of_nat_div intro!: div_le_mono\<close>)

lemma vfs_write_law:
  assumes rep: "heap_rep (vpool vfs) S P" and wf: "file_wf n S P f zs ss" and n: "0 < n" "n \<le> 2 ^ 32" "unat (vfs_segment_size vfs) = n"
    and small: "units_le B ss" "B + write_count ps off cnt \<le> 63" and ps: "page_size (vfs_sb vfs) = ps" "0 < ps"
    and room: "store_room (vfs_sb vfs) (write_room n ps off cnt + k)"
    and vfs: "cold vfs f" "\<forall>v. filelock_lookup (lock_table vfs) v = None" "i64 (vfs_now vfs)"
    and e: "vfs_epoch_is_writable vfs e" and cnt: "0 < cnt" "cnt < 2 ^ 31" "off + cnt < 2 ^ 63"
  defines "tbl \<equiv> mapper_table vfs"
  defines "old \<equiv> fst (size_entry tbl (mapper_table_resolve tbl e) zs)"
  obtains z pool' S' P' ss' where
    "vfs_write vfs f data (int off) (int cnt) e = Some (int cnt, vfs\<lparr>vpool := pool'\<rparr>)"
    "heap_rep pool' S' P'"
    "file_wf n S' P' f (if old < int (off + cnt) then (z, word_of_int e, vfs_now vfs, int (off + cnt)) # zs else zs) ss'"
    "heap_grow S (set (file_slots f zs ss)) S'
       (set (file_slots f (if old < int (off + cnt) then (z, word_of_int e, vfs_now vfs, int (off + cnt)) # zs else zs) ss'))"
    "heap_grow P (set (file_pages ss)) P' (set (file_pages ss'))" "units_le (B + write_count ps off cnt) ss'"
    "store_room (pool_sb pool') k" "page_size (pool_sb pool') = ps"
    "page_history n P' ss' = put_pages (write_count ps off cnt) ps (word_of_int e) (off div ps) (off mod ps) (take cnt data) (page_history n P ss)"
proof -
  let ?p = "off div ps" and ?l = "(off + cnt - 1) div ps" and ?new = "int (off + cnt)"
  let ?K = "?l div n + 4" and ?m = "write_count ps off cnt"
  let ?v = "vfs\<lparr>lock_table := lock_taken (lock_table vfs) f e\<rparr>"
  have rep0: "heap_rep (vpool vfs) S P" by (rule rep)
  obtain fb where fb: "S f = Some fb" "rd2 fb 0 = NODE_TYPE_FILE" by (rule file_head [OF wf])
  obtain pool1 where a: "\<forall>w. vfs_acquire (w\<lparr>vpool := vpool vfs\<rparr>) f True = (pinned f fb, w\<lparr>vpool := pool1\<rparr>)"
      "heap_rep pool1 S P" "same_store (vpool vfs) pool1" "f \<noteq> 0" "length fb = 32" by (rule at_acquire [OF rep0 fb(1)])
  have a1: "vfs_acquire vfs f True = (pinned f fb, vfs\<lparr>vpool := pool1\<rparr>)" using a(1) [rule_format, of vfs] by simp
  have free: "filelock_lookup (lock_table vfs) f = None" using vfs(2) by simp
  have l: "vfs_lock (vfs\<lparr>vpool := pool1\<rparr>) f e = Some (VFS_OK, ?v\<lparr>vpool := pool1\<rparr>)"
    using vfs_lock_law [of "vfs\<lparr>vpool := pool1\<rparr>" S P f e] a(2) free by simp
  have v: "only_lock f ?v" "cold ?v f" "unat (vfs_segment_size ?v) = n" using vfs(1,2) n(3) by (simp_all add: lock_taken_lookup)
  obtain pool2 where s: "\<forall>vfs. mapper_table vfs = tbl \<longrightarrow> vfs_file_size (vfs\<lparr>vpool := pool1\<rparr>) f e =
      Some (old, vfs\<lparr>vpool := pool2\<rparr>)" "heap_rep pool2 S P" "same_store pool1 pool2"
    unfolding old_def by (rule file_size_law [OF a(2) wf])
  have s1: "vfs_file_size (?v\<lparr>vpool := pool1\<rparr>) f e = Some (old, ?v\<lparr>vpool := pool2\<rparr>)" using s(1) [rule_format, of ?v] by (simp add: tbl_def)
  have ps2: "page_size (pool_sb pool2) = ps" "page_size (pool_sb pool1) = ps" and room2: "store_room (pool_sb pool2) (?m * ?K + Suc k)"
    using a(3) s(3) room ps(1) by (simp_all add: same_store_def ac_simps)
  have offm: "off mod ps \<le> page_size (pool_sb pool2)" unfolding ps2 using ps(2) by (simp add: less_imp_le)
  have K: "\<forall>j<?m. (?p + j) div n + 4 \<le> ?K"
  proof (intro allI impI)
    fix j assume "j < ?m"
    then have "?p + j \<le> ?l" using page_range(4) [OF cnt(1), of off ps] by linarith
    then show "(?p + j) div n + 4 \<le> ?K" by (simp add: div_le_mono)
  qed
  obtain pool3 S3 P3 ss3 where
    w: "\<forall>vfs. only_lock f vfs \<and> cold vfs f \<and> unat (vfs_segment_size vfs) = n \<longrightarrow>
       write_pages ?m f e (int ?p) (off mod ps) (take cnt data) (vfs\<lparr>vpool := pool2\<rparr>) = Some (None, vfs\<lparr>vpool := pool3\<rparr>)"
    "heap_rep pool3 S3 P3" "file_wf n S3 P3 f zs ss3" "heap_grow S (set (file_slots f zs ss)) S3 (set (file_slots f zs ss3))"
    "heap_grow P (set (file_pages ss)) P3 (set (file_pages ss3))" "units_le (B + ?m) ss3"
    "store_room (pool_sb pool3) (Suc k)" "page_size (pool_sb pool3) = page_size (pool_sb pool2)"
    "page_history n P3 ss3 = put_pages ?m (page_size (pool_sb pool2)) (word_of_int e) ?p (off mod ps) (take cnt data) (page_history n P ss)"
    by (rule write_pages_law [OF s(2) wf n(1,2) small offm room2 K])
  have w1: "write_pages ?m f e (int ?p) (off mod ps) (take cnt data) (?v\<lparr>vpool := pool2\<rparr>) = Some (None, ?v\<lparr>vpool := pool3\<rparr>)"
    using w(1) v by blast
  obtain fc where fc: "S3 f = Some fc" by (rule file_head [OF w(3)])
  obtain pool4 where b: "\<forall>vfs. vfs_acquire (vfs\<lparr>vpool := pool3\<rparr>) f True = (pinned f fc, vfs\<lparr>vpool := pool4\<rparr>)"
      "heap_rep pool4 S3 P3" "same_store pool3 pool4" "f \<noteq> 0" "length fc = 32" by (rule at_acquire [OF w(2) fc])
  have room4: "store_room (pool_sb pool4) (Suc k)" "page_size (pool_sb pool4) = ps" using b(3) w(7,8) ps2 by (simp_all add: same_store_def)
  have u: "snd (vfs_unlock (?v\<lparr>vpool := pool\<rparr>) f e) = vfs\<lparr>vpool := pool\<rparr>" for pool
    using vfs_unlock_law [OF free, of "?v\<lparr>vpool := pool\<rparr>" e] by simp
  have c: "sint (word_of_int (int cnt) :: u32) = int cnt" using cnt(2) by (simp add: signed_of_nat signed_take_bit_int_eq_self)
  have cond: "\<not> (int cnt \<le> 0 \<or> int off < 0)" using cnt(1) by simp
  define m where "m = ?m"
  have pages: "nat ((int off + int cnt - 1) div int ps - int ?p + 1) = m"
    using page_range(4) [OF cnt(1), of off ps] unfolding page_range(2) [OF cnt(1)] m_def by simp
  have mx: "(old < max old (int off + int cnt)) = (old < ?new)" "old < ?new \<Longrightarrow> max old (int off + int cnt) = ?new" by auto
  have start: "vfs_write vfs f data (int off) (int cnt) e =
     do {
       (slot, vfs) \<leftarrow> (if old < ?new then push_filesize (?v\<lparr>vpool := pool4\<rparr>) (pinned f fc) e ?new else Some (Some (pinned f fc), ?v\<lparr>vpool := pool4\<rparr>));
       (case slot of None \<Rightarrow> write_fail vfs (pinned f fc) f e VFS_ERR_NOMEM
        | Some file_slot \<Rightarrow> let vfs = vfs_release vfs file_slot; vfs = snd (vfs_unlock vfs f e) in Some (sint (word_of_int (int cnt) :: u32), vfs))
     }"
    unfolding vfs_write_def using cond e a(4) fb(2) ps2
    by (simp add: a1 l s1 Let_def pages page_range(3) [OF cnt(1)] page_range(1) [OF cnt(1)] w1 [folded m_def] b(1) mx cong: if_cong)
  show thesis
  proof (cases "old < ?new")
    case True
    have "i64 ?new" using cnt(3) by (simp add: i64_def)
    then obtain z pool5 pool6 S6 where
      q: "\<forall>w. vfs_now w = vfs_now vfs \<longrightarrow> push_filesize (w\<lparr>vpool := pool4\<rparr>) (pinned f fc) e ?new = Some (Some (pinned f (wr8i fc 16 z)), w\<lparr>vpool := pool5\<rparr>)"
        "\<forall>vfs. vfs_release (vfs\<lparr>vpool := pool5\<rparr>) (pinned f (wr8i fc 16 z)) = vfs\<lparr>vpool := pool6\<rparr>"
        "heap_rep pool6 S6 P3" "file_wf n S6 P3 f ((z, word_of_int e, vfs_now vfs, ?new) # zs) ss3"
        "heap_grow S3 (set (file_slots f zs ss3)) S6 (set (file_slots f ((z, word_of_int e, vfs_now vfs, ?new) # zs) ss3))"
        "store_room (pool_sb pool6) k" "page_size (pool_sb pool6) = page_size (pool_sb pool4)"
      by (rule push_size_law [OF b(2) w(3) fc room4(1) _ vfs(3)])
    have q1: "push_filesize (?v\<lparr>vpool := pool4\<rparr>) (pinned f fc) e ?new = Some (Some (pinned f (wr8i fc 16 z)), ?v\<lparr>vpool := pool5\<rparr>)"
      using q(1) by simp
    have eq: "vfs_write vfs f data (int off) (int cnt) e = Some (int cnt, vfs\<lparr>vpool := pool6\<rparr>)"
      unfolding start using True by (simp only: if_True q1 bind.bind_lunit prod.case option.case q(2) u Let_def c)
    show thesis
      by (rule that [OF eq q(3), of z ss3]) (use True q(4-7) w heap_grow_trans [OF w(4) q(5)] room4 ps2 in \<open>simp_all\<close>)
  next
    case False
    have lf: "f \<in> dom S3" using fc by auto
    obtain pool5 where r: "\<forall>vfs. vfs_release (vfs\<lparr>vpool := pool4\<rparr>) (pinned f fc) = vfs\<lparr>vpool := pool5\<rparr>"
      "heap_rep pool5 (S3(f \<mapsto> fc)) P3" "same_store pool4 pool5" by (rule at_release [OF b(2) lf b(5)])
    have S3: "S3(f \<mapsto> fc) = S3" using fc by auto
    have eq: "vfs_write vfs f data (int off) (int cnt) e = Some (int cnt, vfs\<lparr>vpool := pool5\<rparr>)"
      unfolding start using False by (simp only: if_False bind.bind_lunit prod.case option.case r(1) u Let_def c)
    show thesis
      by (rule that [OF eq, of S3 P3 0 ss3])
        (use False r(2,3) S3 w room4 ps2 nh.room_mono [OF room4(1), of k] in \<open>simp_all add: same_store_def\<close>)
  qed
qed

section \<open>Reading a file\<close>

lemma chunk_zero: "off + c \<le> ps \<Longrightarrow> chunk (zero_bytes ps) off c = zero_bytes c"
  by (rule nth_equalityI) (auto simp: nth_chunk)

lemma contents_length:
  assumes "heap_rep pool S P" "\<forall>v\<in>set vs. snd (snd v) \<in> dom P"
  shows "\<forall>x\<in>set (contents P vs). length (snd x) = page_size (pool_sb pool)"
  using assms nh.page_shape [OF assms(1)] by (fastforce simp: contents_def)

lemma page_history_length:
  assumes rep: "heap_rep pool S P" and wf: "file_wf n S P f zs ss"
  shows "length (history_read (page_size (pool_sb pool)) tbl R (page_history n P ss q)) = page_size (pool_sb pool)"
proof -
  have "\<forall>v\<in>set (page_versions n ss q). snd (snd v) \<in> dom P" using wf page_versions_pages unfolding file_wf_def by blast
  from contents_length [OF rep this] show ?thesis
    unfolding history_read_def page_history_def by (auto dest!: find_mem split: option.splits)
qed

lemma read_version_law:
  assumes rep: "heap_rep pool S P" and vs: "versions_at S (rd8i (ps_bytes slot) 8) vs" and pages: "\<forall>v\<in>set vs. snd (snd v) \<in> dom P"
    and len: "off + c \<le> page_size (pool_sb pool)"
  obtains pool' where "\<forall>vfs. mapper_table vfs = tbl \<longrightarrow> read_version (vfs\<lparr>vpool := pool\<rparr>) slot R off c =
      Some (Some (chunk (history_read (page_size (pool_sb pool)) tbl R (contents P vs)) off c), vfs\<lparr>vpool := pool'\<rparr>)"
    "heap_rep pool' S P" "same_store pool pool'"
proof -
  let ?Q = "\<lambda>e. visible_at tbl R e"
  obtain pool1 where v: "\<forall>vfs. mapper_table vfs = tbl \<longrightarrow> verchain_get (vfs\<lparr>vpool := pool\<rparr>) (rd8i (ps_bytes slot) 8) R =
      Some (case find (\<lambda>v. ?Q (fst (snd v))) vs of None \<Rightarrow> -1 | Some v \<Rightarrow> snd (snd v), vfs\<lparr>vpool := pool1\<rparr>)"
    "heap_rep pool1 S P" "same_store pool pool1" by (rule verchain_law [OF rep vs])
  note fc = find_contents [of ?Q P vs]
  show thesis
  proof (cases "find (\<lambda>v. ?Q (fst (snd v))) vs")
    case None
    then show thesis using v fc len by (intro that [of pool1]) (simp_all add: read_version_def history_read_def chunk_zero)
  next
    case (Some x)
    then have "x \<in> set vs" by (blast dest: find_mem)
    then obtain b where b: "P (snd (snd x)) = Some b" using pages by blast
    from nh.dread_law [OF v(2) b] obtain st pool2 where
      r: "data_read pool1 (snd (snd x)) = (Some b, st, pool2)" "heap_rep pool2 S P" "same_store pool1 pool2" by (auto simp: same_store_def)
    have "0 \<le> snd (snd x)" using nh.page_shape [OF rep b] by simp
    then show thesis using v(1) r same_store_trans [OF v(3) r(3)] Some fc b
      by (intro that [of pool2]) (simp_all add: read_version_def history_read_def)
  qed
qed

lemma page_bytes:
  assumes "length (history_read ps tbl R (F p)) = ps" "off + c \<le> ps"
  shows "chunk (history_read ps tbl R (F p)) off c = map (file_byte ps tbl R F) [p * ps + off..<p * ps + off + c]"
proof (rule nth_equalityI)
  fix i assume "i < length (chunk (history_read ps tbl R (F p)) off c)"
  then have i: "i < c" "off + i < ps" using assms by auto
  then have "(p * ps + off + i) div ps = p" "(p * ps + off + i) mod ps = off + i" by (simp_all add: add.assoc)
  then show "chunk (history_read ps tbl R (F p)) off c ! i = map (file_byte ps tbl R F) [p * ps + off..<p * ps + off + c] ! i"
    using i assms by (simp add: nth_chunk file_byte_def)
qed (use assms in simp)

lemma read_pages_law:
  assumes "heap_rep pool S P" and "file_wf n S P f zs ss" and n: "0 < n" "n \<le> 2 ^ 32" and "units_le B ss" and B: "B < 64"
    and "off \<le> page_size (pool_sb pool)" and "off + cnt \<le> m * page_size (pool_sb pool)"
    and "store_room (pool_sb pool) (m * K + k)" and "\<forall>j<m. (p + j) div n \<le> K"
  obtains pool' S' ss' where
    "\<forall>vfs. only_lock f vfs \<and> cold vfs f \<and> unat (vfs_segment_size vfs) = n \<and> mapper_table vfs = tbl \<longrightarrow>
       read_pages m f R (int p) off cnt (vfs\<lparr>vpool := pool\<rparr>) =
       Some (Some (map (file_byte (page_size (pool_sb pool)) tbl R (page_history n P ss))
           [p * page_size (pool_sb pool) + off..<p * page_size (pool_sb pool) + off + cnt]), vfs\<lparr>vpool := pool'\<rparr>)"
    "heap_rep pool' S' P" "file_wf n S' P f zs ss'" "heap_grow S (set (file_slots f zs ss)) S' (set (file_slots f zs ss'))"
    "page_versions n ss' = page_versions n ss" "file_pages ss' = file_pages ss" "units_le B ss'"
    "store_room (pool_sb pool') k" "page_size (pool_sb pool') = page_size (pool_sb pool)"
  using assms(1,2,5,7-)
proof (induction m arbitrary: p off cnt pool S ss thesis)
  case 0
  then have z: "off = 0" "cnt = 0" by simp_all
  show thesis by (rule 0(1) [OF _ 0(2,3)]) (use 0 z in auto)
next
  case (Suc m)
  let ?ps = "page_size (pool_sb pool)" and ?F = "page_history n P ss"
  let ?c = "min (?ps - off) cnt"
  have len: "off + ?c \<le> ?ps" using Suc.prems(5) by auto
  have room: "store_room (pool_sb pool) (p div n + (m * K + k))"
    by (rule nh.room_mono [OF Suc.prems(7)]) (use Suc.prems(8) [rule_format, of 0] in simp)
  obtain ok slot pool1 S1 ss1 where
    r: "\<forall>vfs. only_lock f vfs \<and> cold vfs f \<and> unat (vfs_segment_size vfs) = n \<longrightarrow>
         tree_resolve_page (vfs\<lparr>vpool := pool\<rparr>) f (int p) R False = Some (ok, slot, vfs\<lparr>vpool := pool1\<rparr>)"
      "heap_rep pool1 S1 P" "file_wf n S1 P f zs ss1" "store_room (pool_sb pool1) (m * K + k)" "page_size (pool_sb pool1) = ?ps"
      "heap_grow S (set (file_slots f zs ss)) S1 (set (file_slots f zs ss1))" "page_versions n ss1 = page_versions n ss" "units_le B ss1"
      "file_pages ss1 = file_pages ss" "\<not> ok \<longrightarrow> page_versions n ss p = []" "ok \<longrightarrow> versions_at S1 (rd8i (ps_bytes slot) 8) (page_versions n ss p)"
    by (rule resolve_read [OF Suc.prems(2,3) n Suc.prems(4) B room])
  have pages: "\<forall>v\<in>set (page_versions n ss p). snd (snd v) \<in> dom P" using Suc.prems(3) page_versions_pages unfolding file_wf_def by blast
  have len1: "off + ?c \<le> page_size (pool_sb pool1)" using len r(5) by simp
  have bytes: "chunk (history_read ?ps tbl R (?F p)) off ?c = map (file_byte ?ps tbl R ?F) [p * ?ps + off..<p * ?ps + off + ?c]"
    by (rule page_bytes [where F = ?F, OF page_history_length [OF Suc.prems(2,3)] len])
  obtain pool2 where v: "\<forall>vfs. mapper_table vfs = tbl \<longrightarrow>
      (if \<not> ok then Some (Some (zero_bytes ?c), vfs\<lparr>vpool := pool1\<rparr>) else read_version (vfs\<lparr>vpool := pool1\<rparr>) slot R off ?c) =
      Some (Some (chunk (history_read ?ps tbl R (?F p)) off ?c), vfs\<lparr>vpool := pool2\<rparr>)" "heap_rep pool2 S1 P" "same_store pool1 pool2"
  proof (cases ok)
    case True
    with r(11) have vs: "versions_at S1 (rd8i (ps_bytes slot) 8) (page_versions n ss p)" by blast
    obtain pool2 where "\<forall>vfs. mapper_table vfs = tbl \<longrightarrow> read_version (vfs\<lparr>vpool := pool1\<rparr>) slot R off ?c =
      Some (Some (chunk (history_read (page_size (pool_sb pool1)) tbl R (contents P (page_versions n ss p))) off ?c), vfs\<lparr>vpool := pool2\<rparr>)"
      "heap_rep pool2 S1 P" "same_store pool1 pool2" by (rule read_version_law [OF r(2) vs pages len1])
    with True r(5) show thesis by (intro that [of pool2]) (simp_all add: page_history_def)
  next
    case False
    with r(10) r(2) len show thesis
      by (intro that [of pool1]) (simp_all add: page_history_def contents_def history_read_def chunk_zero)
  qed
  have st2: "page_size (pool_sb pool2) = ?ps" "store_room (pool_sb pool2) (m * K + k)" using v(3) r(4,5) by (simp_all add: same_store_def)
  have K: "\<forall>j<m. (Suc p + j) div n \<le> K" using Suc.prems(8) by (metis Suc_less_eq add_Suc_shift)
  have enough: "0 + (cnt - ?c) \<le> m * page_size (pool_sb pool2)" unfolding st2(1) using Suc.prems(5,6) by (auto simp: min_def)
  have F: "page_history n P ss1 = ?F" by (rule ext) (simp add: page_history_def r(7))
  obtain pool' S' ss' where
    h: "\<forall>vfs. only_lock f vfs \<and> cold vfs f \<and> unat (vfs_segment_size vfs) = n \<and> mapper_table vfs = tbl \<longrightarrow>
       read_pages m f R (int (Suc p)) 0 (cnt - ?c) (vfs\<lparr>vpool := pool2\<rparr>) =
       Some (Some (map (file_byte (page_size (pool_sb pool2)) tbl R (page_history n P ss1))
           [Suc p * page_size (pool_sb pool2) + 0..<Suc p * page_size (pool_sb pool2) + 0 + (cnt - ?c)]), vfs\<lparr>vpool := pool'\<rparr>)"
    "heap_rep pool' S' P" "file_wf n S' P f zs ss'" "heap_grow S1 (set (file_slots f zs ss1)) S' (set (file_slots f zs ss'))"
    "page_versions n ss' = page_versions n ss1" "file_pages ss' = file_pages ss1" "units_le B ss'"
    "store_room (pool_sb pool') k" "page_size (pool_sb pool') = page_size (pool_sb pool2)"
    by (rule Suc.IH [OF _ v(2) r(3,8) le0 enough st2(2) K])
  have join: "[p * ?ps + off..<p * ?ps + off + ?c] @ [Suc p * ?ps..<Suc p * ?ps + (cnt - ?c)] = [p * ?ps + off..<p * ?ps + off + cnt]"
  proof (cases "cnt \<le> ?ps - off")
    case False
    then have "p * ?ps + off + ?c = Suc p * ?ps" "Suc p * ?ps + (cnt - ?c) = p * ?ps + off + cnt" using Suc.prems(5) by auto
    then show ?thesis using upt_add_eq_append [of "p * ?ps + off" "Suc p * ?ps" "cnt - ?c"] Suc.prems(5) by (simp add: ac_simps)
  qed simp
  have eq: "read_pages (Suc m) f R (int p) off cnt (vfs\<lparr>vpool := pool\<rparr>) =
      Some (Some (map (file_byte ?ps tbl R ?F) [p * ?ps + off..<p * ?ps + off + cnt]), vfs\<lparr>vpool := pool'\<rparr>)"
    if "only_lock f vfs" "cold vfs f" "unat (vfs_segment_size vfs) = n" "mapper_table vfs = tbl" for vfs :: vfs_t
  proof -
    have t: "tree_resolve_page (vfs\<lparr>vpool := pool\<rparr>) f (int p) R False = Some (ok, slot, vfs\<lparr>vpool := pool1\<rparr>)" using r(1) that by blast
    have sz: "page_size (vfs_sb (vfs\<lparr>vpool := pool1\<rparr>)) = ?ps" using r(5) by simp
    have part: "(if \<not> ok then Some (Some (zero_bytes ?c), vfs\<lparr>vpool := pool1\<rparr>) else read_version (vfs\<lparr>vpool := pool1\<rparr>) slot R off ?c) =
      Some (Some (map (file_byte ?ps tbl R ?F) [p * ?ps + off..<p * ?ps + off + ?c]), vfs\<lparr>vpool := pool2\<rparr>)"
      using v(1) that unfolding bytes by blast
    have rest: "read_pages m f R (int p + 1) 0 (cnt - ?c) (vfs\<lparr>vpool := pool2\<rparr>) =
      Some (Some (map (file_byte ?ps tbl R ?F) [Suc p * ?ps..<Suc p * ?ps + (cnt - ?c)]), vfs\<lparr>vpool := pool'\<rparr>)"
      using h(1) [rule_format, of vfs] that by (simp add: st2(1) F add.commute)
    show ?thesis
      unfolding read_pages.simps t bind.bind_lunit prod.case Let_def sz part option.case rest option.map map_append [symmetric] join ..
  qed
  show thesis
    by (rule Suc.prems(1) [OF _ h(2,3) heap_grow_trans [OF r(6) h(4)] _ _ h(7,8)]) (use eq h(5,6,9) r(7,9) st2(1) in simp_all)
qed

text \<open>How many bytes a read returns: as many as asked for, up to the end of the file.\<close>

definition read_count :: "int \<Rightarrow> nat \<Rightarrow> nat \<Rightarrow> nat" where
  "read_count sz off cnt = nat (min (int cnt) (sz - int off))"

abbreviation read_room :: "nat \<Rightarrow> nat \<Rightarrow> nat \<Rightarrow> nat \<Rightarrow> nat" where
  "read_room n ps off cnt \<equiv> write_count ps off cnt * ((off + cnt - 1) div ps div n)"

lemma vfs_read_law:
  fixes e :: int
  assumes rep: "heap_rep (vpool vfs) S P" and wf: "file_wf n S P f zs ss" and n: "0 < n" "n \<le> 2 ^ 32" "unat (vfs_segment_size vfs) = n"
    and small: "units_le B ss" "B < 64" and ps: "page_size (vfs_sb vfs) = ps" "0 < ps"
    and room: "store_room (vfs_sb vfs) (read_room n ps off cnt + k)"
    and vfs: "cold vfs f" "only_lock f vfs" and cnt: "0 < cnt" "cnt < 2 ^ 31"
  defines "tbl \<equiv> mapper_table vfs"
  defines "R \<equiv> mapper_table_resolve tbl e"
  defines "c \<equiv> read_count (fst (size_entry tbl R zs)) off cnt"
  obtains pool' S' ss' where
    "vfs_read vfs f (int off) (int cnt) e = Some (int c, map (file_byte ps tbl R (page_history n P ss)) [off..<off + c], vfs\<lparr>vpool := pool'\<rparr>)"
    "heap_rep pool' S' P" "file_wf n S' P f zs ss'" "heap_grow S (set (file_slots f zs ss)) S' (set (file_slots f zs ss'))"
    "page_versions n ss' = page_versions n ss" "file_pages ss' = file_pages ss" "units_le B ss'"
    "store_room (pool_sb pool') k" "page_size (pool_sb pool') = ps"
proof -
  define sz where "sz = fst (size_entry tbl R zs)"
  have cond: "\<not> (int cnt \<le> 0 \<or> int off < 0)" using cnt(1) by simp
  obtain pool1 where s: "\<forall>w. mapper_table w = tbl \<longrightarrow> vfs_file_size (w\<lparr>vpool := vpool vfs\<rparr>) f e = Some (sz, w\<lparr>vpool := pool1\<rparr>)"
    "heap_rep pool1 S P" "same_store (vpool vfs) pool1" unfolding sz_def R_def by (rule file_size_law [OF rep wf])
  have s1: "vfs_file_size vfs f e = Some (sz, vfs\<lparr>vpool := pool1\<rparr>)" using s(1) [rule_format, of vfs] by (simp add: tbl_def)
  have st1: "page_size (pool_sb pool1) = ps" "store_room (pool_sb pool1) (read_room n ps off cnt + k)" using s(3) ps(1) room by (simp_all add: same_store_def)
  show thesis
  proof (cases "sz \<le> int off")
    case True
    then have c: "c = 0" by (simp add: c_def read_count_def sz_def)
    have "vfs_read vfs f (int off) (int cnt) e = Some (0, [], vfs\<lparr>vpool := pool1\<rparr>)"
      unfolding vfs_read_def using cond True by (simp add: s1)
    then show thesis
      by (intro that [OF _ s(2) wf]) (use small c st1 nh.room_mono [OF st1(2), of k] in simp_all)
  next
    case False
    then have c: "0 < c" "c \<le> cnt" "int c = (if int off + int cnt > sz then sz - int off else int cnt)"
      using cnt(1) by (auto simp: c_def read_count_def sz_def min_def)
    obtain fb where fb: "S f = Some fb" "rd2 fb 0 = NODE_TYPE_FILE" by (rule file_head [OF wf])
    obtain pool2 where a: "\<forall>vfs. vfs_acquire (vfs\<lparr>vpool := pool1\<rparr>) f False = (unpinned f fb, vfs\<lparr>vpool := pool2\<rparr>)"
      "heap_rep pool2 S P" "same_store pool1 pool2" "f \<noteq> 0" "length fb = 32" by (rule at_acquire [OF s(2) fb(1)])
    have st2: "page_size (pool_sb pool2) = ps" "store_room (pool_sb pool2) (read_room n ps off cnt + k)" using a(3) st1 by (simp_all add: same_store_def)
    define m where "m = write_count ps off c"
    let ?p = "off div ps" and ?l = "(off + c - 1) div ps"
    have pl: "?p \<le> ?l" "?l \<le> (off + cnt - 1) div ps" using c(1,2) by (auto intro!: div_le_mono)
    have m: "nat ((int off + int c - 1) div int ps - int ?p + 1) = m" unfolding page_range(2) [OF c(1)] m_def using pl(1) by simp
    have room2: "store_room (pool_sb pool2) (m * (?l div n) + k)"
      by (rule nh.room_mono [OF st2(2)]) (use pl in \<open>auto simp: m_def intro!: add_mono mult_mono div_le_mono\<close>)
    have K: "\<forall>j<m. (?p + j) div n \<le> ?l div n" using pl(1) by (auto simp: m_def intro!: div_le_mono)
    have off: "off mod ps \<le> page_size (pool_sb pool2)" using ps(2) st2(1) by (simp add: less_imp_le)
    have enough: "off mod ps + c \<le> m * page_size (pool_sb pool2)"
    proof -
      have "off + c - 1 < Suc ?l * ps" using dividend_less_times_div [OF ps(2), of "off + c - 1"] by (simp add: mult.commute)
      moreover have "?p * ps + off mod ps = off" by (rule div_mult_mod_eq)
      moreover have "Suc ?l = ?p + m" using pl(1) by (simp add: m_def)
      then have "Suc ?l * ps = ?p * ps + m * ps" by (simp only: distrib_right)
      ultimately show ?thesis unfolding st2(1) using c(1) by linarith
    qed
    obtain pool' S' ss' where
      r: "\<forall>vfs. only_lock f vfs \<and> cold vfs f \<and> unat (vfs_segment_size vfs) = n \<and> mapper_table vfs = tbl \<longrightarrow>
         read_pages m f R (int ?p) (off mod ps) c (vfs\<lparr>vpool := pool2\<rparr>) =
         Some (Some (map (file_byte (page_size (pool_sb pool2)) tbl R (page_history n P ss))
             [?p * page_size (pool_sb pool2) + off mod ps..<?p * page_size (pool_sb pool2) + off mod ps + c]), vfs\<lparr>vpool := pool'\<rparr>)"
      "heap_rep pool' S' P" "file_wf n S' P f zs ss'" "heap_grow S (set (file_slots f zs ss)) S' (set (file_slots f zs ss'))"
      "page_versions n ss' = page_versions n ss" "file_pages ss' = file_pages ss" "units_le B ss'"
      "store_room (pool_sb pool') k" "page_size (pool_sb pool') = page_size (pool_sb pool2)"
      by (rule read_pages_law [OF a(2) wf n(1,2) small off enough room2 K])
    have r1: "read_pages m f R (int ?p) (off mod ps) c (vfs\<lparr>vpool := pool2\<rparr>) =
        Some (Some (map (file_byte ps tbl R (page_history n P ss)) [off..<off + c]), vfs\<lparr>vpool := pool'\<rparr>)"
      using r(1) [rule_format, of vfs] vfs n(3) by (simp add: tbl_def st2(1))
    have w: "sint (of_nat c :: u32) = int c" using c(2) cnt(2) by (simp add: signed_of_nat signed_take_bit_int_eq_self)
    have R: "mapper_table_resolve (mapper_table vfs) e = R" by (simp add: R_def tbl_def)
    have "vfs_read vfs f (int off) (int cnt) e = Some (int c, map (file_byte ps tbl R (page_history n P ss)) [off..<off + c], vfs\<lparr>vpool := pool'\<rparr>)"
      unfolding vfs_read_def using cond False a(4) fb(2)
      by (simp add: s1 a(1) c(3) [symmetric] R st2(1) st1(1) m page_range(1) [OF c(1)] page_range(3) [OF c(1)] r1 w)
    then show thesis by (rule that [OF _ r(2-8)]) (use r(9) st2(1) in simp)
  qed
qed

end
